(* ===== verification/Prelude.thy ===== *)
theory Prelude
  imports Main "HOL-Library.Word"
begin

unbundle bit_operations_syntax

text \<open>
  Shared vocabulary of the development: machine integers, error codes, the outcome of a
  call that may not return, C's signed remainder, and the theorem collections the
  component theories fill.
\<close>

section \<open>Machine types\<close>

type_synonym u8 = "8 word"
type_synonym u16 = "16 word"
type_synonym u32 = "32 word"
type_synonym u64 = "64 word"
type_synonym i32 = "32 word"
type_synonym ptr = "64 word"

abbreviation NULL :: ptr where
  "NULL \<equiv> 0"

datatype err_code =
    ERR_NONE
  | ERR_BUSY
  | ERR_BAD_INPUT
  | ERR_BAD_STATE
  | ERR_NOT_FOUND
  | ERR_OUT_OF_MEMORY
  | ERR_NO_MORE
  | ERR_EXPIRED

section \<open>Outcomes\<close>

text \<open>
  What a call can do: return a value, spin forever (\<open>Hang\<close>), stop the CPU
  (\<open>Halted\<close>, the \<open>PANIC\<close> and \<open>jmp __halt\<close> paths), or do something C leaves
  undefined, such as indexing an array out of its bounds (\<open>Undef\<close>).
\<close>

datatype 'a outcome = Ret 'a | Hang | Halted | Undef

definition obind :: "'a outcome \<Rightarrow> ('a \<Rightarrow> 'b outcome) \<Rightarrow> 'b outcome" where
  "obind r f = (case r of Ret x \<Rightarrow> f x | Hang \<Rightarrow> Hang | Halted \<Rightarrow> Halted | Undef \<Rightarrow> Undef)"

lemma obind_simps [simp]:
  "obind (Ret x) f = f x" "obind Hang f = Hang" "obind Halted f = Halted" "obind Undef f = Undef"
  by (simp_all add: obind_def)

lemma obind_Ret_iff: "obind r f = Ret y \<longleftrightarrow> (\<exists>x. r = Ret x \<and> f x = Ret y)"
  by (cases r) auto

section \<open>C integer arithmetic\<close>

text \<open>C's \<open>%\<close> on \<open>int\<close> truncates towards zero: the result has the sign of the dividend.\<close>

definition c_rem :: "i32 \<Rightarrow> i32 \<Rightarrow> i32" where
  "c_rem a b = word_of_int (sgn (sint a) * (\<bar>sint a\<bar> mod \<bar>sint b\<bar>))"

lemma c_rem_nonneg:
  assumes "0 \<le> sint a" "0 < sint b"
  shows "sint (c_rem a b) = sint a mod sint b"
proof -
  have eq: "sgn (sint a) * (\<bar>sint a\<bar> mod \<bar>sint b\<bar>) = sint a mod sint b"
    using assms by (cases "sint a = 0") (auto simp: sgn_if)
  have "sint a mod sint b \<le> sint a" "0 \<le> sint a mod sint b"
    using assms by (auto intro: zmod_le_nonneg_dividend)
  moreover have "sint a < 2 ^ 31" using sint_lt [of a] by simp
  ultimately show ?thesis
    unfolding c_rem_def eq by (simp add: sint_sbintrunc' signed_take_bit_int_eq_self)
qed

text \<open>Reading a word as signed, below the sign bit.\<close>

lemma sint_of_nat:
  assumes "n < 2 ^ (LENGTH('a) - 1)"
  shows "sint (word_of_nat n :: 'a::len word) = int n"
proof -
  have "sint (word_of_int (int n) :: 'a word) = signed_take_bit (LENGTH('a) - 1) (int n)"
    by (rule sint_sbintrunc')
  also have "\<dots> = int n"
    using assms by (intro signed_take_bit_int_eq_self) (auto intro: order_trans [of _ 0])
  finally show ?thesis by simp
qed

lemma sint_small:
  fixes w :: "'a::len word"
  assumes "unat w < 2 ^ (LENGTH('a) - 1)"
  shows "sint w = int (unat w)"
  using sint_of_nat [OF assms] by simp

lemma of_nat_eq_0_iff32: "n < 2 ^ 32 \<Longrightarrow> (word_of_nat n :: i32) = 0 \<longleftrightarrow> n = 0"
  by (simp add: word_of_nat_eq_0_iff dvd_imp_le nat_dvd_not_less) (metis dvd_0_right nat_dvd_not_less neq0_conv)

lemma unat_of_nat64: "n < 2 ^ 64 \<Longrightarrow> unat (word_of_nat n :: u64) = n"
  by (simp add: unat_of_nat)

lemma unat_ucast32: "unat (ucast (x :: u32) :: u64) = unat x"
  by (simp add: unsigned_ucast_eq take_bit_nat_eq_self order_less_trans [OF unsigned_less])

lemma unat_lt32: "unat (x :: u32) < 2 ^ 32"
  using unsigned_less [of x, where ?'a = nat] by simp

text \<open>Sign extension of a number that is not negative.\<close>

lemma unat_scast_nonneg:
  fixes w :: i32
  assumes "0 \<le> sint w"
  shows "unat (scast w :: u64) = nat (sint w)"
proof -
  have l: "sint w < 2 ^ 31" using sint_lt [of w] by simp
  have "sint w mod 2 ^ LENGTH(64) = sint w"
    by (rule mod_pos_pos_trivial [OF assms]) (rule less_trans [OF l], simp)
  moreover have "uint (word_of_int (sint w) :: u64) = sint w mod 2 ^ LENGTH(64)" by (rule uint_word_of_int)
  ultimately have "uint (scast w :: u64) = sint w" unfolding scast_eq by metis
  then show ?thesis by (simp add: unat_eq_nat_uint)
qed

section \<open>Theorem collections\<close>

named_theorems links_simps \<open>how link-field writes change the link fields\<close>
named_theorems frame_simps \<open>what an operation leaves unchanged\<close>

end
