(* ===== verification/Bits.thy ===== *)
theory Bits
  imports Prelude
begin

text \<open>
  The bit-level macros of \<open>common.h\<close> and the bit scans of \<open>x86_64/cpu.h\<close> and
  \<open>x86_64/schedule.inc\<close>.
\<close>

section \<open>Sizes\<close>

definition SIZE_ELEMENTS :: "nat \<Rightarrow> nat \<Rightarrow> nat" where
  "SIZE_ELEMENTS sz element_size = (sz + element_size - 1) div element_size"

lemma SIZE_ELEMENTS_ge:
  assumes "0 < e"
  shows "n \<le> SIZE_ELEMENTS n e * e"
proof -
  have "(n + e - 1) div e * e + (n + e - 1) mod e = n + e - 1"
    by (rule div_mult_mod_eq)
  moreover have "(n + e - 1) mod e < e" using assms by (rule mod_less_divisor)
  ultimately show ?thesis unfolding SIZE_ELEMENTS_def by linarith
qed

lemma SIZE_ELEMENTS_least:
  assumes "0 < e" "n \<le> k * e"
  shows "SIZE_ELEMENTS n e \<le> k"
proof -
  have "(n + e - 1) div e \<le> (k * e + (e - 1)) div e"
    using assms by (intro div_le_mono) simp
  also have "\<dots> = k" using assms(1) by (simp only: div_mult_self3) simp
  finally show ?thesis by (simp add: SIZE_ELEMENTS_def)
qed

section \<open>Bit fields: INT_BITS\<close>

text \<open>
  For 32-bit values, which all uses in the program have. (The macro is generic, but values of 8
  and 16 bits would be promoted to \<open>int\<close> before the shifts, and signed ones shifted as such.)
\<close>

definition INT_BITS :: "u32 \<Rightarrow> nat \<Rightarrow> nat \<Rightarrow> u32" where
  "INT_BITS value low high =
     drop_bit (size value - 1 - high + low) (push_bit (size value - 1 - high) value)"

lemma bit_INT_BITS:
  assumes "low \<le> high" "high < 32"
  shows "bit (INT_BITS v low high) i \<longleftrightarrow> i \<le> high - low \<and> bit v (i + low)"
proof -
  have "bit v (i + low) \<Longrightarrow> i + low < 32" using bit_imp_le_length [of v] by simp
  then show ?thesis
    using assms by (auto simp: INT_BITS_def bit_drop_bit_eq bit_push_bit_iff word_size add.commute)
qed

lemma INT_BITS_mask:
  assumes "low \<le> high" "high < 32"
  shows "INT_BITS v low high = drop_bit low v AND mask (high - low + 1)"
  by (rule bit_word_eqI)
    (use assms in \<open>auto simp: bit_INT_BITS bit_and_iff bit_drop_bit_eq bit_mask_iff add.commute\<close>)

section \<open>Bit arrays: BIT_ARRAY_SET, BIT_ARRAY_RESET, BIT_ARRAY_GET\<close>

text \<open>
  The macros cast the array to \<open>uint8_t*\<close>: byte \<open>k\<close> of an array of 64-bit words is
  byte \<open>k mod 8\<close>, counted from the least significant one, of word \<open>k div 8\<close>.
\<close>

definition get_byte :: "u64 list \<Rightarrow> nat \<Rightarrow> u8" where
  "get_byte ws k = ucast (drop_bit (8 * (k mod 8)) (ws ! (k div 8)))"

definition put_byte :: "u64 list \<Rightarrow> nat \<Rightarrow> u8 \<Rightarrow> u64 list" where
  "put_byte ws k b =
     ws[k div 8 := (ws ! (k div 8) AND NOT (push_bit (8 * (k mod 8)) 0xFF))
                   OR push_bit (8 * (k mod 8)) (ucast b)]"

definition BIT_ARRAY_SET :: "u64 list \<Rightarrow> nat \<Rightarrow> u64 list" where
  "BIT_ARRAY_SET array b =
     put_byte array (b div 8) (get_byte array (b div 8) OR push_bit (b mod 8) 1)"

definition BIT_ARRAY_RESET :: "u64 list \<Rightarrow> nat \<Rightarrow> u64 list" where
  "BIT_ARRAY_RESET array b =
     put_byte array (b div 8) (get_byte array (b div 8) AND NOT (push_bit (b mod 8) 1))"

definition BIT_ARRAY_GET :: "u64 list \<Rightarrow> nat \<Rightarrow> bool" where
  "BIT_ARRAY_GET array b \<longleftrightarrow> get_byte array (b div 8) AND push_bit (b mod 8) 1 \<noteq> 0"

definition arr_bit :: "u64 list \<Rightarrow> nat \<Rightarrow> bool" where
  "arr_bit ws b \<longleftrightarrow> bit (ws ! (b div 64)) (b mod 64)"

lemma div8_mod8: "8 * (b div 8 mod 8) + b mod 8 = (b :: nat) mod 64"
  using mod_mult2_eq [of b 8 8] by simp

lemma bit_get_byte: "bit (get_byte ws k) i \<longleftrightarrow> i < 8 \<and> bit (ws ! (k div 8)) (8 * (k mod 8) + i)"
  by (auto simp: get_byte_def bit_ucast_iff bit_drop_bit_eq dest: bit_imp_le_length)

lemma bit_byte_FF: "bit (255 :: int) n \<longleftrightarrow> n < 8"
proof -
  have "mask 8 = (255 :: int)" by (simp add: mask_eq_exp_minus_1)
  from this [symmetric] show ?thesis by (simp only: bit_mask_iff) simp
qed

lemma bit_put_byte:
  assumes "k div 8 < length ws" "n < 64"
  shows "bit (put_byte ws k b ! (k div 8)) n \<longleftrightarrow>
    (if 8 * (k mod 8) \<le> n \<and> n < 8 * (k mod 8) + 8 then bit b (n - 8 * (k mod 8))
     else bit (ws ! (k div 8)) n)"
  using assms
  by (auto simp: put_byte_def bit_or_iff bit_and_iff bit_not_iff bit_push_bit_iff bit_ucast_iff
      bit_byte_FF not_less dest: bit_imp_le_length)

lemma put_byte_other: "j \<noteq> k div 8 \<Longrightarrow> put_byte ws k b ! j = ws ! j"
  by (simp add: put_byte_def)

lemma length_put_byte [simp]: "length (put_byte ws k b) = length ws"
  by (simp add: put_byte_def)

lemma length_BIT_ARRAY [simp]:
  "length (BIT_ARRAY_SET ws b) = length ws" "length (BIT_ARRAY_RESET ws b) = length ws"
  by (simp_all add: BIT_ARRAY_SET_def BIT_ARRAY_RESET_def)

text \<open>A byte-wise read-modify-write at bit \<open>b\<close> is a read-modify-write of that one bit.\<close>

lemma arr_bit_put_byte:
  assumes b: "b < 64 * length ws"
    and other: "\<And>i. i < 8 \<Longrightarrow> i \<noteq> b mod 8 \<Longrightarrow> bit v i \<longleftrightarrow> bit (get_byte ws (b div 8)) i"
  shows "arr_bit (put_byte ws (b div 8) v) i \<longleftrightarrow> (if i = b then bit v (b mod 8) else arr_bit ws i)"
proof (cases "i div 64 = b div 64")
  case False
  then have "put_byte ws (b div 8) v ! (i div 64) = ws ! (i div 64)"
    by (intro put_byte_other) (simp add: div_mult2_eq [symmetric])
  with False show ?thesis by (auto simp: arr_bit_def)
next
  case True
  define k where "k = b div 8"
  have kd: "k div 8 = b div 64" and km: "8 * (k mod 8) + b mod 8 = b mod 64"
    by (simp_all add: k_def div_mult2_eq [symmetric] div8_mod8)
  have len: "k div 8 < length ws" using b kd by (simp add: less_mult_imp_div_less mult.commute)
  have upd: "arr_bit (put_byte ws k v) i \<longleftrightarrow>
      (if 8 * (k mod 8) \<le> i mod 64 \<and> i mod 64 < 8 * (k mod 8) + 8
       then bit v (i mod 64 - 8 * (k mod 8)) else bit (ws ! (k div 8)) (i mod 64))"
    using bit_put_byte [OF len, of "i mod 64" v] True kd by (simp add: arr_bit_def)
  show ?thesis
  proof (cases "i = b")
    case True
    have "b mod 8 < 8" "b mod 64 - 8 * (k mod 8) = b mod 8" using km by simp_all
    with km upd True show ?thesis by (auto simp: k_def [symmetric])
  next
    case False
    with \<open>i div 64 = b div 64\<close> have ne: "i mod 64 \<noteq> b mod 64"
      by (metis div_mult_mod_eq)
    have "bit v (i mod 64 - 8 * (k mod 8)) \<longleftrightarrow> bit (ws ! (k div 8)) (i mod 64)"
      if a: "8 * (k mod 8) \<le> i mod 64" "i mod 64 < 8 * (k mod 8) + 8"
    proof -
      have "i mod 64 - 8 * (k mod 8) < 8" "i mod 64 - 8 * (k mod 8) \<noteq> b mod 8"
        using a km ne by linarith+
      from other [OF this] this(1) a(1) show ?thesis by (simp add: bit_get_byte k_def [symmetric])
    qed
    with upd False True kd show ?thesis by (auto simp: k_def [symmetric] arr_bit_def)
  qed
qed

lemma bit_get_byte_arr: "bit (get_byte ws (b div 8)) (b mod 8) \<longleftrightarrow> arr_bit ws b"
  by (simp add: bit_get_byte arr_bit_def div8_mod8 div_mult2_eq [symmetric])

lemma arr_bit_SET:
  "b < 64 * length ws \<Longrightarrow> arr_bit (BIT_ARRAY_SET ws b) i \<longleftrightarrow> i = b \<or> arr_bit ws i"
  unfolding BIT_ARRAY_SET_def
  by (subst arr_bit_put_byte) (auto simp: bit_or_iff bit_exp_iff)

lemma arr_bit_RESET:
  "b < 64 * length ws \<Longrightarrow> arr_bit (BIT_ARRAY_RESET ws b) i \<longleftrightarrow> i \<noteq> b \<and> arr_bit ws i"
  unfolding BIT_ARRAY_RESET_def
  by (subst arr_bit_put_byte)
    (auto simp: bit_and_iff bit_not_iff bit_exp_iff bit_get_byte)

lemma BIT_ARRAY_GET_arr: "BIT_ARRAY_GET ws b \<longleftrightarrow> arr_bit ws b"
proof -
  have "get_byte ws (b div 8) AND push_bit (b mod 8) 1 \<noteq> 0 \<longleftrightarrow>
      bit (get_byte ws (b div 8)) (b mod 8)"
    using bit_eq_iff [of "get_byte ws (b div 8) AND push_bit (b mod 8) 1" 0]
    by (auto simp: bit_and_iff bit_exp_iff)
  then show ?thesis by (simp add: BIT_ARRAY_GET_def bit_get_byte_arr)
qed

section \<open>Bit scans\<close>

text \<open>\<open>bsf\<close> and \<open>bsr\<close> leave their destination undefined when the source is zero: \<open>None\<close>.\<close>

definition bsfq :: "u64 \<Rightarrow> nat option" where
  "bsfq value = List.find (bit value) [0..<64]"

definition bsrq :: "u64 \<Rightarrow> nat option" where
  "bsrq value = List.find (bit value) (rev [0..<64])"

lemma find_upt_Some:
  "List.find P [0..<n] = Some i \<longleftrightarrow> i < n \<and> P i \<and> (\<forall>j<i. \<not> P j)"
  by (auto simp: find_Some_iff)

lemma bsfq_Some: "bsfq v = Some i \<longleftrightarrow> bit v i \<and> (\<forall>j<i. \<not> bit v j)"
  unfolding bsfq_def find_upt_Some by (auto dest: bit_imp_le_length)

lemma bsfq_None: "bsfq v = None \<longleftrightarrow> v = 0"
  by (auto simp: bsfq_def find_None_iff bit_eq_iff dest: bit_imp_le_length)

lemma bsrq_None: "bsrq v = None \<longleftrightarrow> v = 0"
  by (auto simp: bsrq_def find_None_iff bit_eq_iff dest: bit_imp_le_length)

lemma bsrq_Some: "bsrq v = Some i \<longleftrightarrow> bit v i \<and> (\<forall>j>i. \<not> bit v j)"
proof
  assume "bsrq v = Some i"
  then obtain k where k: "k < 64" "bit v (63 - k)" "\<forall>j<k. \<not> bit v (63 - j)" "i = 63 - k"
    by (auto simp: bsrq_def find_Some_iff rev_nth)
  have "\<not> bit v j" if "j > i" for j
  proof
    assume "bit v j"
    then have "j < 64" by (auto dest: bit_imp_le_length)
    with k that have "63 - j < k" "63 - (63 - j) = j" by auto
    with k(3) \<open>bit v j\<close> show False by metis
  qed
  with k show "bit v i \<and> (\<forall>j>i. \<not> bit v j)" by simp
next
  assume a: "bit v i \<and> (\<forall>j>i. \<not> bit v j)"
  then have "i < 64" by (auto dest: bit_imp_le_length)
  with a show "bsrq v = Some i"
    unfolding bsrq_def find_Some_iff by (intro exI [of _ "63 - i"]) (auto simp: rev_nth)
qed

lemma bsrq_bounds: "bsrq v = Some n \<Longrightarrow> 2 ^ n \<le> unat v \<and> unat v < 2 ^ Suc n"
proof -
  assume "bsrq v = Some n"
  then have n: "bit v n" "\<And>j. j > n \<Longrightarrow> \<not> bit v j" by (auto simp: bsrq_Some)
  have "n < 64" using n(1) by (auto dest: bit_imp_le_length)
  have "take_bit (Suc n) v = v" by (rule bit_word_eqI) (use n(2) not_less in \<open>auto simp: bit_simps less_Suc_eq_le\<close>)
  then have "unat v = take_bit (Suc n) (unat v)" by (metis unsigned_take_bit_eq)
  then have lt: "unat v < 2 ^ Suc n" by (metis take_bit_nat_less_exp)
  have "bit (unat v) n" using n(1) by (simp add: bit_unsigned_iff)
  then have "odd (unat v div 2 ^ n)" by (simp add: bit_iff_odd)
  then have "unat v div 2 ^ n \<noteq> 0" by (metis even_zero)
  then have "2 ^ n \<le> unat v" by (meson div_less not_less)
  with lt show ?thesis by simp
qed

function find_mask_bsf_from :: "u64 list \<Rightarrow> nat \<Rightarrow> nat \<Rightarrow> int" where
  "find_mask_bsf_from msk sz i =
     (if i < sz then
        (if msk ! i \<noteq> 0 then (case bsfq (msk ! i) of Some n \<Rightarrow> int (i * 64 + n) | None \<Rightarrow> -1)
         else find_mask_bsf_from msk sz (Suc i))
      else -1)"
  by pat_completeness auto
termination
  by (relation "measure (\<lambda>(m, sz, i). sz - i)") auto

declare find_mask_bsf_from.simps [simp del]

definition find_mask_bsf :: "u64 list \<Rightarrow> nat \<Rightarrow> int" where
  "find_mask_bsf msk sz = find_mask_bsf_from msk sz 0"

lemma arr_bit_word_iff: "(\<exists>b. b div 64 = i \<and> arr_bit ws b) \<longleftrightarrow> ws ! i \<noteq> 0"
proof
  assume "ws ! i \<noteq> 0"
  then obtain n where n: "bit (ws ! i) n" by (auto simp: bit_eq_iff)
  then have "n < 64" by (auto dest: bit_imp_le_length)
  with n show "\<exists>b. b div 64 = i \<and> arr_bit ws b"
    by (intro exI [of _ "i * 64 + n"]) (simp add: arr_bit_def)
qed (auto simp: arr_bit_def)

definition least_bit :: "u64 list \<Rightarrow> nat \<Rightarrow> int \<Rightarrow> bool" where
  "least_bit ws sz r \<longleftrightarrow>
     (if r = -1 then \<forall>b < 64 * sz. \<not> arr_bit ws b
      else 0 \<le> r \<and> nat r < 64 * sz \<and> arr_bit ws (nat r) \<and> (\<forall>b < nat r. \<not> arr_bit ws b))"

lemma find_mask_bsf_from_least:
  assumes "\<forall>b < 64 * i. \<not> arr_bit ws b"
  shows "least_bit ws sz (find_mask_bsf_from ws sz i)"
  using assms
proof (induction ws sz i rule: find_mask_bsf_from.induct)
  case (1 ws sz i)
  show ?case
  proof (cases "i < sz")
    case False
    then have "64 * sz \<le> 64 * i" by simp
    then have "\<forall>b < 64 * sz. \<not> arr_bit ws b"
      using "1.prems" by (meson order_less_le_trans)
    with False show ?thesis by (simp add: find_mask_bsf_from.simps [of ws sz i] least_bit_def)
  next
    case True
    note lt = this
    show ?thesis
    proof (cases "ws ! i = 0")
      case True
      have "\<not> arr_bit ws b" if "b < 64 * Suc i" for b
      proof (cases "b < 64 * i")
        case False
        with that have "b div 64 = i" by auto
        with True show ?thesis by (simp add: arr_bit_def)
      qed (use "1.prems" in blast)
      with "1.IH" lt True show ?thesis by (simp add: find_mask_bsf_from.simps [of ws sz i])
    next
      case False
      then obtain n where n: "bsfq (ws ! i) = Some n" using bsfq_None by fastforce
      then have bn: "bit (ws ! i) n" and lo: "\<forall>j<n. \<not> bit (ws ! i) j" by (simp_all add: bsfq_Some)
      have n64: "n < 64" using bn by (auto dest: bit_imp_le_length)
      have "\<not> arr_bit ws b" if "b < i * 64 + n" for b
      proof (cases "b < 64 * i")
        case False
        with that n64 have "b div 64 = i" by auto
        moreover have "b mod 64 = b - 64 * (b div 64)" by (simp add: minus_div_mult_eq_mod [symmetric])
        ultimately have "b div 64 = i" "b mod 64 < n" using that False by auto
        with lo show ?thesis by (simp add: arr_bit_def)
      qed (use "1.prems" in blast)
      moreover have "arr_bit ws (i * 64 + n)" using bn n64 by (simp add: arr_bit_def)
      moreover have "nat (int (i * 64 + n)) = i * 64 + n" by simp
      ultimately show ?thesis
        using lt False n n64 by (simp add: find_mask_bsf_from.simps [of ws sz i] least_bit_def)
    qed
  qed
qed

lemma find_mask_bsf_least: "least_bit ws sz (find_mask_bsf ws sz)"
  unfolding find_mask_bsf_def by (rule find_mask_bsf_from_least) simp

lemma least_bit_unique: "least_bit ws sz r \<Longrightarrow> least_bit ws sz r' \<Longrightarrow> r = r'"
  unfolding least_bit_def
  by (auto split: if_splits) (metis linorder_neqE_nat nat_eq_iff2)+

lemma find_mask_bsf_eqI:
  "r < 64 * sz \<Longrightarrow> arr_bit ws r \<Longrightarrow> (\<And>b. b < r \<Longrightarrow> \<not> arr_bit ws b) \<Longrightarrow>
     find_mask_bsf ws sz = int r"
  by (rule least_bit_unique [OF find_mask_bsf_least]) (auto simp: least_bit_def)

section \<open>Properties\<close>

text \<open>C37: The macros \<open>BIT_ARRAY_SET\<close>, \<open>BIT_ARRAY_RESET\<close> and \<open>BIT_ARRAY_GET\<close>, which
  work byte by byte on an array of 64-bit words, implement insertion, removal and membership
  on the set of the numbers of the bits that are set, and never change the array's length.\<close>

theorem bit_array_implements_set:
  assumes "b < 64 * length ws"
  shows "{i. BIT_ARRAY_GET (BIT_ARRAY_SET ws b) i} = insert b {i. BIT_ARRAY_GET ws i} \<and>
    {i. BIT_ARRAY_GET (BIT_ARRAY_RESET ws b) i} = {i. BIT_ARRAY_GET ws i} - {b} \<and>
    length (BIT_ARRAY_SET ws b) = length ws \<and> length (BIT_ARRAY_RESET ws b) = length ws"
  using arr_bit_SET [OF assms] arr_bit_RESET [OF assms] by (auto simp: BIT_ARRAY_GET_arr)

theorem bit_array_implements_set_witness:
  "{i. BIT_ARRAY_GET (BIT_ARRAY_SET [5, 0] 70) i} = insert 70 {i. BIT_ARRAY_GET [5, 0] i} \<and>
    BIT_ARRAY_SET [5, 0] 70 = [5, 64]"
proof (rule conjI)
  show "BIT_ARRAY_SET [5, 0] 70 = [5, 64]" by code_simp
qed (use bit_array_implements_set [of 70 "[5, 0]"] in simp)

text \<open>\<open>__find_mask_bsf\<close> returns the number of the lowest bit that is set in the
  array, and -1 exactly when none of the array's bits is set.\<close>

lemma find_mask_bsf_lowest:
  assumes "n \<le> length ws"
  shows "(find_mask_bsf ws n = -1 \<longleftrightarrow> (\<forall>b < 64 * n. \<not> BIT_ARRAY_GET ws b)) \<and>
    (\<forall>r. find_mask_bsf ws n = int r \<longleftrightarrow>
       r < 64 * n \<and> BIT_ARRAY_GET ws r \<and> (\<forall>b < r. \<not> BIT_ARRAY_GET ws b))"
proof -
  have l: "least_bit ws n (find_mask_bsf ws n)" by (rule find_mask_bsf_least)
  then have "find_mask_bsf ws n = -1 \<longleftrightarrow> (\<forall>b < 64 * n. \<not> arr_bit ws b)"
    by (auto simp: least_bit_def split: if_splits)
  moreover have "find_mask_bsf ws n = int r \<longleftrightarrow>
      r < 64 * n \<and> arr_bit ws r \<and> (\<forall>b < r. \<not> arr_bit ws b)" for r
    using l find_mask_bsf_eqI [of r n ws] by (auto simp: least_bit_def)
  ultimately show ?thesis by (simp add: BIT_ARRAY_GET_arr)
qed

lemma find_mask_bsf_lowest_example:
  "find_mask_bsf [0, 0x28] 2 = int 67 \<and> find_mask_bsf [0, 0x28] 1 = -1 \<and> BIT_ARRAY_GET [0, 0x28] 67"
proof -
  have "find_mask_bsf [0, 0x28] 2 = int 67" "find_mask_bsf [0, 0x28] 1 = -1" by code_simp+
  with find_mask_bsf_lowest [of 2 "[0, 0x28]"] show ?thesis by (metis One_nat_def Suc_1 length_Cons list.size(3) order_refl)
qed

lemma INT_BITS_extracts:
  assumes "low \<le> high" "high < 32"
  shows "unat (INT_BITS v low high) = unat v div 2 ^ low mod 2 ^ (high - low + 1)"
proof -
  have "unat (take_bit (high - low + 1) (drop_bit low v)) = unat v div 2 ^ low mod 2 ^ (high - low + 1)"
    by (simp only: unsigned_take_bit_eq unat_drop_bit_eq take_bit_eq_mod [where 'a = nat] drop_bit_eq_div [where 'a = nat])
  then show ?thesis using INT_BITS_mask [OF assms] by (simp add: take_bit_eq_mask)
qed

end
