(* ===== verification/Stamp_Id.thy ===== *)
theory Stamp_Id
  imports Bits
begin

text \<open>
  Stamped identifiers, \<open>stamp_id.h\<close>: a 64-bit identifier packs a 52-bit object address
  and a 12-bit stamp, so that an identifier of an object that was removed and added again is
  recognised as expired. Shared by the scheduler, the driver registry and the AHCI driver.
\<close>

section \<open>The operations\<close>

abbreviation STAMP_ID_STAMP_BITS :: nat where
  "STAMP_ID_STAMP_BITS \<equiv> 12"

type_synonym stamp_id = u64

definition get_stamp_id :: "ptr \<Rightarrow> i32 \<Rightarrow> stamp_id" where
  "get_stamp_id p stamp = p OR push_bit (64 - STAMP_ID_STAMP_BITS) (scast stamp)"

definition get_stamp_id_ptr :: "stamp_id \<Rightarrow> ptr" where
  "get_stamp_id_ptr i = drop_bit STAMP_ID_STAMP_BITS (push_bit STAMP_ID_STAMP_BITS i)"

definition get_stamp_id_stamp :: "stamp_id \<Rightarrow> i32" where
  "get_stamp_id_stamp i = ucast (drop_bit (64 - STAMP_ID_STAMP_BITS) i)"

text \<open>The stamp stored in the object and the new value of the global stamp.\<close>

definition assign_stamp_id_stamp :: "i32 \<Rightarrow> i32 \<times> i32" where
  "assign_stamp_id_stamp global_stamp =
     (global_stamp, c_rem (global_stamp + 1) (push_bit STAMP_ID_STAMP_BITS 1))"

text \<open>
  The macro \<open>WITH_STAMP_ID\<close>: \<open>Inr\<close> of the object's address when the body runs, \<open>Inl\<close> of
  the error it stores in \<open>err\<close> otherwise. The two fields are read through the address the
  identifier holds, whatever it is.
\<close>

definition WITH_STAMP_ID ::
  "(ptr \<Rightarrow> u64) \<Rightarrow> (ptr \<Rightarrow> i32) \<Rightarrow> u64 \<Rightarrow> stamp_id \<Rightarrow> err_code + ptr" where
  "WITH_STAMP_ID magic_of stamp_of magic i =
     (let stamp = get_stamp_id_stamp i; var = get_stamp_id_ptr i in
      if magic_of var \<noteq> magic then Inl ERR_NOT_FOUND
      else if stamp_of var \<noteq> stamp then Inl ERR_EXPIRED
      else Inr var)"

section \<open>Packing and unpacking\<close>

definition ptr_ok :: "ptr \<Rightarrow> bool" where
  "ptr_ok p \<longleftrightarrow> p < 2 ^ 52"

definition stamp_ok :: "i32 \<Rightarrow> bool" where
  "stamp_ok s \<longleftrightarrow> s < 4096"

lemma bit_less_exp:
  fixes w :: "'a::len word"
  assumes "w < 2 ^ k" "bit w n" "k < LENGTH('a)"
  shows "n < k"
proof (rule ccontr)
  assume "\<not> n < k"
  have "take_bit k w = w" using assms by (simp add: less_mask_eq take_bit_eq_mask)
  with assms(2) \<open>\<not> n < k\<close> show False by (metis bit_take_bit_iff)
qed

lemma ptr_ok_bit: "ptr_ok p \<Longrightarrow> bit p n \<Longrightarrow> n < 52"
  unfolding ptr_ok_def using bit_less_exp [of p 52 n] by simp

lemma stamp_ok_bit: "stamp_ok s \<Longrightarrow> bit s n \<Longrightarrow> n < 12"
  unfolding stamp_ok_def using bit_less_exp [of s 12 n] by simp

lemma bit_scast_stamp: "stamp_ok s \<Longrightarrow> bit (scast s :: u64) n \<longleftrightarrow> bit s n"
  using stamp_ok_bit [of s 31] stamp_ok_bit [of s n]
  by (auto simp: bit_signed_iff min_def dest: bit_imp_le_length)

lemma bit_get_stamp_id:
  "stamp_ok s \<Longrightarrow> bit (get_stamp_id p s) n \<longleftrightarrow> bit p n \<or> (52 \<le> n \<and> n < 64 \<and> bit s (n - 52))"
  by (auto simp: get_stamp_id_def bit_or_iff bit_push_bit_iff bit_scast_stamp)

lemma get_stamp_id_ptr_inverse [simp]:
  "ptr_ok p \<Longrightarrow> stamp_ok s \<Longrightarrow> get_stamp_id_ptr (get_stamp_id p s) = p"
  by (rule bit_word_eqI)
    (auto simp: get_stamp_id_ptr_def bit_drop_bit_eq bit_push_bit_iff bit_get_stamp_id
      dest: ptr_ok_bit)

lemma get_stamp_id_stamp_inverse [simp]:
  "ptr_ok p \<Longrightarrow> stamp_ok s \<Longrightarrow> get_stamp_id_stamp (get_stamp_id p s) = s"
  by (rule bit_word_eqI)
    (auto simp: get_stamp_id_stamp_def bit_drop_bit_eq bit_ucast_iff bit_get_stamp_id
      dest: ptr_ok_bit stamp_ok_bit)

lemma get_stamp_id_inject:
  "ptr_ok p \<Longrightarrow> stamp_ok s \<Longrightarrow> ptr_ok q \<Longrightarrow> stamp_ok t \<Longrightarrow>
     get_stamp_id p s = get_stamp_id q t \<longleftrightarrow> p = q \<and> s = t"
  by (metis get_stamp_id_ptr_inverse get_stamp_id_stamp_inverse)

lemma get_stamp_id_pack:
  "get_stamp_id (get_stamp_id_ptr i) (get_stamp_id_stamp i) = i"
proof -
  have ok: "stamp_ok (get_stamp_id_stamp i)"
  proof -
    have "unat (drop_bit 52 i) = unat i div 2 ^ 52" 
      by (simp only: unat_drop_bit_eq drop_bit_eq_div [where 'a = nat])
    moreover have "unat i < 2 ^ 64" using unsigned_less [of i, where ?'a = nat] by simp
    ultimately have "unat (drop_bit 52 i) < 4096" by (simp add: less_mult_imp_div_less)
    then show ?thesis
      by (simp add: stamp_ok_def get_stamp_id_stamp_def word_less_nat_alt unsigned_ucast_eq take_bit_nat_eq_self)
  qed
  show ?thesis
    by (rule bit_word_eqI)
      (simp only: bit_get_stamp_id [OF ok],
        auto simp: get_stamp_id_ptr_def get_stamp_id_stamp_def
        bit_drop_bit_eq bit_push_bit_iff bit_ucast_iff not_less)
qed

section \<open>Stamps in use\<close>

lemma assign_stamp_next:
  assumes "stamp_ok g"
  shows "unat (snd (assign_stamp_id_stamp g)) = (unat g + 1) mod 4096"
proof -
  define n where "n = unat g"
  have n: "n < 4096" "g + 1 = word_of_nat (Suc n)"
    using assms by (simp_all add: n_def stamp_ok_def word_less_nat_alt)
  have s: "sint (g + 1) = int (Suc n)"
    unfolding n(2) by (rule sint_of_nat) (use n(1) in simp)
  have "sint (c_rem (g + 1) 4096) = int (Suc n) mod 4096"
    using c_rem_nonneg [of "g + 1" 4096] s by simp
  then have "c_rem (g + 1) 4096 = word_of_int (int (Suc n) mod 4096)"
    by (metis of_int_sint scast_id)
  also have "\<dots> = word_of_nat (Suc n mod 4096)"
    by (metis of_int_of_nat_eq of_nat_numeral zmod_int)
  finally have "snd (assign_stamp_id_stamp g) = word_of_nat (Suc n mod 4096)"
    by (simp add: assign_stamp_id_stamp_def push_bit_eq_mult)
  then show ?thesis by (simp add: n_def unat_of_nat)
qed

lemma assign_stamp_fst [simp]: "fst (assign_stamp_id_stamp g) = g"
  by (simp add: assign_stamp_id_stamp_def)

lemma assign_stamp_ok: "stamp_ok g \<Longrightarrow> stamp_ok (snd (assign_stamp_id_stamp g))"
  by (simp add: stamp_ok_def word_less_nat_alt assign_stamp_next [unfolded stamp_ok_def])

text \<open>The \<open>n\<close>-th stamp handed out, counting from the initial global stamp 0.\<close>

primrec nth_stamp :: "nat \<Rightarrow> i32" where
  "nth_stamp 0 = 0"
| "nth_stamp (Suc n) = snd (assign_stamp_id_stamp (nth_stamp n))"

lemma nth_stamp_ok: "stamp_ok (nth_stamp n)"
  by (induction n) (simp_all add: assign_stamp_ok, simp add: stamp_ok_def)

lemma unat_nth_stamp: "unat (nth_stamp n) = n mod 4096"
  by (induction n) (simp_all add: assign_stamp_next [OF nth_stamp_ok] mod_Suc_eq)

lemma WITH_STAMP_ID_Inr:
  "WITH_STAMP_ID mg st m i = Inr p \<longleftrightarrow>
     p = get_stamp_id_ptr i \<and> mg p = m \<and> st p = get_stamp_id_stamp i"
  by (auto simp: WITH_STAMP_ID_def Let_def)

lemma WITH_STAMP_ID_Inl:
  "WITH_STAMP_ID mg st m i = Inl e \<longleftrightarrow>
     (mg (get_stamp_id_ptr i) \<noteq> m \<and> e = ERR_NOT_FOUND) \<or>
     (mg (get_stamp_id_ptr i) = m \<and> st (get_stamp_id_ptr i) \<noteq> get_stamp_id_stamp i \<and>
      e = ERR_EXPIRED)"
  by (auto simp: WITH_STAMP_ID_def Let_def)

section \<open>Properties\<close>

text \<open>Packing an address of at most 52 bits and a stamp below 4096 into an identifier
  and unpacking it gives both back, and every 64-bit identifier is the packing of its parts.\<close>

lemma stamp_id_roundtrip:
  assumes "p < 2 ^ 52" "s < 4096"
  shows "get_stamp_id_ptr (get_stamp_id p s) = p \<and> get_stamp_id_stamp (get_stamp_id p s) = s \<and>
    (\<forall>i. get_stamp_id (get_stamp_id_ptr i) (get_stamp_id_stamp i) = i)"
  using assms get_stamp_id_pack get_stamp_id_ptr_inverse [unfolded ptr_ok_def stamp_ok_def]
    get_stamp_id_stamp_inverse [unfolded ptr_ok_def stamp_ok_def] by blast

lemma stamp_id_roundtrip_example:
  "get_stamp_id_ptr (get_stamp_id 0x200040 7) = 0x200040 \<and> get_stamp_id 0x200040 7 = 0x0070000000200040"
proof (rule conjI)
  show "get_stamp_id 0x200040 7 = 0x0070000000200040" by code_simp
qed (use stamp_id_roundtrip [of "0x200040" "7"] in simp)

text \<open>The stamps handed out by \<open>assign_stamp_id_stamp\<close>, starting from a zero global
  stamp, make identifiers of the same object from different registrations differ, until 4096
  registrations later the stamp repeats.\<close>

lemma stamp_ids_distinct_within_4096:
  assumes "p < 2 ^ 52"
  shows "get_stamp_id p (nth_stamp m) = get_stamp_id p (nth_stamp n) \<longleftrightarrow> m mod 4096 = n mod 4096"
proof -
  have "get_stamp_id p (nth_stamp m) = get_stamp_id p (nth_stamp n) \<longleftrightarrow> nth_stamp m = nth_stamp n"
    using assms get_stamp_id_inject nth_stamp_ok by (metis ptr_ok_def)
  also have "\<dots> \<longleftrightarrow> unat (nth_stamp m) = unat (nth_stamp n)" by (auto dest: word_unat_eq_iff [THEN iffD2])
  finally show ?thesis by (simp add: unat_nth_stamp)
qed

lemma stamp_ids_distinct_within_4096_example:
  "get_stamp_id 64 (nth_stamp 1) \<noteq> get_stamp_id 64 (nth_stamp 4096) \<and>
   get_stamp_id 64 (nth_stamp 1) = get_stamp_id 64 (nth_stamp 4097)"
  using stamp_ids_distinct_within_4096 [of 64 1 4096] stamp_ids_distinct_within_4096 [of 64 1 4097]
  by simp

end
