(* ===== verification/Linked.thy ===== *)
theory Linked
  imports Prelude
begin

text \<open>
  Doubly linked lists threaded through the fields of heap objects. The scheduler keeps its
  threads on such lists (\<open>prev\<close>/\<open>next\<close> for the run queues and the inactive list,
  \<open>all_prev\<close>/\<open>all_next\<close> for the list of all threads) and the driver registry its
  drivers. The lists are entered through a pointer the code calls \<open>tail\<close>, from which
  \<open>next\<close> leads to the older entries.

  The locale at the end states what the two link fields of a heap must satisfy; every list
  lemma is proved once inside it and reaches a component by interpretation.
\<close>

section \<open>List segments\<close>

fun dseg :: "(ptr \<Rightarrow> ptr) \<Rightarrow> (ptr \<Rightarrow> ptr) \<Rightarrow> ptr \<Rightarrow> ptr list \<Rightarrow> ptr \<Rightarrow> bool" where
  "dseg n p b [] e \<longleftrightarrow> True"
| "dseg n p b (x # xs) e \<longleftrightarrow>
     x \<noteq> NULL \<and> p x = b \<and> n x = hd (xs @ [e]) \<and> dseg n p x xs e"

definition dlist :: "(ptr \<Rightarrow> ptr) \<Rightarrow> (ptr \<Rightarrow> ptr) \<Rightarrow> ptr \<Rightarrow> ptr list \<Rightarrow> bool" where
  "dlist n p t xs \<longleftrightarrow> t = hd (xs @ [NULL]) \<and> distinct xs \<and> dseg n p NULL xs NULL"

lemma dseg_append [simp]:
  "dseg n p b (xs @ ys) e \<longleftrightarrow> dseg n p b xs (hd (ys @ [e])) \<and> dseg n p (last (b # xs)) ys e"
proof (induction xs arbitrary: b)
  case (Cons x xs)
  then show ?case by (cases xs) auto
qed simp

lemma dseg_cong:
  assumes "\<And>a. a \<in> set xs \<Longrightarrow> n a = n' a" "\<And>a. a \<in> set xs \<Longrightarrow> p a = p' a"
  shows "dseg n p b xs e \<longleftrightarrow> dseg n' p' b xs e"
  using assms by (induction xs arbitrary: b) auto

lemma dlist_cong:
  assumes "\<And>a. a \<in> set xs \<Longrightarrow> n a = n' a" "\<And>a. a \<in> set xs \<Longrightarrow> p a = p' a"
  shows "dlist n p t xs \<longleftrightarrow> dlist n' p' t xs"
  unfolding dlist_def using dseg_cong [OF assms] by auto

lemma dseg_nonnull: "dseg n p b xs e \<Longrightarrow> NULL \<notin> set xs"
  by (induction xs arbitrary: b) auto

lemma dlist_nonnull: "dlist n p t xs \<Longrightarrow> a \<in> set xs \<Longrightarrow> a \<noteq> NULL"
  unfolding dlist_def using dseg_nonnull by blast

lemma dlist_Nil [simp]: "dlist n p t [] \<longleftrightarrow> t = NULL"
  by (simp add: dlist_def)

lemma dlist_NULL: "dlist n p NULL xs \<Longrightarrow> xs = []"
  by (cases xs) (auto simp: dlist_def)

lemma dlist_tail: "dlist n p t (x # xs) \<Longrightarrow> t = x"
  by (simp add: dlist_def)

lemma dlist_tail_iff: "dlist n p t xs \<Longrightarrow> t = NULL \<longleftrightarrow> xs = []"
  by (cases xs) (auto simp: dlist_def)

lemma dlist_distinct: "dlist n p t xs \<Longrightarrow> distinct xs"
  by (simp add: dlist_def)

lemma dlist_unique:
  assumes "dlist n p t xs" "dlist n p t ys"
  shows "xs = ys"
proof -
  have "dseg n p b xs NULL \<Longrightarrow> dseg n p b ys NULL \<Longrightarrow> hd (xs @ [NULL]) = hd (ys @ [NULL]) \<Longrightarrow> xs = ys"
    for b xs ys
  proof (induction xs arbitrary: b ys)
    case Nil
    then show ?case by (cases ys) auto
  next
    case (Cons x xs)
    then obtain ys' where ys: "ys = x # ys'" by (cases ys) auto
    with Cons.prems show ?case using Cons.IH [of x ys'] by simp
  qed
  with assms show ?thesis unfolding dlist_def by metis
qed

text \<open>The neighbours of a member, read off its link fields.\<close>

lemma dlist_split:
  assumes "dlist n p t (ys @ x # zs)"
  shows "p x = last (NULL # ys)" "n x = hd (zs @ [NULL])"
  using assms by (auto simp: dlist_def)

lemma dlist_first: "dlist n p t xs \<Longrightarrow> x \<in> set xs \<Longrightarrow> p x = NULL \<longleftrightarrow> t = x"
proof -
  assume d: "dlist n p t xs" and "x \<in> set xs"
  then obtain ys zs where xs: "xs = ys @ x # zs" by (meson split_list)
  have px: "p x = last (NULL # ys)" using d xs dlist_split by blast
  show ?thesis
  proof (cases ys rule: rev_cases)
    case Nil
    with d px xs show ?thesis by (simp add: dlist_def)
  next
    case (snoc ys' y)
    have "y \<noteq> NULL" using d xs snoc dlist_nonnull by fastforce
    moreover have "t \<noteq> x" using d xs snoc by (cases ys') (auto simp: dlist_def)
    ultimately show ?thesis using px snoc by simp
  qed
qed

lemma dlist_behead:
  assumes "dlist n p t (x # y # ys)"
    and "\<And>a. a \<in> set (y # ys) \<Longrightarrow> n' a = n a" "\<And>a. a \<in> set ys \<Longrightarrow> p' a = p a" "p' y = NULL"
  shows "dlist n' p' y (y # ys)"
proof -
  have "dseg n' p' y ys NULL"
    using assms by (subst dseg_cong [where n' = n and p' = p]) (auto simp: dlist_def)
  with assms show ?thesis by (simp add: dlist_def)
qed

section \<open>The code's list manipulations, on two link fields\<close>

text \<open>
  \<open>link_front\<close>: \<open>x->next = tail; if (tail) tail->prev = x\<close>.
  \<open>unlink_node\<close>: \<open>if (x->next) x->next->prev = x->prev; if (x->prev) x->prev->next = x->next\<close>.
  \<open>link_rear\<close>: \<open>head->next = x; x->prev = head\<close>.
\<close>

definition link_front ::
  "(ptr \<Rightarrow> ptr \<Rightarrow> 'h \<Rightarrow> 'h) \<Rightarrow> (ptr \<Rightarrow> ptr \<Rightarrow> 'h \<Rightarrow> 'h) \<Rightarrow> ptr \<Rightarrow> ptr \<Rightarrow> 'h \<Rightarrow> 'h" where
  "link_front set_nx set_pv t x h =
     (let h1 = set_nx x t h in if t \<noteq> NULL then set_pv t x h1 else h1)"

definition unlink_node ::
  "('h \<Rightarrow> ptr \<Rightarrow> ptr) \<Rightarrow> ('h \<Rightarrow> ptr \<Rightarrow> ptr) \<Rightarrow> (ptr \<Rightarrow> ptr \<Rightarrow> 'h \<Rightarrow> 'h) \<Rightarrow>
   (ptr \<Rightarrow> ptr \<Rightarrow> 'h \<Rightarrow> 'h) \<Rightarrow> ptr \<Rightarrow> 'h \<Rightarrow> 'h" where
  "unlink_node nx pv set_nx set_pv x h =
     (let h1 = (if nx h x \<noteq> NULL then set_pv (nx h x) (pv h x) h else h) in
      if pv h1 x \<noteq> NULL then set_nx (pv h1 x) (nx h1 x) h1 else h1)"

definition link_rear ::
  "(ptr \<Rightarrow> ptr \<Rightarrow> 'h \<Rightarrow> 'h) \<Rightarrow> (ptr \<Rightarrow> ptr \<Rightarrow> 'h \<Rightarrow> 'h) \<Rightarrow> ptr \<Rightarrow> ptr \<Rightarrow> 'h \<Rightarrow> 'h" where
  "link_rear set_nx set_pv e x h = set_pv x e (set_nx e x h)"

section \<open>The interface and its lemmas\<close>

locale link_fields =
  fixes nx pv :: "'h \<Rightarrow> ptr \<Rightarrow> ptr"
    and set_nx set_pv :: "ptr \<Rightarrow> ptr \<Rightarrow> 'h \<Rightarrow> 'h"
  assumes nx_set_nx: "nx (set_nx a v h) = (nx h)(a := v)"
    and pv_set_pv: "pv (set_pv a v h) = (pv h)(a := v)"
    and nx_set_pv: "nx (set_pv a v h) = nx h"
    and pv_set_nx: "pv (set_nx a v h) = pv h"
begin

lemmas field_laws = nx_set_nx pv_set_pv nx_set_pv pv_set_nx

lemma front_fields:
  "nx (link_front set_nx set_pv t x h) = (nx h)(x := t)"
  "pv (link_front set_nx set_pv t x h) = (if t \<noteq> NULL then (pv h)(t := x) else pv h)"
  by (simp_all add: link_front_def Let_def field_laws)

lemma rear_fields:
  "nx (link_rear set_nx set_pv e x h) = (nx h)(e := x)"
  "pv (link_rear set_nx set_pv e x h) = (pv h)(x := e)"
  by (simp_all add: link_rear_def field_laws)

text \<open>Adding an entry in front of the list.\<close>

lemma front_dlist:
  assumes d: "dlist (nx h) (pv h) t xs" and x: "x \<noteq> NULL" "x \<notin> set xs" "pv h x = NULL"
  shows "dlist (nx (link_front set_nx set_pv t x h)) (pv (link_front set_nx set_pv t x h)) x (x # xs)"
proof (cases xs)
  case Nil
  with d x show ?thesis by (simp add: dlist_def front_fields)
next
  case (Cons y ys)
  with d have t: "t = y" "y \<noteq> NULL" "y \<notin> set ys" "dseg (nx h) (pv h) y ys NULL"
      "nx h y = hd (ys @ [NULL])" "distinct ys"
    by (auto simp: dlist_def)
  have "dseg ((nx h)(x := t)) ((pv h)(t := x)) y ys NULL"
    using t x Cons by (subst dseg_cong [where n' = "nx h" and p' = "pv h"]) auto
  with t x Cons show ?thesis by (auto simp: dlist_def front_fields)
qed

text \<open>Taking an entry out of the list.\<close>

lemma unlink_fields:
  assumes d: "dlist (nx h) (pv h) t (ys @ x # zs)"
  defines "h' \<equiv> unlink_node nx pv set_nx set_pv x h"
  shows "nx h' = (if ys = [] then nx h else (nx h)(last ys := hd (zs @ [NULL])))"
    and "pv h' = (if zs = [] then pv h else (pv h)(hd zs := last (NULL # ys)))"
proof -
  have px: "pv h x = last (NULL # ys)" and nx: "nx h x = hd (zs @ [NULL])"
    using dlist_split [OF d] by auto
  have z0: "zs \<noteq> [] \<Longrightarrow> hd zs \<noteq> NULL \<and> hd zs \<noteq> x"
    using d dlist_nonnull [OF d, of "hd zs"] by (cases zs) (auto simp: dlist_def)
  have y0: "ys \<noteq> [] \<Longrightarrow> last ys \<noteq> NULL"
    using dlist_nonnull [OF d, of "last ys"] by simp
  define h1 where "h1 = (if nx h x \<noteq> NULL then set_pv (nx h x) (pv h x) h else h)"
  have h1: "nx h1 = nx h" "pv h1 = (if zs = [] then pv h else (pv h)(hd zs := last (NULL # ys)))"
    using z0 by (cases zs; simp add: h1_def field_laws nx px)+
  have px1: "pv h1 x = last (NULL # ys)" using h1 px z0 by auto
  have h': "h' = (if pv h1 x \<noteq> NULL then set_nx (pv h1 x) (nx h1 x) h1 else h1)"
    by (simp add: h'_def unlink_node_def Let_def h1_def)
  show "nx h' = (if ys = [] then nx h else (nx h)(last ys := hd (zs @ [NULL])))"
    using y0 by (simp add: h' px1 h1(1) nx field_laws)
  show "pv h' = (if zs = [] then pv h else (pv h)(hd zs := last (NULL # ys)))"
    using h1(2) by (simp add: h' field_laws)
qed

lemma unlink_dlist:
  assumes d: "dlist (nx h) (pv h) t xs" and x: "x \<in> set xs"
  defines "h' \<equiv> unlink_node nx pv set_nx set_pv x h"
  shows "dlist (nx h') (pv h') (if t = x then nx h' x else t) (remove1 x xs)"
    and "nx h' x = nx h x" and "pv h' x = pv h x"
    and "a \<notin> set xs - {x} \<Longrightarrow> nx h' a = nx h a"
    and "a \<notin> set xs - {x} \<Longrightarrow> pv h' a = pv h a"
proof -
  obtain ys zs where xs: "xs = ys @ x # zs" using x by (meson split_list)
  have dist: "distinct (ys @ x # zs)" using d xs by (simp add: dlist_def)
  note f = unlink_fields [OF d [unfolded xs], folded h'_def]
  have nx': "nx h x = hd (zs @ [NULL])" using dlist_split [OF d [unfolded xs]] by simp
  show keep: "nx h' x = nx h x" "pv h' x = pv h x"
    using dist by (auto simp: f)
  show "nx h' a = nx h a" "pv h' a = pv h a" if "a \<notin> set xs - {x}"
    using that dist by (cases zs; auto simp: f xs)+
  have seg: "dseg (nx h) (pv h) NULL ys x" "dseg (nx h) (pv h) x zs NULL"
    using d xs by (auto simp: dlist_def)
  have yseg: "dseg (nx h') (pv h') NULL ys (hd (zs @ [NULL]))"
  proof (cases ys rule: rev_cases)
    case (snoc us u)
    have "dseg (nx h') (pv h') NULL us u"
      using seg(1) snoc dist by (subst dseg_cong [where n' = "nx h" and p' = "pv h"])
        (cases zs; auto simp: f)+
    moreover have "pv h' u = pv h u" using dist snoc by (cases zs) (auto simp: f)
    ultimately show ?thesis using seg(1) snoc by (simp add: f(1))
  qed simp
  have zseg: "dseg (nx h') (pv h') (last (NULL # ys)) zs NULL"
  proof (cases zs)
    case (Cons v vs)
    have "ys \<noteq> [] \<Longrightarrow> last ys \<notin> set vs"
      using dist Cons last_in_set [of ys] by (auto simp del: last_in_set)
    then have "dseg (nx h') (pv h') v vs NULL"
      using seg(2) Cons dist by (subst dseg_cong [where n' = "nx h" and p' = "pv h"])
        (auto simp: f)
    moreover have "nx h' v = nx h v" using dist Cons by (auto simp: f)
    ultimately show ?thesis using seg(2) Cons by (simp add: f(2))
  qed simp
  have rem: "remove1 x xs = ys @ zs" using dist xs by (simp add: remove1_append)
  have "(if t = x then nx h' x else t) = hd ((ys @ zs) @ [NULL])"
  proof (cases ys)
    case Nil
    with d xs keep nx' show ?thesis by (simp add: dlist_def)
  next
    case (Cons y ys')
    with d xs dist show ?thesis by (auto simp: dlist_def)
  qed
  with yseg zseg dist rem show "dlist (nx h') (pv h') (if t = x then nx h' x else t) (remove1 x xs)"
    by (auto simp: dlist_def)
qed

text \<open>Appending an entry behind the last one, and dropping the first one.\<close>

lemma rear_dlist:
  assumes d: "dlist (nx h) (pv h) t xs" and ne: "xs \<noteq> []"
    and x: "x \<noteq> NULL" "x \<notin> set xs" "nx h x = NULL"
  shows "dlist (nx (link_rear set_nx set_pv (last xs) x h)) (pv (link_rear set_nx set_pv (last xs) x h)) t (xs @ [x])"
proof -
  obtain ys y where xs: "xs = ys @ [y]" using ne by (cases xs rule: rev_cases) auto
  have seg: "dseg (nx h) (pv h) NULL ys y" and y: "y \<noteq> NULL" "pv h y = last (NULL # ys)"
    and dist: "distinct xs" and t: "t = hd (xs @ [NULL])"
    using d xs by (auto simp: dlist_def)
  have "dseg ((nx h)(y := x)) ((pv h)(x := y)) NULL ys y"
    using seg dist x xs by (subst dseg_cong [where n' = "nx h" and p' = "pv h"]) auto
  with y x dist t xs show ?thesis by (auto simp: dlist_def rear_fields)
qed

lemma drop_first_dlist:
  assumes d: "dlist (nx h) (pv h) t (x # xs)"
  shows "dlist (nx (if nx h x \<noteq> NULL then set_pv (nx h x) NULL h else h))
               (pv (if nx h x \<noteq> NULL then set_pv (nx h x) NULL h else h)) (nx h x) xs"
proof (cases xs)
  case Nil
  with d show ?thesis by (simp add: dlist_def)
next
  case (Cons y ys)
  then have "dseg (nx h) ((pv h)(y := NULL)) y ys NULL"
    using d by (subst dseg_cong [where n' = "nx h" and p' = "pv h"]) (auto simp: dlist_def)
  with d Cons show ?thesis by (auto simp: dlist_def field_laws)
qed

end

end
