(* ===== verification/Spinlock.thy ===== *)
theory Spinlock
  imports Prelude
begin

text \<open>
  Spinlocks, \<open>x86_64/sync.inc\<close>, with the per-CPU pointer \<open>__outer_spinlocks\<close>
  of \<open>sync.c\<close> and the interrupt flag they switch. Every operation is modelled from the
  view of one CPU; the last section interleaves the CPUs that contend for one lock.
\<close>

section \<open>State\<close>

text \<open>
  Pointers to spinlocks: the null pointer, the marker \<open>(struct spinlock*)1\<close>, and the
  program's lock objects (a CPU's, a sleep queue's, the two of a mutex at an address).
\<close>

datatype lock_ref =
    Lock_null
  | Lock_one
  | Lock_all
  | Lock_inactive
  | Lock_cpu nat
  | Lock_mem
  | Lock_vga
  | Lock_sleep nat
  | Lock_mlock ptr
  | Lock_ilock ptr

text \<open>
  \<open>hw_spun\<close> is no variable of the program. It counts the calls with \<open>tries\<close> 0 that ended
  without the lock, after all \<open>2 ^ 64\<close> attempts (\<open>sync.h\<close>: "practically forever"); their
  callers go on as if they had it. That an operation spins on no lock for ever is that it
  leaves this number as it is.
\<close>

record hw =
  hw_busy :: "lock_ref \<Rightarrow> u8"        \<comment> \<open>\<open>struct spinlock.busy\<close>\<close>
  hw_outer :: "nat \<Rightarrow> lock_ref"     \<comment> \<open>\<open>__outer_spinlocks[]\<close>\<close>
  hw_if :: "nat \<Rightarrow> bool"           \<comment> \<open>interrupt flag of each CPU\<close>
  hw_spun :: nat                   \<comment> \<open>hopeless attempts so far\<close>

section \<open>Operations\<close>

definition create_spinlock :: "lock_ref \<Rightarrow> 'z hw_scheme \<Rightarrow> 'z hw_scheme" where
  "create_spinlock l s = s\<lparr>hw_busy := (hw_busy s)(l := 0)\<rparr>"

text \<open>\<open>mov $1, %al; xchgb %al, busy\<close>: the old value, and the lock marked busy.\<close>

definition xchg_busy :: "lock_ref \<Rightarrow> 'z hw_scheme \<Rightarrow> u8 \<times> 'z hw_scheme" where
  "xchg_busy l s = (hw_busy s l, s\<lparr>hw_busy := (hw_busy s)(l := 1)\<rparr>)"

function acquire_spinlock_int :: "lock_ref \<Rightarrow> u64 \<Rightarrow> 'z hw_scheme \<Rightarrow> bool \<times> 'z hw_scheme" where
  "acquire_spinlock_int l tries s =
     (let (al, s1) = xchg_busy l s in
      if al \<noteq> 0 \<and> tries - 1 \<noteq> 0 then acquire_spinlock_int l (tries - 1) s1 else (al = 0, s1))"
  by pat_completeness auto
termination
proof (relation "measure (\<lambda>(l, tries, s). unat (tries - 1))", goal_cases)
  case (2 l tries s x al s1)
  then have "unat (tries - 1 - 1) < unat (tries - 1)"
    using unat_minus_one [of "tries - 1"] unat_gt_0 [of "tries - 1"] by simp
  then show ?case by simp
qed simp

declare acquire_spinlock_int.simps [simp del]

definition release_spinlock_int :: "lock_ref \<Rightarrow> 'z hw_scheme \<Rightarrow> 'z hw_scheme" where
  "release_spinlock_int l s = s\<lparr>hw_busy := (hw_busy s)(l := 0)\<rparr>"

definition cli :: "nat \<Rightarrow> 'z hw_scheme \<Rightarrow> 'z hw_scheme" where
  "cli c s = s\<lparr>hw_if := (hw_if s)(c := False)\<rparr>"

definition sti :: "nat \<Rightarrow> 'z hw_scheme \<Rightarrow> 'z hw_scheme" where
  "sti c s = s\<lparr>hw_if := (hw_if s)(c := True)\<rparr>"

definition set_outer :: "nat \<Rightarrow> lock_ref \<Rightarrow> 'z hw_scheme \<Rightarrow> 'z hw_scheme" where
  "set_outer c l s = s\<lparr>hw_outer := (hw_outer s)(c := l)\<rparr>"

text \<open>\<open>lock; cmpxchgq\<close>: the old contents, and the new ones when the old equal \<open>old\<close>.\<close>

definition cmpxchgq :: "'v \<Rightarrow> 'v \<Rightarrow> 'v \<Rightarrow> 'v \<times> 'v" where
  "cmpxchgq contents old new = (contents, if contents = old then new else contents)"

definition acquire_spinlock :: "nat \<Rightarrow> lock_ref \<Rightarrow> u64 \<Rightarrow> 'z hw_scheme \<Rightarrow> bool \<times> 'z hw_scheme" where
  "acquire_spinlock c l tries s =
     (let (ret, outer) = cmpxchgq (hw_outer s c) Lock_null l;
          s1 = set_outer c outer s;
          s2 = (if ret = Lock_null then cli c s1 else s1);
          (acquired, s3) = acquire_spinlock_int l tries s2;
          s4 = (if \<not> acquired \<and> tries = 0 then s3\<lparr>hw_spun := Suc (hw_spun s3)\<rparr> else s3) in
      if \<not> acquired \<and> hw_outer s4 c = l then (acquired, sti c (set_outer c Lock_null s4))
      else (acquired, s4))"

definition release_spinlock :: "nat \<Rightarrow> lock_ref \<Rightarrow> 'z hw_scheme \<Rightarrow> 'z hw_scheme" where
  "release_spinlock c l s =
     (let s1 = release_spinlock_int l s in
      if hw_outer s1 c = l then sti c (set_outer c Lock_null s1) else s1)"

definition set_outer_spinlock :: "nat \<Rightarrow> bool \<Rightarrow> 'z hw_scheme \<Rightarrow> 'z hw_scheme" where
  "set_outer_spinlock c exists s = set_outer c (if exists then Lock_one else Lock_null) s"

section \<open>What an uncontended CPU sees\<close>

text \<open>
  While no other CPU touches the lock, spinning changes nothing: the call succeeds exactly
  when the lock is free, whatever the number of tries (0 wraps to the largest count).
\<close>

lemma acquire_spinlock_int_eq:
  "acquire_spinlock_int l tries s = (hw_busy s l = 0, s\<lparr>hw_busy := (hw_busy s)(l := 1)\<rparr>)"
proof (induction l tries s rule: acquire_spinlock_int.induct)
  case (1 l tries s)
  show ?case
  proof (cases "hw_busy s l \<noteq> 0 \<and> tries - 1 \<noteq> 0")
    case True
    then have "acquire_spinlock_int l (tries - 1) (s\<lparr>hw_busy := (hw_busy s)(l := 1)\<rparr>) =
        (False, s\<lparr>hw_busy := (hw_busy s)(l := 1)\<rparr>)"
      using "1.IH" by (simp add: xchg_busy_def fun_upd_def cong: if_cong)
    with True show ?thesis
      by (subst acquire_spinlock_int.simps) (simp add: xchg_busy_def)
  next
    case False
    then show ?thesis by (subst acquire_spinlock_int.simps) (auto simp: xchg_busy_def)
  qed
qed

text \<open>A lock that is busy is never obtained: with \<open>tries\<close> 0 the call counts as hopeless.\<close>

lemma acquire_spinlock_busy:
  "hw_busy s l \<noteq> 0 \<Longrightarrow> \<not> fst (acquire_spinlock c l tries s) \<and>
     hw_spun (snd (acquire_spinlock c l tries s)) = hw_spun s + (if tries = 0 then 1 else 0)"
  by (auto simp: acquire_spinlock_def cmpxchgq_def acquire_spinlock_int_eq set_outer_def cli_def sti_def Let_def)

text \<open>The three fields written at once: the normal form of every lock operation.\<close>

definition hw_put ::
  "(lock_ref \<Rightarrow> u8) \<Rightarrow> (nat \<Rightarrow> lock_ref) \<Rightarrow> (nat \<Rightarrow> bool) \<Rightarrow> 'z hw_scheme \<Rightarrow> 'z hw_scheme" where
  "hw_put b r i s = s\<lparr>hw_busy := b, hw_outer := r, hw_if := i\<rparr>"

lemma hw_put_simps [simp]:
  "hw_busy (hw_put b r i s) = b" "hw_outer (hw_put b r i s) = r" "hw_if (hw_put b r i s) = i"
  "hw_put b r i (hw_put b' r' i' s) = hw_put b r i s"
  "hw_put (hw_busy s) (hw_outer s) (hw_if s) s = s"
  by (simp_all add: hw_put_def)

lemma hw_put_cong: "b = b' \<Longrightarrow> r = r' \<Longrightarrow> i = i' \<Longrightarrow> hw_put b r i s = hw_put b' r' i' s"
  by simp

text \<open>Taking a free lock, and giving it back.\<close>

lemma acquire_spinlock_free:
  assumes "hw_busy s l = 0"
  shows "acquire_spinlock c l tries s =
    (True, hw_put ((hw_busy s)(l := 1))
       ((hw_outer s)(c := (if hw_outer s c = Lock_null then l else hw_outer s c)))
       ((hw_if s)(c := (hw_outer s c \<noteq> Lock_null \<and> hw_if s c))) s)"
  using assms
  by (auto simp: acquire_spinlock_def cmpxchgq_def acquire_spinlock_int_eq set_outer_def cli_def
      Let_def hw_put_def)

lemma release_spinlock_eq:
  "release_spinlock c l s =
     hw_put ((hw_busy s)(l := 0))
       ((hw_outer s)(c := (if hw_outer s c = l then Lock_null else hw_outer s c)))
       ((hw_if s)(c := (hw_outer s c = l \<or> hw_if s c))) s"
  by (auto simp: release_spinlock_def release_spinlock_int_def sti_def set_outer_def Let_def
      hw_put_def)

section \<open>Nested critical sections\<close>

fun acquire_list :: "nat \<Rightarrow> lock_ref list \<Rightarrow> 'z hw_scheme \<Rightarrow> 'z hw_scheme" where
  "acquire_list c [] s = s"
| "acquire_list c (l # ls) s = acquire_list c ls (snd (acquire_spinlock c l 0 s))"

fun release_list :: "nat \<Rightarrow> lock_ref list \<Rightarrow> 'z hw_scheme \<Rightarrow> 'z hw_scheme" where
  "release_list c [] s = s"
| "release_list c (l # ls) s = release_spinlock c l (release_list c ls s)"

lemma acquire_list_eq:
  assumes "distinct ls" "\<forall>l\<in>set ls. hw_busy s l = 0" "Lock_null \<notin> set ls"
  shows "acquire_list c ls s =
    hw_put (\<lambda>l. if l \<in> set ls then 1 else hw_busy s l)
      ((hw_outer s)(c := (if hw_outer s c = Lock_null \<and> ls \<noteq> [] then hd ls else hw_outer s c)))
      ((hw_if s)(c := ((ls \<noteq> [] \<longrightarrow> hw_outer s c \<noteq> Lock_null) \<and> hw_if s c))) s"
  using assms
proof (induction ls arbitrary: s)
  case (Cons l ls)
  have b: "hw_busy s l = 0" using Cons.prems by simp
  define s1 where "s1 = snd (acquire_spinlock c l 0 s)"
  have s1: "s1 = hw_put ((hw_busy s)(l := 1))
       ((hw_outer s)(c := (if hw_outer s c = Lock_null then l else hw_outer s c)))
       ((hw_if s)(c := (hw_outer s c \<noteq> Lock_null \<and> hw_if s c))) s"
    by (simp add: s1_def acquire_spinlock_free [OF b])
  have "\<forall>k\<in>set ls. hw_busy s1 k = 0"
    using Cons.prems by (auto simp: s1)
  with Cons show ?case
    by (simp add: s1_def [symmetric]) (auto simp: s1 intro!: hw_put_cong)
qed simp

lemma release_list_eq:
  assumes "distinct ls" "Lock_null \<notin> set ls"
  shows "release_list c ls s =
    hw_put (\<lambda>l. if l \<in> set ls then 0 else hw_busy s l)
      ((hw_outer s)(c := (if hw_outer s c \<in> set ls then Lock_null else hw_outer s c)))
      ((hw_if s)(c := (hw_outer s c \<in> set ls \<or> hw_if s c))) s"
  using assms
proof (induction ls)
  case (Cons l ls)
  then show ?case by (auto simp: release_spinlock_eq intro!: hw_put_cong)
qed simp

text \<open>
  Locks taken in any order and given back in the opposite order: interrupts are off on this
  CPU from the first acquisition to the last release, and the lock state ends as it began.
\<close>

lemma acquire_release_list:
  assumes "distinct ls" "\<forall>l\<in>set ls. hw_busy s l = 0" "Lock_null \<notin> set ls"
    and "hw_outer s c = Lock_null \<longrightarrow> hw_if s c" "hw_outer s c \<notin> set ls"
  shows "release_list c ls (acquire_list c ls s) = s"
proof -
  let ?a = "acquire_list c ls s"
  have "(\<lambda>l. if l \<in> set ls then 0 else hw_busy ?a l) = hw_busy s"
    using assms(2) by (auto simp: acquire_list_eq [OF assms(1-3)])
  moreover have "(hw_outer ?a)(c := (if hw_outer ?a c \<in> set ls then Lock_null else hw_outer ?a c)) = hw_outer s"
    using assms(3,5) by (auto simp: acquire_list_eq [OF assms(1-3)])
  moreover have "(hw_if ?a)(c := (hw_outer ?a c \<in> set ls \<or> hw_if ?a c)) = hw_if s"
    using assms(4,5) by (intro ext) (auto simp: acquire_list_eq [OF assms(1-3)])
  ultimately have "release_list c ls ?a = hw_put (hw_busy s) (hw_outer s) (hw_if s) ?a"
    unfolding release_list_eq [OF assms(1,3)] by (intro hw_put_cong)
  then show ?thesis by (simp add: acquire_list_eq [OF assms(1-3)])
qed

section \<open>Several CPUs\<close>

text \<open>
  One lock \<open>l\<close> and the CPUs that contend for it. Each is outside, in the loop of
  \<open>acquire_spinlock_int\<close> with a number of tries left, or inside the critical section. A
  step is one \<open>xchg\<close> of one CPU, a CPU entering the loop, or a release.
\<close>

datatype spin_pc = Outside | Spinning u64 | Inside

inductive spin_step ::
  "lock_ref \<Rightarrow> hw \<times> (nat \<Rightarrow> spin_pc) \<Rightarrow> hw \<times> (nat \<Rightarrow> spin_pc) \<Rightarrow> bool" for l where
  enter: "pcs i = Outside \<Longrightarrow> spin_step l (s, pcs) (s, pcs(i := Spinning tries))"
| take: "pcs i = Spinning tries \<Longrightarrow> xchg_busy l s = (0, s') \<Longrightarrow>
     spin_step l (s, pcs) (s', pcs(i := Inside))"
| again: "pcs i = Spinning tries \<Longrightarrow> xchg_busy l s = (al, s') \<Longrightarrow> al \<noteq> 0 \<Longrightarrow> tries - 1 \<noteq> 0 \<Longrightarrow>
     spin_step l (s, pcs) (s', pcs(i := Spinning (tries - 1)))"
| give_up: "pcs i = Spinning tries \<Longrightarrow> xchg_busy l s = (al, s') \<Longrightarrow> al \<noteq> 0 \<Longrightarrow> tries - 1 = 0 \<Longrightarrow>
     spin_step l (s, pcs) (s', pcs(i := Outside))"
| leave: "pcs i = Inside \<Longrightarrow> spin_step l (s, pcs) (release_spinlock_int l s, pcs(i := Outside))"

text \<open>What a CPU that spins alone does in these steps is what its call computes.\<close>

lemma spin_run:
  fixes s :: hw
  assumes "acquire_spinlock_int l tries s = (acquired, s')" "pcs i = Spinning tries"
  shows "(spin_step l)\<^sup>+\<^sup>+ (s, pcs) (s', pcs(i := if acquired then Inside else Outside))"
  using assms
proof (induction l tries s arbitrary: pcs rule: acquire_spinlock_int.induct)
  case (1 l tries s)
  obtain al s1 where x: "xchg_busy l s = (al, s1)" by fastforce
  note eq = "1.prems"(1) [unfolded acquire_spinlock_int.simps [of l tries] Let_def x case_prod_conv]
  show ?case
  proof (cases "al \<noteq> 0 \<and> tries - 1 \<noteq> 0")
    case True
    then have "spin_step l (s, pcs) (s1, pcs(i := Spinning (tries - 1)))"
      by (intro spin_step.again [where i = i and tries = tries]) (use x "1.prems"(2) in auto)
    moreover have "(spin_step l)\<^sup>+\<^sup>+ (s1, pcs(i := Spinning (tries - 1))) (s', (pcs(i := Spinning (tries - 1)))(i := if acquired then Inside else Outside))"
      by (rule "1.IH" [OF x [symmetric] refl True]) (use eq True in simp_all)
    ultimately show ?thesis unfolding fun_upd_upd by (rule tranclp_into_tranclp2)
  next
    case False
    then have "acquired = (al = 0)" "s' = s1" using eq by auto
    moreover have "spin_step l (s, pcs) (s1, pcs(i := if al = 0 then Inside else Outside))"
      using False x "1.prems"(2) by (auto intro: spin_step.take spin_step.give_up)
    ultimately show ?thesis by blast
  qed
qed

inductive spin_reach :: "lock_ref \<Rightarrow> hw \<times> (nat \<Rightarrow> spin_pc) \<Rightarrow> bool" for l where
  init: "hw_busy s l = 0 \<Longrightarrow> spin_reach l (s, \<lambda>_. Outside)"
| step: "spin_reach l x \<Longrightarrow> spin_step l x y \<Longrightarrow> spin_reach l y"

definition spin_inv :: "lock_ref \<Rightarrow> hw \<times> (nat \<Rightarrow> spin_pc) \<Rightarrow> bool" where
  "spin_inv l = (\<lambda>(s, pcs). (\<exists>i. pcs i = Inside) = (hw_busy s l \<noteq> 0) \<and>
     (\<forall>i j. pcs i = Inside \<longrightarrow> pcs j = Inside \<longrightarrow> i = j))"

lemma spin_step_inv: "spin_step l x y \<Longrightarrow> spin_inv l x \<Longrightarrow> spin_inv l y"
proof (induction rule: spin_step.induct)
  case (take pcs i tries s s')
  then show ?case by (auto simp: spin_inv_def xchg_busy_def)
next
  case (leave pcs i s)
  then show ?case by (auto simp: spin_inv_def release_spinlock_int_def)
qed (auto simp: spin_inv_def xchg_busy_def split: if_splits; metis spin_pc.distinct)+

lemma spin_reach_inv: "spin_reach l x \<Longrightarrow> spin_inv l x"
proof (induction rule: spin_reach.induct)
  case (init s)
  then show ?case by (simp add: spin_inv_def)
next
  case (step x y)
  then show ?case by (blast intro: spin_step_inv)
qed

section \<open>Properties\<close>

text \<open>C13: Mutual exclusion: in every state that any interleaving of the CPUs' \<open>xchg\<close> attempts
  and releases can reach from a free lock, at most one CPU is inside the critical section, and
  the lock's \<open>busy\<close> byte is non-zero exactly when one is.\<close>

theorem spinlock_mutual_exclusion:
  assumes "spin_reach l (s, pcs)"
  shows "(\<forall>i j. pcs i = Inside \<longrightarrow> pcs j = Inside \<longrightarrow> i = j) \<and>
    ((\<exists>i. pcs i = Inside) \<longleftrightarrow> hw_busy s l \<noteq> 0)"
  using spin_reach_inv [OF assms] by (auto simp: spin_inv_def)

theorem spinlock_mutual_exclusion_witness:
  "let s = \<lparr>hw_busy = (\<lambda>_. 0)(Lock_mem := 1), hw_outer = \<lambda>_. Lock_null, hw_if = \<lambda>_. True, hw_spun = 0\<rparr>;
       pcs = (\<lambda>_. Outside)(1 := Inside)
   in (\<forall>i j. pcs i = Inside \<longrightarrow> pcs j = Inside \<longrightarrow> i = j) \<and> hw_busy s Lock_mem \<noteq> 0"
proof -
  define s where "s = \<lparr>hw_busy = \<lambda>_. 0, hw_outer = \<lambda>_. Lock_null, hw_if = \<lambda>_. True, hw_spun = 0\<rparr>"
  define s' where "s' = \<lparr>hw_busy = (\<lambda>_. 0)(Lock_mem := 1), hw_outer = \<lambda>_. Lock_null, hw_if = \<lambda>_. True, hw_spun = 0\<rparr>"
  have "spin_reach Lock_mem (s, \<lambda>_. Outside)" by (rule spin_reach.init) (simp add: s_def)
  then have r1: "spin_reach Lock_mem (s, (\<lambda>_. Outside)(1 := Spinning 0))"
    by (rule spin_reach.step) (rule spin_step.enter, simp)
  have x: "xchg_busy Lock_mem s = (0, s')" by (simp add: xchg_busy_def s_def s'_def)
  have "spin_step Lock_mem (s, (\<lambda>_. Outside)(1 := Spinning 0))
      (s', ((\<lambda>_. Outside)(1 := Spinning 0))(1 := Inside))"
    by (rule spin_step.take [OF _ x]) simp
  then have "spin_reach Lock_mem (s', (\<lambda>_. Outside)(1 := Inside))"
    using spin_reach.step [OF r1] by (simp add: fun_upd_upd)
  from spinlock_mutual_exclusion [OF this] show ?thesis
    by (simp add: s'_def Let_def) 
qed

text \<open>Nested critical sections: locks taken one inside the other and given back in the
  opposite order leave the lock state as it was, and in between this CPU runs with interrupts
  off, however the sections are nested: the outermost lock alone switches them.\<close>

lemma nested_spinlocks_restore:
  assumes "distinct ls" "ls \<noteq> []" "\<forall>l\<in>set ls. hw_busy s l = 0" "Lock_null \<notin> set ls"
    and "hw_outer s c = Lock_null" "hw_if s c"
  shows "release_list c ls (acquire_list c ls s) = s \<and>
    \<not> hw_if (acquire_list c ls s) c \<and> hw_outer (acquire_list c ls s) c = hd ls \<and>
    (\<forall>l\<in>set ls. hw_busy (acquire_list c ls s) l = 1)"
proof -
  have "release_list c ls (acquire_list c ls s) = s"
    by (rule acquire_release_list [OF assms(1,3,4)]) (use assms in auto)
  then show ?thesis using assms by (simp add: acquire_list_eq [OF assms(1,3,4)])
qed

lemma nested_spinlocks_restore_example:
  "let s = \<lparr>hw_busy = \<lambda>_. 0, hw_outer = \<lambda>_. Lock_null, hw_if = \<lambda>_. True, hw_spun = 0\<rparr> in
   release_spinlock 2 Lock_all (release_spinlock 2 Lock_inactive
     (snd (acquire_spinlock 2 Lock_inactive 0 (snd (acquire_spinlock 2 Lock_all 0 s))))) = s"
  using nested_spinlocks_restore [of "[Lock_all, Lock_inactive]"
      "\<lparr>hw_busy = \<lambda>_. 0, hw_outer = \<lambda>_. Lock_null, hw_if = \<lambda>_. True, hw_spun = 0\<rparr>" 2]
  by (simp add: Let_def)

end
