(* ===== verification/Thread.thy ===== *)
theory Thread
  imports Bits Stamp_Id Linked Spinlock
begin

text \<open>
  The data of the scheduler: the saved register frame (\<open>x86_64/interrupt.h\<close>), the
  thread descriptor (\<open>schedule.h\<close>) and the heap of thread descriptors with its two pairs
  of link fields.
\<close>

section \<open>Configuration, \<open>config.h\<close>\<close>

abbreviation CONFIG_MAX_CPUS :: nat where
  "CONFIG_MAX_CPUS \<equiv> 16"

abbreviation CONFIG_SCHEDULER_PRIORITIES :: nat where
  "CONFIG_SCHEDULER_PRIORITIES \<equiv> 8"

section \<open>Saved register frames\<close>

record int_stack_frame =
  fr_r15 :: u64
  fr_r14 :: u64
  fr_r13 :: u64
  fr_r12 :: u64
  fr_r11 :: u64
  fr_r10 :: u64
  fr_r9 :: u64
  fr_r8 :: u64
  fr_rdi :: u64
  fr_rsi :: u64
  fr_rbp :: u64
  fr_rdx :: u64
  fr_rcx :: u64
  fr_rbx :: u64
  fr_rax :: u64
  fr_fxdata :: "u8 list"
  fr_error_code :: u32
  fr_rip :: u64
  fr_cs :: u16
  fr_rflags :: u64
  fr_rsp :: u64
  fr_ss :: u16

type_synonym thread_context = int_stack_frame

section \<open>Thread descriptors\<close>

text \<open>The four values of the two-bit field \<open>state\<close>.\<close>

datatype thread_state =
    THREAD_STATE_UNKNOWN
  | THREAD_STATE_RUNNING
  | THREAD_STATE_PAUSED
  | THREAD_STATE_STOPPED

abbreviation THREAD_STACK_SIZE_MIN :: u64 where
  "THREAD_STACK_SIZE_MIN \<equiv> 16"

definition THREAD_AFFINITY_SIZE :: nat where
  "THREAD_AFFINITY_SIZE = SIZE_ELEMENTS CONFIG_MAX_CPUS 64"

definition PRIORITY_MASK_SIZE :: nat where
  "PRIORITY_MASK_SIZE = SIZE_ELEMENTS CONFIG_SCHEDULER_PRIORITIES 64"

lemma mask_sizes [simp]: "THREAD_AFFINITY_SIZE = 1" "PRIORITY_MASK_SIZE = 1"
  by (simp_all add: THREAD_AFFINITY_SIZE_def PRIORITY_MASK_SIZE_def SIZE_ELEMENTS_def)

record thread_data =
  td_magic :: u64
  td_prev :: ptr
  td_next :: ptr
  td_all_prev :: ptr
  td_all_next :: ptr
  td_context :: thread_context
  td_stack :: ptr
  td_stack_size :: u64
  td_affinity :: "u64 list"
  td_output :: u64
  td_run_time :: u64
  td_priority :: u8
  td_real_priority :: u8
  td_quantum :: u16
  td_stamp :: i32
  td_cpu :: u8
  td_state :: thread_state
  td_fixed_priority :: bool

type_synonym theap = "ptr \<Rightarrow> thread_data"

section \<open>Link fields\<close>

definition next_of :: "theap \<Rightarrow> ptr \<Rightarrow> ptr" where "next_of h a = td_next (h a)"
definition prev_of :: "theap \<Rightarrow> ptr \<Rightarrow> ptr" where "prev_of h a = td_prev (h a)"
definition all_next_of :: "theap \<Rightarrow> ptr \<Rightarrow> ptr" where "all_next_of h a = td_all_next (h a)"
definition all_prev_of :: "theap \<Rightarrow> ptr \<Rightarrow> ptr" where "all_prev_of h a = td_all_prev (h a)"

definition set_next :: "ptr \<Rightarrow> ptr \<Rightarrow> theap \<Rightarrow> theap" where
  "set_next a v h = h(a := (h a)\<lparr>td_next := v\<rparr>)"
definition set_prev :: "ptr \<Rightarrow> ptr \<Rightarrow> theap \<Rightarrow> theap" where
  "set_prev a v h = h(a := (h a)\<lparr>td_prev := v\<rparr>)"
definition set_all_next :: "ptr \<Rightarrow> ptr \<Rightarrow> theap \<Rightarrow> theap" where
  "set_all_next a v h = h(a := (h a)\<lparr>td_all_next := v\<rparr>)"
definition set_all_prev :: "ptr \<Rightarrow> ptr \<Rightarrow> theap \<Rightarrow> theap" where
  "set_all_prev a v h = h(a := (h a)\<lparr>td_all_prev := v\<rparr>)"

lemmas link_defs = next_of_def prev_of_def all_next_of_def all_prev_of_def
  set_next_def set_prev_def set_all_next_def set_all_prev_def

interpretation run_links: link_fields next_of prev_of set_next set_prev
  by unfold_locales (auto simp: link_defs)

interpretation all_links: link_fields all_next_of all_prev_of set_all_next set_all_prev
  by unfold_locales (auto simp: link_defs)

text \<open>The fields of a descriptor other than its links; no link operation changes them.\<close>

definition core :: "thread_data \<Rightarrow> thread_data" where
  "core td = td\<lparr>td_prev := NULL, td_next := NULL, td_all_prev := NULL, td_all_next := NULL\<rparr>"

lemma core_set [simp]:
  "core (set_next a v h b) = core (h b)" "core (set_prev a v h b) = core (h b)"
  "core (set_all_next a v h b) = core (h b)" "core (set_all_prev a v h b) = core (h b)"
  by (simp_all add: core_def link_defs)

lemma core_link_ops [simp]:
  "core (link_front set_next set_prev t x h b) = core (h b)"
  "core (link_front set_all_next set_all_prev t x h b) = core (h b)"
  "core (link_rear set_next set_prev t x h b) = core (h b)"
  "core (unlink_node next_of prev_of set_next set_prev x h b) = core (h b)"
  "core (unlink_node all_next_of all_prev_of set_all_next set_all_prev x h b) = core (h b)"
  by (simp_all add: link_front_def link_rear_def unlink_node_def Let_def)

lemma core_fields:
  assumes "core x = core y"
  shows "td_magic x = td_magic y" "td_context x = td_context y" "td_stack x = td_stack y"
    "td_stack_size x = td_stack_size y" "td_affinity x = td_affinity y" "td_output x = td_output y"
    "td_run_time x = td_run_time y" "td_priority x = td_priority y"
    "td_real_priority x = td_real_priority y" "td_quantum x = td_quantum y"
    "td_stamp x = td_stamp y" "td_cpu x = td_cpu y" "td_state x = td_state y"
  using assms by (cases x; cases y; simp add: core_def)+

text \<open>The two pairs of link fields do not disturb each other.\<close>

lemma all_of_run_ops [simp]:
  "all_next_of (set_next a v h) = all_next_of h" "all_next_of (set_prev a v h) = all_next_of h"
  "all_prev_of (set_next a v h) = all_prev_of h" "all_prev_of (set_prev a v h) = all_prev_of h"
  "next_of (set_all_next a v h) = next_of h" "next_of (set_all_prev a v h) = next_of h"
  "prev_of (set_all_next a v h) = prev_of h" "prev_of (set_all_prev a v h) = prev_of h"
  by (auto simp: link_defs)

lemma all_of_link_ops [simp]:
  "all_next_of (link_front set_next set_prev t x h) = all_next_of h"
  "all_prev_of (link_front set_next set_prev t x h) = all_prev_of h"
  "all_next_of (link_rear set_next set_prev t x h) = all_next_of h"
  "all_prev_of (link_rear set_next set_prev t x h) = all_prev_of h"
  "all_next_of (unlink_node next_of prev_of set_next set_prev x h) = all_next_of h"
  "all_prev_of (unlink_node next_of prev_of set_next set_prev x h) = all_prev_of h"
  "next_of (link_front set_all_next set_all_prev t x h) = next_of h"
  "prev_of (link_front set_all_next set_all_prev t x h) = prev_of h"
  "next_of (unlink_node all_next_of all_prev_of set_all_next set_all_prev x h) = next_of h"
  "prev_of (unlink_node all_next_of all_prev_of set_all_next set_all_prev x h) = prev_of h"
  by (simp_all add: link_front_def link_rear_def unlink_node_def Let_def)

text \<open>A write of fields other than the links.\<close>

definition upd_thread :: "ptr \<Rightarrow> (thread_data \<Rightarrow> thread_data) \<Rightarrow> theap \<Rightarrow> theap" where
  "upd_thread a f h = h(a := f (h a))"

definition keeps_links :: "(thread_data \<Rightarrow> thread_data) \<Rightarrow> bool" where
  "keeps_links f \<longleftrightarrow> (\<forall>x. td_prev (f x) = td_prev x \<and> td_next (f x) = td_next x \<and>
     td_all_prev (f x) = td_all_prev x \<and> td_all_next (f x) = td_all_next x)"

lemma links_upd_thread [simp]:
  assumes "keeps_links f"
  shows "next_of (upd_thread a f h) = next_of h" "prev_of (upd_thread a f h) = prev_of h"
    "all_next_of (upd_thread a f h) = all_next_of h" "all_prev_of (upd_thread a f h) = all_prev_of h"
  using assms by (auto simp: upd_thread_def keeps_links_def link_defs)

lemma upd_thread_apply: "upd_thread a f h b = (if b = a then f (h a) else h b)"
  by (simp add: upd_thread_def)

end
