(* ===== verification/Run_Queue.thy ===== *)
theory Run_Queue
  imports Thread
begin

text \<open>
  The run queues of one CPU, \<open>schedule.c\<close>: for every priority an active and an expired
  list of threads, the bit mask of non-empty priorities, and the three places that change
  them (\<open>add_expired\<close>, the dequeuing part of \<open>do_pause_task\<close>, the requeuing part of
  the timer handler).
\<close>

section \<open>Data\<close>

record cpu_priority =
  cp_expired_head :: ptr
  cp_expired_tail :: ptr
  cp_active_tail :: ptr
  cp_total_threads :: i32

datatype task_type = CPU_TASK_RESUME | CPU_TASK_PAUSE | CPU_TASK_SELF_HALT | Other_task u8

record cpu_task =
  ct_type :: task_type
  ct_error :: err_code
  ct_thread :: ptr
  ct_lock :: lock_ref

record cpu_data =
  cd_total_threads :: i32
  cd_current_priority :: int
  cd_priorities :: "nat \<Rightarrow> cpu_priority"
  cd_priority_mask :: "u64 list"
  cd_task :: cpu_task
  cd_load_context :: bool

section \<open>Operations\<close>

definition add_expired :: "theap \<Rightarrow> cpu_data \<Rightarrow> ptr \<Rightarrow> (theap \<times> cpu_data) outcome" where
  "add_expired h cpud thread =
     (let p = unat (td_real_priority (h thread)) in
      if CONFIG_SCHEDULER_PRIORITIES \<le> p then Undef else
      let prio = cd_priorities cpud p;
          h1 = set_prev thread NULL (set_next thread NULL h);
          (h2, prio2) =
            (if cp_total_threads prio \<noteq> 0 then
               (if cp_expired_head prio \<noteq> NULL then
                  (link_rear set_next set_prev (cp_expired_head prio) thread h1,
                   prio\<lparr>cp_expired_head := thread\<rparr>)
                else (h1, prio\<lparr>cp_expired_tail := thread, cp_expired_head := thread\<rparr>))
             else (h1, prio\<lparr>cp_active_tail := thread\<rparr>));
          prio3 = prio2\<lparr>cp_total_threads := cp_total_threads prio2 + 1\<rparr> in
      Ret (h2, cpud\<lparr>cd_priorities := (cd_priorities cpud)(p := prio3),
                    cd_priority_mask := BIT_ARRAY_SET (cd_priority_mask cpud) p\<rparr>))"

text \<open>
  \<open>--prio->total_threads\<close>, and the mask bit reset when it reaches zero.
\<close>

definition drop_count :: "nat \<Rightarrow> cpu_data \<Rightarrow> cpu_data" where
  "drop_count p cpud =
     (let prio = cd_priorities cpud p; n = cp_total_threads prio - 1 in
      cpud\<lparr>cd_priorities := (cd_priorities cpud)(p := prio\<lparr>cp_total_threads := n\<rparr>),
           cd_priority_mask := (if n = 0 then BIT_ARRAY_RESET (cd_priority_mask cpud) p
                                else cd_priority_mask cpud)\<rparr>)"

text \<open>
  Lines 440 to 452 of \<open>do_pause_task\<close>: the ends of the priority's lists once the thread
  has been unlinked in heap \<open>h\<close>; the expired list becomes the active one when that runs out.
\<close>

definition dequeue_prio :: "theap \<Rightarrow> ptr \<Rightarrow> cpu_priority \<Rightarrow> cpu_priority" where
  "dequeue_prio h thrd prio =
     (if cp_active_tail prio = thrd then
        (let prio' = prio\<lparr>cp_active_tail := next_of h thrd\<rparr> in
         if cp_active_tail prio' = NULL then
           prio'\<lparr>cp_active_tail := cp_expired_tail prio', cp_expired_tail := NULL,
                 cp_expired_head := NULL\<rparr>
         else prio')
      else
        (let prio' = (if cp_expired_head prio = thrd
                      then prio\<lparr>cp_expired_head := prev_of h thrd\<rparr> else prio) in
         if cp_expired_tail prio' = thrd
         then prio'\<lparr>cp_expired_tail := next_of h thrd\<rparr> else prio'))"

text \<open>Lines 433 to 456 of \<open>do_pause_task\<close>: the thread leaves the list that holds it.\<close>

definition pause_dequeue :: "theap \<Rightarrow> cpu_data \<Rightarrow> ptr \<Rightarrow> (theap \<times> cpu_data) outcome" where
  "pause_dequeue h cpud thrd =
     (let p = unat (td_real_priority (h thrd)) in
      if CONFIG_SCHEDULER_PRIORITIES \<le> p then Undef else
      let h1 = unlink_node next_of prev_of set_next set_prev thrd h;
          prio1 = dequeue_prio h1 thrd (cd_priorities cpud p);
          cpud1 = drop_count p (cpud\<lparr>cd_priorities := (cd_priorities cpud)(p := prio1)\<rparr>) in
      Ret (h1, cpud1\<lparr>cd_total_threads := cd_total_threads cpud1 - 1\<rparr>))"

text \<open>\<open>update_priority_quantum\<close>.\<close>

definition update_priority_quantum :: "thread_data \<Rightarrow> thread_data" where
  "update_priority_quantum td = td\<lparr>td_real_priority := td_priority td, td_quantum := 10\<rparr>"

text \<open>
  Lines 381 to 394 of the timer handler: the current thread leaves the front of the active
  list of the current priority \<open>p\<close>, its registers are saved, and it joins the expired list.
\<close>

definition timer_requeue ::
  "nat \<Rightarrow> thread_context \<Rightarrow> theap \<Rightarrow> cpu_data \<Rightarrow> ptr \<Rightarrow> (theap \<times> cpu_data) outcome" where
  "timer_requeue p frame h cpud thrd =
     (let prio = cd_priorities cpud p;
          cpud1 = drop_count p
            (cpud\<lparr>cd_priorities := (cd_priorities cpud)
               (p := prio\<lparr>cp_active_tail := next_of h thrd\<rparr>)\<rparr>);
          h1 = upd_thread thrd (\<lambda>td. update_priority_quantum (td\<lparr>td_context := frame\<rparr>)) h in
      obind (add_expired h1 cpud1 thrd) (\<lambda>(h2, cpud2).
      let prio2 = cd_priorities cpud2 p in
      if cp_active_tail prio2 \<noteq> NULL then Ret (set_prev (cp_active_tail prio2) NULL h2, cpud2)
      else Ret (h2, cpud2\<lparr>cd_priorities := (cd_priorities cpud2)
             (p := prio2\<lparr>cp_active_tail := cp_expired_tail prio2, cp_expired_tail := NULL,
                         cp_expired_head := NULL\<rparr>)\<rparr>)))"

section \<open>Abstract queues\<close>

type_synonym tqueue = "ptr list \<times> ptr list"

definition qlist :: "tqueue \<Rightarrow> ptr list" where
  "qlist q = fst q @ snd q"

definition q_norm :: "tqueue \<Rightarrow> tqueue" where
  "q_norm q = (if fst q = [] then (snd q, []) else q)"

definition q_add :: "ptr \<Rightarrow> tqueue \<Rightarrow> tqueue" where
  "q_add t q = (if qlist q = [] then ([t], []) else (fst q, snd q @ [t]))"

definition q_remove :: "ptr \<Rightarrow> tqueue \<Rightarrow> tqueue" where
  "q_remove t q = q_norm (remove1 t (fst q), remove1 t (snd q))"

definition q_rotate :: "tqueue \<Rightarrow> tqueue" where
  "q_rotate q = (case fst q of [] \<Rightarrow> q | t # ts \<Rightarrow> q_norm (ts, snd q @ [t]))"

definition q_ok :: "tqueue \<Rightarrow> bool" where
  "q_ok q \<longleftrightarrow> (fst q = [] \<longrightarrow> snd q = []) \<and> distinct (qlist q)"

lemma qlist_norm [simp]: "qlist (q_norm q) = qlist q"
  by (simp add: qlist_def q_norm_def)

lemma qlist_add [simp]: "qlist (q_add t q) = qlist q @ [t]"
  by (simp add: qlist_def q_add_def)

lemma qlist_remove: "q_ok q \<Longrightarrow> qlist (q_remove t q) = remove1 t (qlist q)"
  by (auto simp: q_remove_def q_ok_def) (auto simp: qlist_def remove1_append intro!: remove1_idem)

lemma qlist_rotate: "q_ok q \<Longrightarrow> qlist (q_rotate q) = rotate1 (qlist q)"
  by (cases "fst q") (auto simp: q_rotate_def q_ok_def qlist_def q_norm_def)

lemma q_ok_norm: "distinct (qlist q) \<Longrightarrow> q_ok (q_norm q)"
  by (auto simp: q_ok_def qlist_def q_norm_def)

lemma q_ok_add: "q_ok q \<Longrightarrow> t \<notin> set (qlist q) \<Longrightarrow> q_ok (q_add t q)"
  by (auto simp: q_ok_def qlist_def q_add_def)

lemma q_ok_remove: "q_ok q \<Longrightarrow> q_ok (q_remove t q)"
  unfolding q_remove_def
  by (rule q_ok_norm) (use set_remove1_subset in \<open>fastforce simp: q_ok_def qlist_def\<close>)

lemma q_ok_rotate: "q_ok q \<Longrightarrow> q_ok (q_rotate q)"
  by (cases "fst q") (auto simp: q_rotate_def q_ok_def qlist_def q_norm_def)

section \<open>The contract of a run queue\<close>

text \<open>
  What the scheduler's fairness rests on: a queue has a running order, new threads join it
  at the end, threads leave it without changing the order of the others, and rotating moves
  the first thread to the end.
\<close>

locale round_robin =
  fixes ok :: "'q \<Rightarrow> bool" and order :: "'q \<Rightarrow> ptr list"
    and enq deq :: "ptr \<Rightarrow> 'q \<Rightarrow> 'q" and rot :: "'q \<Rightarrow> 'q"
  assumes enq_law: "ok q \<Longrightarrow> t \<notin> set (order q) \<Longrightarrow> ok (enq t q) \<and> order (enq t q) = order q @ [t]"
    and deq_law: "ok q \<Longrightarrow> ok (deq t q) \<and> order (deq t q) = remove1 t (order q)"
    and rot_law: "ok q \<Longrightarrow> ok (rot q) \<and> order (rot q) = rotate1 (order q)"
begin

lemma rot_funpow: "ok q \<Longrightarrow> ok ((rot ^^ n) q) \<and> order ((rot ^^ n) q) = rotate n (order q)"
  by (induction n) (auto simp: rot_law rotate_def)

lemma turn:
  assumes "ok q" "i < length (order q)"
  shows "hd (order ((rot ^^ i) q)) = order q ! i"
proof -
  have "hd (rotate i (order q)) = order q ! (i mod length (order q))"
    using assms(2) by (intro hd_rotate_conv_nth) auto
  with assms show ?thesis by (simp add: rot_funpow)
qed

lemma served_once_per_round:
  assumes "ok q" "t \<in> set (order q)" "distinct (order q)"
  shows "\<exists>!i. i < length (order q) \<and> hd (order ((rot ^^ i) q)) = t"
proof -
  obtain i where i: "i < length (order q)" "order q ! i = t" using assms(2) by (auto simp: in_set_conv_nth)
  show ?thesis
  proof (rule ex1I [of _ i])
    show "i < length (order q) \<and> hd (order ((rot ^^ i) q)) = t" using i turn [OF assms(1)] by simp
    fix j assume "j < length (order q) \<and> hd (order ((rot ^^ j) q)) = t"
    then have "j < length (order q)" "order q ! j = t" using turn [OF assms(1), of j] by auto
    then show "j = i" using i assms(3) nth_eq_iff_index_eq by blast
  qed
qed

text \<open>A new thread is served after all those that were there, and before any a second time.\<close>

lemma newcomer_last:
  assumes "ok q" "t \<notin> set (order q)"
  shows "hd (order ((rot ^^ length (order q)) (enq t q))) = t"
    and "i < length (order q) \<Longrightarrow> hd (order ((rot ^^ i) (enq t q))) = order q ! i"
  using turn [of "enq t q"] enq_law [OF assms] by (simp_all add: nth_append)

text \<open>Of two threads, the one ahead stays ahead when a third leaves.\<close>

lemma leaving_keeps_order:
  assumes "ok q" "order q = xs @ a # ys @ b # zs" "t \<noteq> a" "t \<noteq> b"
  shows "\<exists>xs' ys' zs'. order (deq t q) = xs' @ a # ys' @ b # zs'"
proof -
  have "remove1 t (xs @ a # ys @ b # zs) =
      (if t \<in> set xs then remove1 t xs @ a # ys @ b # zs
       else if t \<in> set ys then xs @ a # remove1 t ys @ b # zs
       else xs @ a # ys @ b # remove1 t zs)"
    using assms(3,4) by (auto simp: remove1_append)
  with assms(1,2) show ?thesis by (auto simp: deq_law split: if_splits)
qed

end

interpretation tq: round_robin q_ok qlist q_add q_remove q_rotate
  by unfold_locales (auto simp: q_ok_add q_ok_remove q_ok_rotate qlist_remove qlist_rotate)

section \<open>Representation\<close>

definition prio_rep :: "theap \<Rightarrow> cpu_priority \<Rightarrow> tqueue \<Rightarrow> bool" where
  "prio_rep h prio q \<longleftrightarrow>
     dlist (next_of h) (prev_of h) (cp_active_tail prio) (fst q) \<and>
     dlist (next_of h) (prev_of h) (cp_expired_tail prio) (snd q) \<and>
     cp_expired_head prio = last (NULL # snd q) \<and>
     cp_total_threads prio = word_of_nat (length (qlist q))"

lemma prio_rep_cong:
  assumes "\<And>a. a \<in> set (qlist q) \<Longrightarrow> next_of h a = next_of h' a"
    "\<And>a. a \<in> set (qlist q) \<Longrightarrow> prev_of h a = prev_of h' a"
  shows "prio_rep h prio q \<longleftrightarrow> prio_rep h' prio q"
  using dlist_cong [of "fst q" "next_of h" "next_of h'" "prev_of h" "prev_of h'"]
    dlist_cong [of "snd q" "next_of h" "next_of h'" "prev_of h" "prev_of h'"] assms
  by (auto simp: prio_rep_def qlist_def)

text \<open>What \<open>add_expired\<close> does, on a queue whose active list may be mid-change.\<close>

lemma add_expired_heap:
  assumes p: "unat (td_real_priority (h t)) = p" "p < 8"
    and prio: "prio = cd_priorities d p"
    and exp: "dlist (next_of h) (prev_of h) (cp_expired_tail prio) e"
      "cp_expired_head prio = last (NULL # e)"
    and t: "t \<noteq> NULL" "t \<notin> set e"
  obtains h' prio' where
    "add_expired h d t = Ret (h', d\<lparr>cd_priorities := (cd_priorities d)(p := prio'),
        cd_priority_mask := BIT_ARRAY_SET (cd_priority_mask d) p\<rparr>)"
    "cp_total_threads prio' = cp_total_threads prio + 1"
    "cp_total_threads prio \<noteq> 0 \<Longrightarrow>
       dlist (next_of h') (prev_of h') (cp_expired_tail prio') (e @ [t]) \<and>
       cp_expired_head prio' = t \<and> cp_active_tail prio' = cp_active_tail prio"
    "cp_total_threads prio = 0 \<Longrightarrow>
       cp_active_tail prio' = t \<and> cp_expired_tail prio' = cp_expired_tail prio \<and>
       cp_expired_head prio' = cp_expired_head prio \<and> next_of h' t = NULL \<and> prev_of h' t = NULL"
    "\<And>a. a \<notin> set e \<Longrightarrow> a \<noteq> t \<Longrightarrow> next_of h' a = next_of h a"
    "\<And>a. a \<noteq> t \<Longrightarrow> prev_of h' a = prev_of h a"
    "\<And>a. core (h' a) = core (h a)"
    "all_next_of h' = all_next_of h" "all_prev_of h' = all_prev_of h"
proof -
  define h1 where "h1 = set_prev t NULL (set_next t NULL h)"
  have f1: "next_of h1 = (next_of h)(t := NULL)" "prev_of h1 = (prev_of h)(t := NULL)"
    by (simp_all add: h1_def run_links.field_laws)
  have e1: "dlist (next_of h1) (prev_of h1) (cp_expired_tail prio) e"
    using exp(1) t by (subst dlist_cong [where n' = "next_of h" and p' = "prev_of h"]) (auto simp: f1)
  have hd0: "cp_expired_head prio = NULL \<longleftrightarrow> e = []"
    using exp dlist_nonnull [OF exp(1), of "last e"] by auto
  define h' where "h' = (if cp_total_threads prio \<noteq> 0 \<and> cp_expired_head prio \<noteq> NULL
      then link_rear set_next set_prev (cp_expired_head prio) t h1 else h1)"
  define prio' where "prio' = (if cp_total_threads prio \<noteq> 0 then
        (if cp_expired_head prio \<noteq> NULL then prio\<lparr>cp_expired_head := t\<rparr>
         else prio\<lparr>cp_expired_tail := t, cp_expired_head := t\<rparr>)
      else prio\<lparr>cp_active_tail := t\<rparr>)\<lparr>cp_total_threads := cp_total_threads prio + 1\<rparr>"
  show ?thesis
  proof (rule that [of h' prio'])
    show "add_expired h d t = Ret (h', d\<lparr>cd_priorities := (cd_priorities d)(p := prio'),
        cd_priority_mask := BIT_ARRAY_SET (cd_priority_mask d) p\<rparr>)"
      using p prio by (auto simp: add_expired_def Let_def h'_def prio'_def h1_def)
    show "cp_total_threads prio' = cp_total_threads prio + 1"
      by (simp add: prio'_def)
    show "dlist (next_of h') (prev_of h') (cp_expired_tail prio') (e @ [t]) \<and>
       cp_expired_head prio' = t \<and> cp_active_tail prio' = cp_active_tail prio"
      if tot: "cp_total_threads prio \<noteq> 0"
    proof (cases "e = []")
      case True
      with tot hd0 t f1 show ?thesis by (simp add: h'_def prio'_def dlist_def)
    next
      case False
      have "dlist (next_of (link_rear set_next set_prev (last e) t h1))
          (prev_of (link_rear set_next set_prev (last e) t h1)) (cp_expired_tail prio) (e @ [t])"
        using run_links.rear_dlist [OF e1 False t] f1 by simp
      with False tot hd0 exp(2) show ?thesis by (simp add: h'_def prio'_def)
    qed
    show "cp_active_tail prio' = t \<and> cp_expired_tail prio' = cp_expired_tail prio \<and>
       cp_expired_head prio' = cp_expired_head prio \<and> next_of h' t = NULL \<and> prev_of h' t = NULL"
      if "cp_total_threads prio = 0"
      using that by (simp add: h'_def prio'_def f1)
    show "next_of h' a = next_of h a" if "a \<notin> set e" "a \<noteq> t" for a
      using that hd0 exp(2) by (auto simp: h'_def run_links.rear_fields f1)
    show "prev_of h' a = prev_of h a" if "a \<noteq> t" for a
      using that by (auto simp: h'_def run_links.rear_fields f1)
    show "core (h' a) = core (h a)" for a
      by (simp add: h'_def h1_def)
    show "all_next_of h' = all_next_of h" "all_prev_of h' = all_prev_of h"
      by (simp_all add: h'_def h1_def)
  qed
qed

lemma drop_count_simps [simp]:
  "cd_total_threads (drop_count p d) = cd_total_threads d"
  "cd_current_priority (drop_count p d) = cd_current_priority d"
  "cd_task (drop_count p d) = cd_task d" "cd_load_context (drop_count p d) = cd_load_context d"
  "cd_priorities (drop_count p d) = (cd_priorities d)
     (p := (cd_priorities d p)\<lparr>cp_total_threads := cp_total_threads (cd_priorities d p) - 1\<rparr>)"
  "cd_priority_mask (drop_count p d) =
     (if cp_total_threads (cd_priorities d p) = 1 then BIT_ARRAY_RESET (cd_priority_mask d) p
      else cd_priority_mask d)"
  by (simp_all add: drop_count_def Let_def)

text \<open>The links of threads outside a set, and every other field, are left alone.\<close>

definition same_outside :: "ptr set \<Rightarrow> theap \<Rightarrow> theap \<Rightarrow> bool" where
  "same_outside A h h' \<longleftrightarrow>
     (\<forall>a. a \<notin> A \<longrightarrow> next_of h' a = next_of h a \<and> prev_of h' a = prev_of h a) \<and>
     all_next_of h' = all_next_of h \<and> all_prev_of h' = all_prev_of h"

lemma same_outside_mono: "same_outside A h h' \<Longrightarrow> A \<subseteq> B \<Longrightarrow> same_outside B h h'"
  by (auto simp: same_outside_def)

lemma same_outside_prio_rep:
  assumes "same_outside A h h'" "set (qlist q) \<inter> A = {}"
  shows "prio_rep h' prio q \<longleftrightarrow> prio_rep h prio q"
  using assms by (intro prio_rep_cong) (auto simp: same_outside_def)

lemma same_outside_dlist:
  assumes "same_outside A h h'" "set xs \<inter> A = {}"
  shows "dlist (next_of h') (prev_of h') t xs \<longleftrightarrow> dlist (next_of h) (prev_of h) t xs"
  using assms by (intro dlist_cong) (auto simp: same_outside_def)

lemma prio_rep_total0:
  assumes "prio_rep h prio q" "length (qlist q) < 2 ^ 32"
  shows "cp_total_threads prio = 0 \<longleftrightarrow> qlist q = []"
  using assms of_nat_eq_0_iff32 [OF assms(2)] by (simp add: prio_rep_def)

lemma add_expired_rep:
  assumes p: "unat (td_real_priority (h t)) = p" "p < 8"
    and rep: "prio_rep h (cd_priorities d p) q" and ok: "q_ok q" "length (qlist q) < 2 ^ 32"
    and t: "t \<noteq> NULL" "t \<notin> set (qlist q)"
  obtains h' prio' where
    "add_expired h d t = Ret (h', d\<lparr>cd_priorities := (cd_priorities d)(p := prio'),
        cd_priority_mask := BIT_ARRAY_SET (cd_priority_mask d) p\<rparr>)"
    "prio_rep h' prio' (q_add t q)"
    "same_outside (insert t (set (qlist q))) h h'" "\<And>a. core (h' a) = core (h a)"
proof -
  let ?prio = "cd_priorities d p"
  have e: "dlist (next_of h) (prev_of h) (cp_expired_tail ?prio) (snd q)"
    "cp_expired_head ?prio = last (NULL # snd q)" "t \<notin> set (snd q)"
    and a: "dlist (next_of h) (prev_of h) (cp_active_tail ?prio) (fst q)"
    and tot: "cp_total_threads ?prio = word_of_nat (length (qlist q))"
    using rep t by (auto simp: prio_rep_def qlist_def)
  obtain h' prio' where r: "add_expired h d t = Ret (h', d\<lparr>cd_priorities := (cd_priorities d)(p := prio'),
        cd_priority_mask := BIT_ARRAY_SET (cd_priority_mask d) p\<rparr>)"
    "cp_total_threads prio' = cp_total_threads ?prio + 1"
    and ne: "cp_total_threads ?prio \<noteq> 0 \<Longrightarrow>
       dlist (next_of h') (prev_of h') (cp_expired_tail prio') (snd q @ [t]) \<and>
       cp_expired_head prio' = t \<and> cp_active_tail prio' = cp_active_tail ?prio"
    and em: "cp_total_threads ?prio = 0 \<Longrightarrow>
       cp_active_tail prio' = t \<and> cp_expired_tail prio' = cp_expired_tail ?prio \<and>
       cp_expired_head prio' = cp_expired_head ?prio \<and> next_of h' t = NULL \<and> prev_of h' t = NULL"
    and fr: "\<And>a. a \<notin> set (snd q) \<Longrightarrow> a \<noteq> t \<Longrightarrow> next_of h' a = next_of h a"
      "\<And>a. a \<noteq> t \<Longrightarrow> prev_of h' a = prev_of h a" "\<And>a. core (h' a) = core (h a)"
      "all_next_of h' = all_next_of h" "all_prev_of h' = all_prev_of h"
    using add_expired_heap [OF p refl e(1,2) t(1) e(3)] by blast
  have so: "same_outside (insert t (set (qlist q))) h h'"
    using fr by (auto simp: same_outside_def qlist_def)
  have "prio_rep h' prio' (q_add t q)"
  proof (cases "qlist q = []")
    case True
    then have q: "q = ([], [])" by (cases q) (simp add: qlist_def)
    with tot em r(2) e t(1) show ?thesis
      by (simp add: prio_rep_def q_add_def qlist_def dlist_def)
  next
    case False
    then have t0: "cp_total_threads ?prio \<noteq> 0" using prio_rep_total0 [OF rep ok(2)] by simp
    have "a \<noteq> t \<and> a \<notin> set (snd q)" if "a \<in> set (fst q)" for a
      using that t ok(1) by (auto simp: qlist_def q_ok_def)
    then have "dlist (next_of h') (prev_of h') (cp_active_tail ?prio) (fst q)"
      using a by (subst dlist_cong [where n' = "next_of h" and p' = "prev_of h"])
        (simp_all add: fr)
    with ne [OF t0] tot r(2) False show ?thesis
      by (simp add: prio_rep_def q_add_def) (simp add: qlist_def)
  qed
  with r so fr show ?thesis by (intro that)
qed

text \<open>Dequeuing: the thread leaves its list, and the links of no other list change.\<close>

lemma pause_dequeue_prio:
  assumes rep: "prio_rep h prio q" and ok: "q_ok q" and t: "t \<in> set (qlist q)"
  defines "h1 \<equiv> unlink_node next_of prev_of set_next set_prev t h"
  defines "prio1 \<equiv> dequeue_prio h1 t prio"
  shows "prio_rep h1 (prio1\<lparr>cp_total_threads := cp_total_threads prio1 - 1\<rparr>) (q_remove t q)"
    and "same_outside (set (qlist q)) h h1" and "cp_total_threads prio1 = cp_total_threads prio"
proof -
  have a: "dlist (next_of h) (prev_of h) (cp_active_tail prio) (fst q)"
    and e: "dlist (next_of h) (prev_of h) (cp_expired_tail prio) (snd q)"
    and hd: "cp_expired_head prio = last (NULL # snd q)"
    and tot: "cp_total_threads prio = word_of_nat (length (qlist q))"
    using rep by (auto simp: prio_rep_def)
  have t0: "t \<noteq> NULL" using dlist_nonnull [OF a] dlist_nonnull [OF e] t by (auto simp: qlist_def)
  have dj: "set (fst q) \<inter> set (snd q) = {}" using ok by (simp add: q_ok_def qlist_def)
  have ane: "fst q \<noteq> []" using ok t by (auto simp: q_ok_def qlist_def)
  show tp: "cp_total_threads prio1 = cp_total_threads prio"
    by (simp add: prio1_def dequeue_prio_def Let_def)
  have len: "cp_total_threads prio1 - 1 = word_of_nat (length (qlist (q_remove t q)))"
  proof -
    obtain n where "length (qlist q) = Suc n" using t by (cases "qlist q") auto
    then show ?thesis using t tp tot by (simp add: qlist_remove [OF ok] length_remove1)
  qed
  consider (act) "t \<in> set (fst q)" "t \<notin> set (snd q)" | (expd) "t \<in> set (snd q)" "t \<notin> set (fst q)"
    using t dj by (auto simp: qlist_def)
  then have "prio_rep h1 (prio1\<lparr>cp_total_threads := cp_total_threads prio1 - 1\<rparr>) (q_remove t q) \<and>
      same_outside (set (qlist q)) h h1"
  proof cases
    case act
    note u = run_links.unlink_dlist [OF a act(1), folded h1_def]
    have so: "same_outside (set (fst q)) h h1" unfolding same_outside_def
      using u(4,5) by (auto simp: h1_def)
    have e1: "dlist (next_of h1) (prev_of h1) (cp_expired_tail prio) (snd q)"
      using e dj same_outside_dlist [OF so] by blast
    have a1: "dlist (next_of h1) (prev_of h1) (if cp_active_tail prio = t then next_of h1 t else cp_active_tail prio) (remove1 t (fst q))"
      by (rule u(1))
    show ?thesis
    proof (cases "cp_active_tail prio = t")
      case True
      show ?thesis
      proof (cases "next_of h1 t = NULL")
        case nul: True
        then have "remove1 t (fst q) = []" using a1 True dlist_NULL by fastforce
        with True nul e1 len so act show ?thesis
          by (auto simp: prio1_def dequeue_prio_def prio_rep_def q_remove_def q_norm_def remove1_idem qlist_def
              intro: same_outside_mono)
      next
        case False
        then have "remove1 t (fst q) \<noteq> []" using a1 True by auto
        with True False e1 a1 len so act hd show ?thesis
          by (auto simp: prio1_def dequeue_prio_def prio_rep_def q_remove_def q_norm_def remove1_idem qlist_def
              intro: same_outside_mono)
      qed
    next
      case False
      then have ne: "remove1 t (fst q) \<noteq> []" using dlist_tail_iff [OF a1] dlist_tail_iff [OF a] ane by auto
      have "cp_expired_head prio \<noteq> t" using hd act t0 by auto
      moreover have "cp_expired_tail prio \<noteq> t" using e act t0 by (cases "snd q") (auto simp: dlist_def)
      ultimately show ?thesis using False ne e1 a1 len so act hd
        by (auto simp: prio1_def dequeue_prio_def prio_rep_def q_remove_def q_norm_def remove1_idem qlist_def
            intro: same_outside_mono)
    qed
  next
    case expd
    note u = run_links.unlink_dlist [OF e expd(1), folded h1_def]
    have so: "same_outside (set (snd q)) h h1" unfolding same_outside_def
      using u(4,5) by (auto simp: h1_def)
    have a1: "dlist (next_of h1) (prev_of h1) (cp_active_tail prio) (fst q)"
      using a dj same_outside_dlist [OF so] by blast
    have at: "cp_active_tail prio \<noteq> t" using a ane expd by (cases "fst q") (auto simp: dlist_def)
    obtain ys zs where q2: "snd q = ys @ t # zs" using expd(1) by (meson split_list)
    have dist: "distinct (snd q)" using ok by (simp add: q_ok_def qlist_def)
    have rem: "remove1 t (snd q) = ys @ zs" using q2 dist by (simp add: remove1_append)
    have px: "prev_of h1 t = last (NULL # ys)"
      using u(3) dlist_split(1) [OF e [unfolded q2]] by simp
    have "(if cp_expired_head prio = t then prev_of h1 t else cp_expired_head prio) = last (NULL # ys @ zs)"
      using hd q2 px dist by auto
    with at ane e a1 u(1) len so hd expd rem show ?thesis
      by (auto simp: prio1_def dequeue_prio_def prio_rep_def q_remove_def q_norm_def remove1_idem qlist_def Let_def
          intro: same_outside_mono split: if_splits)
  qed
  then show "prio_rep h1 (prio1\<lparr>cp_total_threads := cp_total_threads prio1 - 1\<rparr>) (q_remove t q)"
    and "same_outside (set (qlist q)) h h1" by auto
qed

lemma pause_dequeue_rep:
  assumes p: "unat (td_real_priority (h t)) = p" "p < 8"
    and rep: "prio_rep h (cd_priorities d p) q" and ok: "q_ok q" "length (qlist q) < 2 ^ 32"
    and t: "t \<in> set (qlist q)"
  obtains h' d' where
    "pause_dequeue h d t = Ret (h', d')"
    "prio_rep h' (cd_priorities d' p) (q_remove t q)"
    "\<And>k. k \<noteq> p \<Longrightarrow> cd_priorities d' k = cd_priorities d k"
    "cd_priority_mask d' = (if qlist (q_remove t q) = [] then BIT_ARRAY_RESET (cd_priority_mask d) p
       else cd_priority_mask d)"
    "cd_total_threads d' = cd_total_threads d - 1"
    "cd_current_priority d' = cd_current_priority d" "cd_task d' = cd_task d"
    "cd_load_context d' = cd_load_context d"
    "same_outside (set (qlist q)) h h'" "\<And>a. core (h' a) = core (h a)"
proof -
  note dq = pause_dequeue_prio [OF rep ok(1) t]
  define h1 where "h1 = unlink_node next_of prev_of set_next set_prev t h"
  have "length (qlist q) < 4294967296" "length (qlist q) > 0" using ok(2) t by (auto simp: length_pos_if_in_set)
  then have "cp_total_threads (cd_priorities d p) = 1 \<longleftrightarrow> length (qlist q) = 1"
    using rep of_nat_eq_0_iff32 [of "length (qlist q) - 1"]
    by (cases "qlist q") (auto simp: prio_rep_def)
  moreover have "length (qlist q) = 1 \<longleftrightarrow> qlist (q_remove t q) = []"
    using t length_remove1 [of t "qlist q"] by (cases "qlist q") (auto simp: qlist_remove [OF ok(1)])
  ultimately have m: "cp_total_threads (cd_priorities d p) = 1 \<longleftrightarrow> qlist (q_remove t q) = []"
    by simp
  define prio1 where "prio1 = dequeue_prio h1 t (cd_priorities d p)"
  define d1 where "d1 = drop_count p (d\<lparr>cd_priorities := (cd_priorities d)(p := prio1)\<rparr>)"
  note dq = dq [folded h1_def, folded prio1_def]
  show ?thesis
  proof (rule that [of h1 "d1\<lparr>cd_total_threads := cd_total_threads d1 - 1\<rparr>"])
    show "pause_dequeue h d t = Ret (h1, d1\<lparr>cd_total_threads := cd_total_threads d1 - 1\<rparr>)"
      using p by (simp add: pause_dequeue_def Let_def h1_def prio1_def d1_def)
  qed (use dq m in \<open>simp_all add: d1_def h1_def\<close>)
qed

text \<open>Requeuing: the front thread of the current priority goes to the rear.\<close>

lemma timer_requeue_rep:
  assumes p: "unat (td_priority (h t)) = p" "p < 8"
    and rep: "prio_rep h (cd_priorities d p) q" and ok: "q_ok q" "length (qlist q) < 2 ^ 32"
    and t: "fst q = t # ts"
  obtains h' d' where
    "timer_requeue p frame h d t = Ret (h', d')"
    "prio_rep h' (cd_priorities d' p) (q_rotate q)"
    "\<And>k. k \<noteq> p \<Longrightarrow> cd_priorities d' k = cd_priorities d k"
    "cd_priority_mask d' = (if length (qlist q) = 1
       then BIT_ARRAY_SET (BIT_ARRAY_RESET (cd_priority_mask d) p) p
       else BIT_ARRAY_SET (cd_priority_mask d) p)"
    "cd_total_threads d' = cd_total_threads d"
    "cd_current_priority d' = cd_current_priority d" "cd_task d' = cd_task d"
    "cd_load_context d' = cd_load_context d"
    "same_outside (set (qlist q)) h h'"
    "\<And>a. core (h' a) = core (if a = t then update_priority_quantum ((h t)\<lparr>td_context := frame\<rparr>) else h a)"
proof -
  let ?prio = "cd_priorities d p"
  define f where "f = (\<lambda>td. update_priority_quantum (td\<lparr>td_context := frame\<rparr>))"
  define h1 where "h1 = upd_thread t f h"
  define d1 where "d1 = drop_count p (d\<lparr>cd_priorities := (cd_priorities d)
               (p := ?prio\<lparr>cp_active_tail := next_of h t\<rparr>)\<rparr>)"
  have kl: "keeps_links f" by (simp add: f_def keeps_links_def update_priority_quantum_def)
  have a: "dlist (next_of h) (prev_of h) (cp_active_tail ?prio) (t # ts)"
    and e: "dlist (next_of h) (prev_of h) (cp_expired_tail ?prio) (snd q)"
    and hd: "cp_expired_head ?prio = last (NULL # snd q)"
    and tot: "cp_total_threads ?prio = word_of_nat (length (qlist q))"
    using rep t by (auto simp: prio_rep_def)
  have dist: "distinct (t # ts @ snd q)" using ok t by (simp add: q_ok_def qlist_def)
  have t0: "t \<noteq> NULL" using dlist_nonnull [OF a] by simp
  have ql: "qlist q = t # ts @ snd q" using t by (simp add: qlist_def)
  have nt: "next_of h t = hd (ts @ [NULL])" using a by (simp add: dlist_def)
  have p1: "cd_priorities d1 p = ?prio\<lparr>cp_active_tail := next_of h t,
      cp_total_threads := word_of_nat (length (ts @ snd q))\<rparr>"
    using tot ql by (simp add: d1_def)
  have l32: "length (ts @ snd q) < 2 ^ 32" using ok(2) ql by simp
  have tz: "cp_total_threads (cd_priorities d1 p) = 0 \<longleftrightarrow> ts = [] \<and> snd q = []"
    using of_nat_eq_0_iff32 [OF l32] by (simp add: p1)
  have rp: "unat (td_real_priority (h1 t)) = p"
    using p by (simp add: h1_def upd_thread_def f_def update_priority_quantum_def)
  have e1: "dlist (next_of h1) (prev_of h1) (cp_expired_tail (cd_priorities d1 p)) (snd q)"
    "cp_expired_head (cd_priorities d1 p) = last (NULL # snd q)" "t \<notin> set (snd q)"
    using e hd dist kl by (simp_all add: h1_def p1)
  obtain h2 prio2 where add: "add_expired h1 d1 t = Ret (h2, d1\<lparr>cd_priorities := (cd_priorities d1)(p := prio2),
        cd_priority_mask := BIT_ARRAY_SET (cd_priority_mask d1) p\<rparr>)"
    "cp_total_threads prio2 = cp_total_threads (cd_priorities d1 p) + 1"
    and ne: "cp_total_threads (cd_priorities d1 p) \<noteq> 0 \<Longrightarrow>
       dlist (next_of h2) (prev_of h2) (cp_expired_tail prio2) (snd q @ [t]) \<and>
       cp_expired_head prio2 = t \<and> cp_active_tail prio2 = cp_active_tail (cd_priorities d1 p)"
    and em: "cp_total_threads (cd_priorities d1 p) = 0 \<Longrightarrow>
       cp_active_tail prio2 = t \<and> cp_expired_tail prio2 = cp_expired_tail (cd_priorities d1 p) \<and>
       cp_expired_head prio2 = cp_expired_head (cd_priorities d1 p) \<and>
       next_of h2 t = NULL \<and> prev_of h2 t = NULL"
    and fr: "\<And>a. a \<notin> set (snd q) \<Longrightarrow> a \<noteq> t \<Longrightarrow> next_of h2 a = next_of h1 a"
      "\<And>a. a \<noteq> t \<Longrightarrow> prev_of h2 a = prev_of h1 a" "\<And>a. core (h2 a) = core (h1 a)"
      "all_next_of h2 = all_next_of h1" "all_prev_of h2 = all_prev_of h1"
    using add_expired_heap [OF rp p(2) refl e1(1,2) t0 e1(3)] by blast
  define act where "act = cp_active_tail prio2"
  define h' where "h' = (if act \<noteq> NULL then set_prev act NULL h2 else h2)"
  define prio' where "prio' = (if act \<noteq> NULL then prio2 else prio2\<lparr>cp_active_tail := cp_expired_tail prio2,
      cp_expired_tail := NULL, cp_expired_head := NULL\<rparr>)"
  define d' where "d' = d1\<lparr>cd_priorities := (cd_priorities d1)(p := prio'),
        cd_priority_mask := BIT_ARRAY_SET (cd_priority_mask d1) p\<rparr>"
  have run: "timer_requeue p frame h d t = Ret (h', d')"
    using add by (auto simp: timer_requeue_def Let_def h1_def [unfolded f_def, symmetric]
        d1_def [symmetric] h'_def d'_def prio'_def act_def)
  have core': "core (h' a) = core (h1 a)" for a using fr(3) by (simp add: h'_def)
  have so: "same_outside (set (qlist q)) h h'"
  proof -
    have "act \<in> set (qlist q)" if "act \<noteq> NULL"
      using that ne em nt ql tz by (cases "cp_total_threads (cd_priorities d1 p) = 0"; cases ts)
        (auto simp: act_def p1)
    then show ?thesis using fr kl ql
      by (auto simp: same_outside_def h'_def run_links.field_laws h1_def)
  qed
  have len: "cp_total_threads prio' = word_of_nat (length (qlist (q_rotate q)))"
    using add(2) tot by (simp add: prio'_def p1 qlist_rotate [OF ok(1)] ql)
  have links: "next_of h' = next_of h2" "prev_of h' = (if act \<noteq> NULL then (prev_of h2)(act := NULL) else prev_of h2)"
    by (simp_all add: h'_def run_links.field_laws)
  have "prio_rep h' prio' (q_rotate q)"
  proof (cases "ts = [] \<and> snd q = []")
    case True
    with em tz t0 e1 t len links show ?thesis
      by (simp add: prio_rep_def q_rotate_def q_norm_def act_def prio'_def dlist_def p1)
  next
    case False
    then have n2: "dlist (next_of h2) (prev_of h2) (cp_expired_tail prio2) (snd q @ [t])"
      "cp_expired_head prio2 = t" "act = hd (ts @ [NULL])"
      using ne tz nt by (auto simp: p1 act_def)
    show ?thesis
    proof (cases ts)
      case Nil
      with n2 t len links show ?thesis by (simp add: prio_rep_def q_rotate_def q_norm_def prio'_def)
    next
      case (Cons u us)
      have u: "act = u" "u \<noteq> NULL" using n2(3) Cons dlist_nonnull [OF a, of u] by auto
      have agree: "b \<noteq> t \<and> b \<notin> set (snd q)" if "b \<in> set (u # us)" for b
        using that dist Cons by auto
      have "dlist (next_of h') (prev_of h') u (u # us)"
      proof (rule dlist_behead [OF a [unfolded Cons]])
        show "next_of h' b = next_of h b" if "b \<in> set (u # us)" for b
          using agree [OF that] fr(1) kl by (simp add: links h1_def)
        show "prev_of h' b = prev_of h b" if "b \<in> set us" for b
          using that agree [of b] fr(2) kl dist Cons u by (auto simp: links h1_def)
        show "prev_of h' u = NULL" using u by (simp add: links)
      qed
      moreover have "dlist (next_of h') (prev_of h') (cp_expired_tail prio2) (snd q @ [t])"
        using n2(1) u agree [of u] by (subst dlist_cong [where n' = "next_of h2" and p' = "prev_of h2"])
          (auto simp: links)
      ultimately show ?thesis using u n2 t len Cons
        by (simp add: prio_rep_def q_rotate_def q_norm_def prio'_def act_def [symmetric])
    qed
  qed
  moreover have "cp_total_threads ?prio = 1 \<longleftrightarrow> length (qlist q) = 1"
    using tz p1 ql tot of_nat_eq_0_iff32 [OF l32] by simp
  ultimately show ?thesis
    using run so core' by (intro that [of h' d']) (auto simp: d'_def d1_def h1_def upd_thread_def f_def)
qed

end
