(* ===== verification/Scheduler.thy ===== *)
theory Scheduler
  imports Run_Queue
begin

text \<open>
  The scheduler, \<open>schedule.c\<close> with \<open>x86_64/schedule.inc\<close> and
  \<open>x86_64/schedule.c\<close>: the kernel state, the operations on threads, the timer and
  task interrupt handlers. An operation is a function of the CPU that runs it and the state.
  A request to another CPU is sent as an interrupt, so the other CPU's handler runs, on the
  registers it finds there, inside the requesting operation.
\<close>

section \<open>State\<close>

abbreviation THREAD_MAGIC :: u64 where
  "THREAD_MAGIC \<equiv> 0x3141592653589793"

abbreviation STACK_OVERRUN_MAGIC :: u64 where
  "STACK_OVERRUN_MAGIC \<equiv> 0x2384626433832795"

abbreviation TASK_RETRY_COUNT :: nat where
  "TASK_RETRY_COUNT \<equiv> 3"

text \<open>What boot leaves fixed: the number of CPUs, the boot CPU, the address of two labels.\<close>

record machine =
  m_cpus :: nat
  m_bsp_cpu :: nat
  m_halt :: u64
  m_exit_thread :: u64

record thread_list =
  tl_total_threads :: i32
  tl_tail :: ptr

record kstate = hw +
  ks_thr :: theap
  ks_mem :: "ptr \<Rightarrow> u64"
  ks_cpus :: "nat \<Rightarrow> cpu_data"
  ks_all :: thread_list
  ks_inactive :: thread_list
  ks_stamp :: i32
  ks_ticks :: u64
  ks_timer_ticks :: "nat \<Rightarrow> u64"
  ks_timer_proc :: ptr
  ks_ctx :: "nat \<Rightarrow> thread_context"
  ks_fs_base :: "nat \<Rightarrow> ptr"
  ks_eoi :: "nat \<Rightarrow> nat"

definition on_thread :: "ptr \<Rightarrow> (thread_data \<Rightarrow> thread_data) \<Rightarrow> 'z kstate_scheme \<Rightarrow> 'z kstate_scheme" where
  "on_thread a f s = s\<lparr>ks_thr := upd_thread a f (ks_thr s)\<rparr>"

definition on_cpu :: "nat \<Rightarrow> (cpu_data \<Rightarrow> cpu_data) \<Rightarrow> 'z kstate_scheme \<Rightarrow> 'z kstate_scheme" where
  "on_cpu c f s = s\<lparr>ks_cpus := (ks_cpus s)(c := f (ks_cpus s c))\<rparr>"

definition on_task :: "nat \<Rightarrow> (cpu_task \<Rightarrow> cpu_task) \<Rightarrow> 'z kstate_scheme \<Rightarrow> 'z kstate_scheme" where
  "on_task c f s = on_cpu c (\<lambda>d. d\<lparr>cd_task := f (cd_task d)\<rparr>) s"

section \<open>Processor access, \<open>schedule.inc\<close>\<close>

definition get_thread_ptr :: "nat \<Rightarrow> 'z kstate_scheme \<Rightarrow> ptr" where
  "get_thread_ptr c s = ks_fs_base s c"

definition set_thread_ptr :: "nat \<Rightarrow> ptr \<Rightarrow> 'z kstate_scheme \<Rightarrow> 'z kstate_scheme" where
  "set_thread_ptr c t s = s\<lparr>ks_fs_base := (ks_fs_base s)(c := t)\<rparr>"

definition get_thread :: "nat \<Rightarrow> 'z kstate_scheme \<Rightarrow> stamp_id" where
  "get_thread c s =
     (let thread = get_thread_ptr c s in
      if thread \<noteq> NULL then get_stamp_id thread (td_stamp (ks_thr s thread)) else 0)"

definition load_thread_context :: "thread_context \<Rightarrow> ptr \<Rightarrow> 'z kstate_scheme \<Rightarrow> 'z kstate_scheme" where
  "load_thread_context frame t s = on_thread t (\<lambda>td. td\<lparr>td_context := frame\<rparr>) s"

definition store_thread_context :: "ptr \<Rightarrow> 'z kstate_scheme \<Rightarrow> thread_context" where
  "store_thread_context t s = td_context (ks_thr s t)"

definition store_halt :: "machine \<Rightarrow> thread_context \<Rightarrow> thread_context" where
  "store_halt E frame = frame\<lparr>fr_rip := m_halt E\<rparr>"

definition RFLAGS_IF :: u64 where
  "RFLAGS_IF = push_bit 9 1"

definition store_int_enabled :: "thread_context \<Rightarrow> thread_context" where
  "store_int_enabled frame = frame\<lparr>fr_rflags := fr_rflags frame OR RFLAGS_IF\<rparr>"

definition set_eoi :: "nat \<Rightarrow> 'z kstate_scheme \<Rightarrow> 'z kstate_scheme" where
  "set_eoi c s = s\<lparr>ks_eoi := (ks_eoi s)(c := Suc (ks_eoi s c))\<rparr>"

section \<open>Attaching and detaching\<close>

definition set_thread_context ::
  "machine \<Rightarrow> ptr \<Rightarrow> u64 \<Rightarrow> u64 \<Rightarrow> 'z kstate_scheme \<Rightarrow> err_code \<times> 'z kstate_scheme" where
  "set_thread_context E thread proc input s =
     (let td = ks_thr s thread in
      if td_stack td = NULL \<or> td_stack_size td < THREAD_STACK_SIZE_MIN then (ERR_BAD_INPUT, s)
      else
        let top = td_stack td + td_stack_size td - 8;
            s1 = s\<lparr>ks_mem := (ks_mem s)(td_stack td := STACK_OVERRUN_MAGIC, top := m_exit_thread E)\<rparr> in
        (ERR_NONE, on_thread thread (\<lambda>td. td\<lparr>td_context := (td_context td)
           \<lparr>fr_rflags := RFLAGS_IF, fr_cs := push_bit 3 1, fr_ss := push_bit 3 2, fr_rsp := top,
            fr_rip := proc, fr_rdi := input\<rparr>\<rparr>) s1))"

text \<open>The two list insertions of \<open>attach_thread\<close>, lines 87 to 91 and 93 to 97.\<close>

definition push_all :: "ptr \<Rightarrow> 'z kstate_scheme \<Rightarrow> 'z kstate_scheme" where
  "push_all t s =
     s\<lparr>ks_thr := link_front set_all_next set_all_prev (tl_tail (ks_all s)) t (ks_thr s),
       ks_all := \<lparr>tl_total_threads = tl_total_threads (ks_all s) + 1, tl_tail = t\<rparr>\<rparr>"

definition push_inactive :: "ptr \<Rightarrow> 'z kstate_scheme \<Rightarrow> 'z kstate_scheme" where
  "push_inactive t s =
     s\<lparr>ks_thr := link_front set_next set_prev (tl_tail (ks_inactive s)) t (ks_thr s),
       ks_inactive := \<lparr>tl_total_threads = tl_total_threads (ks_inactive s) + 1, tl_tail = t\<rparr>\<rparr>"

definition attach_thread ::
  "machine \<Rightarrow> nat \<Rightarrow> ptr \<Rightarrow> bool \<Rightarrow> 'z kstate_scheme \<Rightarrow> err_code \<times> stamp_id option \<times> 'z kstate_scheme" where
  "attach_thread E c thread want_id s =
     (let td = ks_thr s thread in
      if td_magic td = THREAD_MAGIC then (ERR_BAD_STATE, None, s)
      else if td_stack td = NULL \<or> td_stack_size td < THREAD_STACK_SIZE_MIN \<or>
              ks_mem s (td_stack td) \<noteq> STACK_OVERRUN_MAGIC \<or>
              CONFIG_SCHEDULER_PRIORITIES \<le> unat (td_priority td)
      then (ERR_BAD_INPUT, None, s)
      else
        let bsf = find_mask_bsf (td_affinity td) THREAD_AFFINITY_SIZE in
        if bsf = -1 \<or> int (m_cpus E) \<le> bsf then (ERR_BAD_INPUT, None, s)
        else
          let s1 = on_thread thread (\<lambda>td. td\<lparr>td_prev := NULL, td_all_prev := NULL,
                     td_state := THREAD_STATE_PAUSED, td_run_time := 0\<rparr>) s;
              s2 = snd (acquire_spinlock c Lock_all 0 s1);
              s3 = snd (acquire_spinlock c Lock_inactive 0 s2);
              (st, g) = assign_stamp_id_stamp (ks_stamp s3);
              s4 = (on_thread thread (\<lambda>td. td\<lparr>td_magic := THREAD_MAGIC, td_stamp := st\<rparr>) s3)
                     \<lparr>ks_stamp := g\<rparr>;
              s5 = push_inactive thread (push_all thread s4);
              s6 = release_spinlock c Lock_all (release_spinlock c Lock_inactive s5) in
          (ERR_NONE,
           if want_id then Some (get_stamp_id thread (td_stamp (ks_thr s6 thread))) else None, s6))"

text \<open>The removals from the two lists: lines 115 to 121 (and 187 to 193), lines 123 to 129.\<close>

definition remove_inactive :: "ptr \<Rightarrow> 'z kstate_scheme \<Rightarrow> 'z kstate_scheme" where
  "remove_inactive t s =
     (let h = unlink_node next_of prev_of set_next set_prev t (ks_thr s); l = ks_inactive s in
      s\<lparr>ks_thr := h,
        ks_inactive := \<lparr>tl_total_threads = tl_total_threads l - 1,
                        tl_tail = (if tl_tail l = t then next_of h t else tl_tail l)\<rparr>\<rparr>)"

definition remove_all :: "ptr \<Rightarrow> 'z kstate_scheme \<Rightarrow> 'z kstate_scheme" where
  "remove_all t s =
     (let h = unlink_node all_next_of all_prev_of set_all_next set_all_prev t (ks_thr s);
          l = ks_all s in
      s\<lparr>ks_thr := h,
        ks_all := \<lparr>tl_total_threads = tl_total_threads l - 1,
                   tl_tail = (if tl_tail l = t then all_next_of h t else tl_tail l)\<rparr>\<rparr>)"

definition find_thread :: "stamp_id \<Rightarrow> 'z kstate_scheme \<Rightarrow> err_code + ptr" where
  "find_thread i s =
     WITH_STAMP_ID (\<lambda>a. td_magic (ks_thr s a)) (\<lambda>a. td_stamp (ks_thr s a)) THREAD_MAGIC i"

definition detach_thread ::
  "nat \<Rightarrow> stamp_id \<Rightarrow> 'z kstate_scheme \<Rightarrow> err_code \<times> ptr option \<times> 'z kstate_scheme" where
  "detach_thread c i s =
     (let s1 = snd (acquire_spinlock c Lock_all 0 s);
          s2 = snd (acquire_spinlock c Lock_inactive 0 s1);
          (err, out, s3) =
            (case find_thread i s2 of
               Inl e \<Rightarrow> (e, None, s2)
             | Inr thrd \<Rightarrow>
                 (if td_state (ks_thr s2 thrd) = THREAD_STATE_PAUSED \<or>
                     td_state (ks_thr s2 thrd) = THREAD_STATE_STOPPED then
                    (ERR_NONE, Some thrd,
                     on_thread thrd (\<lambda>td. td\<lparr>td_magic := 0, td_prev := NULL, td_next := NULL,
                         td_all_prev := NULL, td_all_next := NULL\<rparr>)
                       (remove_all thrd (remove_inactive thrd s2)))
                  else (ERR_BAD_STATE, None, s2))) in
      (err, out, release_spinlock c Lock_all (release_spinlock c Lock_inactive s3)))"

section \<open>Interrupt handlers\<close>

definition do_resume_task :: "nat \<Rightarrow> 'z kstate_scheme \<Rightarrow> 'z kstate_scheme outcome" where
  "do_resume_task c s =
     (let thread = ct_thread (cd_task (ks_cpus s c));
          s1 = on_thread thread (\<lambda>td. td\<lparr>td_state := THREAD_STATE_RUNNING, td_cpu := word_of_nat c\<rparr>) s in
      obind (add_expired (ks_thr s1) (ks_cpus s1 c) thread) (\<lambda>(h, d).
      let d1 = d\<lparr>cd_total_threads := cd_total_threads d + 1\<rparr>;
          d2 = (if cd_total_threads d = 0 then
                  d1\<lparr>cd_current_priority := int (unat (td_real_priority (h thread))),
                     cd_load_context := True\<rparr>
                else d1) in
      Ret (on_task c (\<lambda>k. k\<lparr>ct_error := ERR_NONE\<rparr>) (s1\<lparr>ks_thr := h, ks_cpus := (ks_cpus s1)(c := d2)\<rparr>))))"

text \<open>
  A handler's frame is \<open>None\<close> when it is called directly, with a null pointer, rather than
  by an interrupt.
\<close>

definition do_pause_task ::
  "machine \<Rightarrow> nat \<Rightarrow> thread_context option \<Rightarrow> 'z kstate_scheme \<Rightarrow>
   (thread_context option \<times> 'z kstate_scheme) outcome" where
  "do_pause_task E c frame s =
     (let d = ks_cpus s c; thrd = ct_thread (cd_task d); td = ks_thr s thrd in
      if td_state td \<noteq> THREAD_STATE_RUNNING \<or> unat (td_cpu td) \<noteq> c then
        Ret (frame, on_task c (\<lambda>k. k\<lparr>ct_error := ERR_NOT_FOUND\<rparr>) s)
      else if \<not> (0 \<le> cd_current_priority d \<and> cd_current_priority d < int CONFIG_SCHEDULER_PRIORITIES)
      then Undef
      else
        let current = (cp_active_tail (cd_priorities d (nat (cd_current_priority d))) = thrd) in
        obind (pause_dequeue (ks_thr s) d thrd) (\<lambda>(h, d1).
        let s1 = s\<lparr>ks_thr := h, ks_cpus := (ks_cpus s)(c := d1)\<rparr> in
        if \<not> current then Ret (frame, on_task c (\<lambda>k. k\<lparr>ct_error := ERR_NONE\<rparr>) s1)
        else
          let d2 = (if cd_total_threads d1 \<noteq> 0 then
                      d1\<lparr>cd_current_priority := find_mask_bsf (cd_priority_mask d1) PRIORITY_MASK_SIZE,
                         cd_load_context := True\<rparr>
                    else d1);
              s2 = set_thread_ptr c NULL (s1\<lparr>ks_cpus := (ks_cpus s1)(c := d2)\<rparr>) in
          case frame of
            Some f \<Rightarrow>
              Ret (Some (store_halt E f),
                   on_task c (\<lambda>k. k\<lparr>ct_error := ERR_NONE\<rparr>) (load_thread_context f thrd s2))
          | None \<Rightarrow>
              Ret (None, on_task c (\<lambda>k. k\<lparr>ct_type := CPU_TASK_SELF_HALT, ct_error := ERR_NONE\<rparr>) s2)))"

definition do_self_halt_task ::
  "machine \<Rightarrow> nat \<Rightarrow> thread_context option \<Rightarrow> 'z kstate_scheme \<Rightarrow>
   (thread_context option \<times> 'z kstate_scheme) outcome" where
  "do_self_halt_task E c frame s =
     (case frame of
        None \<Rightarrow> Undef
      | Some f \<Rightarrow>
          let task = cd_task (ks_cpus s c);
              f1 = store_int_enabled f;
              s1 = load_thread_context f1 (ct_thread task) s;
              f2 = store_halt E f1;
              s2 = set_outer_spinlock c False s1;
              s3 = release_spinlock_int Lock_inactive (release_spinlock_int (Lock_cpu c) s2);
              s4 = (if ct_lock task \<noteq> Lock_null then release_spinlock_int (ct_lock task) s3 else s3) in
          Ret (Some f2, s4))"

definition handle_task_int ::
  "machine \<Rightarrow> nat \<Rightarrow> thread_context option \<Rightarrow> 'z kstate_scheme \<Rightarrow>
   (thread_context option \<times> 'z kstate_scheme) outcome" where
  "handle_task_int E c frame s =
     obind
       (case ct_type (cd_task (ks_cpus s c)) of
          CPU_TASK_RESUME \<Rightarrow> obind (do_resume_task c s) (\<lambda>s1. Ret (frame, s1))
        | CPU_TASK_PAUSE \<Rightarrow> do_pause_task E c frame s
        | CPU_TASK_SELF_HALT \<Rightarrow> do_self_halt_task E c frame s
        | Other_task _ \<Rightarrow> Ret (frame, on_task c (\<lambda>k. k\<lparr>ct_error := ERR_BAD_INPUT\<rparr>) s))
       (\<lambda>(f, s1). Ret (f, set_eoi c s1))"

text \<open>
  The interrupt service routine around a handler (\<open>DEFINE_ISR_WRAPPER\<close>, and the interrupt
  gate it hangs on): interrupts go off, the registers are saved in a frame, the handler may
  change it, and \<open>iretq\<close> continues with what it holds, the interrupt flag included.
\<close>

definition run_isr ::
  "nat \<Rightarrow> (thread_context option \<Rightarrow> 'z kstate_scheme \<Rightarrow> (thread_context option \<times> 'z kstate_scheme) outcome) \<Rightarrow>
   'z kstate_scheme \<Rightarrow> 'z kstate_scheme outcome" where
  "run_isr c handler s =
     obind (handler (Some (ks_ctx s c)) (cli c s)) (\<lambda>(frame, s1).
     case frame of
       None \<Rightarrow> Undef
     | Some f \<Rightarrow> Ret (s1\<lparr>ks_ctx := (ks_ctx s1)(c := f),
                        hw_if := (hw_if s1)(c := bit (fr_rflags f) 9)\<rparr>))"

section \<open>Requests to a CPU\<close>

definition run_cpu_task ::
  "machine \<Rightarrow> nat \<Rightarrow> int \<Rightarrow> cpu_task \<Rightarrow> 'z kstate_scheme \<Rightarrow> (cpu_task \<times> 'z kstate_scheme) outcome" where
  "run_cpu_task E c cpu task s =
     (if cpu < 0 \<or> int CONFIG_MAX_CPUS \<le> cpu then Undef else
      let k = nat cpu;
          s1 = snd (acquire_spinlock c (Lock_cpu k) 0 s);
          s2 = on_task k (\<lambda>_. task) s1 in
      obind
        (if c = k then obind (handle_task_int E c None s2) (\<lambda>(_, s3). Ret s3)
         else
           let s3 = on_task k (\<lambda>t. t\<lparr>ct_error := ERR_BUSY\<rparr>) s2 in
           if k < m_cpus E \<and> hw_if s3 k then run_isr k (handle_task_int E k) s3 else Hang)
        (\<lambda>s4. let task1 = cd_task (ks_cpus s4 k) in
          if ct_error task1 = ERR_BUSY then Hang
          else Ret (task1, if ct_type task1 \<noteq> CPU_TASK_SELF_HALT
                           then release_spinlock c (Lock_cpu k) s4 else s4)))"

fun find_least_loaded_from ::
  "'z kstate_scheme \<Rightarrow> u64 list \<Rightarrow> nat list \<Rightarrow> int \<Rightarrow> i32 \<Rightarrow> int" where
  "find_least_loaded_from s affinity [] cpu tot = cpu"
| "find_least_loaded_from s affinity (i # is) cpu tot =
     (if BIT_ARRAY_GET affinity i \<and> cd_total_threads (ks_cpus s i) <s tot
      then find_least_loaded_from s affinity is (int i) (cd_total_threads (ks_cpus s i))
      else find_least_loaded_from s affinity is cpu tot)"

definition find_least_loaded_cpu :: "machine \<Rightarrow> 'z kstate_scheme \<Rightarrow> u64 list \<Rightarrow> int" where
  "find_least_loaded_cpu E s affinity =
     find_least_loaded_from s affinity [0..<m_cpus E] (-1) 0x7FFFFFFF"

definition resume_thread ::
  "machine \<Rightarrow> nat \<Rightarrow> stamp_id \<Rightarrow> 'z kstate_scheme \<Rightarrow> (err_code \<times> 'z kstate_scheme) outcome" where
  "resume_thread E c i s =
     (let s1 = snd (acquire_spinlock c Lock_inactive 0 s) in
      obind
        (case find_thread i s1 of
           Inl e \<Rightarrow> Ret (e, s1)
         | Inr thrd \<Rightarrow>
             (if td_state (ks_thr s1 thrd) = THREAD_STATE_PAUSED then
                let s2 = remove_inactive thrd s1;
                    s3 = on_thread thrd (\<lambda>td. update_priority_quantum
                           (td\<lparr>td_real_priority := td_priority td, td_quantum := 0\<rparr>)) s2;
                    task = \<lparr>ct_type = CPU_TASK_RESUME, ct_error = ERR_NONE, ct_thread = thrd,
                            ct_lock = Lock_null\<rparr> in
                obind (run_cpu_task E c (find_least_loaded_cpu E s3 (td_affinity (ks_thr s3 thrd))) task s3)
                  (\<lambda>(_, s4). Ret (ERR_NONE, s4))
              else Ret (ERR_BAD_STATE, s1)))
        (\<lambda>(err, s5). Ret (err, release_spinlock c Lock_inactive s5)))"

section \<open>Pausing and stopping\<close>

text \<open>The result: the error, and whether this CPU halted in the thread's place.\<close>

definition deactivate_running ::
  "machine \<Rightarrow> nat \<Rightarrow> bool \<Rightarrow> ptr \<Rightarrow> u64 \<Rightarrow> lock_ref \<Rightarrow> 'z kstate_scheme \<Rightarrow>
   (err_code \<times> bool \<times> 'z kstate_scheme) outcome" where
  "deactivate_running E c stop thread output lock_to_release s =
     (let task = \<lparr>ct_type = CPU_TASK_PAUSE, ct_error = ERR_NONE, ct_thread = thread,
                  ct_lock = lock_to_release\<rparr> in
      obind (run_cpu_task E c (uint (td_cpu (ks_thr s thread))) task s) (\<lambda>(task1, s1).
      if ct_error task1 \<noteq> ERR_NONE then Ret (ct_error task1, False, s1)
      else
        let s2 = on_thread thread (\<lambda>td. td\<lparr>td_prev := NULL, td_state :=
                   (if stop then THREAD_STATE_STOPPED else THREAD_STATE_PAUSED)\<rparr>) s1;
            s3 = push_inactive thread s2;
            s4 = (if stop then on_thread thread (\<lambda>td. td\<lparr>td_output := output\<rparr>) s3 else s3) in
        if ct_type task1 = CPU_TASK_SELF_HALT
        then obind (run_isr c (handle_task_int E c) s4) (\<lambda>s5. Ret (ERR_NONE, True, s5))
        else Ret (ERR_NONE, False, s4)))"

fun deactivate_loop ::
  "nat \<Rightarrow> machine \<Rightarrow> nat \<Rightarrow> bool \<Rightarrow> ptr \<Rightarrow> u64 \<Rightarrow> lock_ref \<Rightarrow> err_code \<times> bool \<times> 'z kstate_scheme \<Rightarrow>
   (err_code \<times> bool \<times> 'z kstate_scheme) outcome" where
  "deactivate_loop 0 E c stop thrd output lk r = Ret r"
| "deactivate_loop (Suc n) E c stop thrd output lk (err, halted, s) =
     obind
       (case td_state (ks_thr s thrd) of
          THREAD_STATE_RUNNING \<Rightarrow>
            obind (deactivate_running E c stop thrd output lk s)
              (\<lambda>(e, h, s1). Ret (e, halted \<or> h, s1))
        | THREAD_STATE_PAUSED \<Rightarrow>
            (if stop then
               Ret (ERR_NONE, halted, on_thread thrd
                 (\<lambda>td. td\<lparr>td_state := THREAD_STATE_STOPPED, td_output := output\<rparr>) s)
             else Ret (ERR_BAD_STATE, halted, s))
        | THREAD_STATE_STOPPED \<Rightarrow> Ret (ERR_BAD_STATE, halted, s)
        | THREAD_STATE_UNKNOWN \<Rightarrow> Ret (err, halted, s))
       (\<lambda>(e, h, s1). if e \<noteq> ERR_NOT_FOUND then Ret (e, h, s1)
                    else deactivate_loop n E c stop thrd output lk (e, h, s1))"

definition deactivate_thread ::
  "machine \<Rightarrow> nat \<Rightarrow> bool \<Rightarrow> stamp_id \<Rightarrow> u64 \<Rightarrow> lock_ref \<Rightarrow> 'z kstate_scheme \<Rightarrow>
   (err_code \<times> 'z kstate_scheme) outcome" where
  "deactivate_thread E c stop i output lock_to_release s =
     (let s1 = snd (acquire_spinlock c Lock_inactive 0 s) in
      obind
        (case find_thread i s1 of
           Inl e \<Rightarrow> Ret (e, False, s1)
         | Inr thrd \<Rightarrow>
             obind (deactivate_loop TASK_RETRY_COUNT E c stop thrd output lock_to_release
                      (ERR_NONE, False, s1))
               (\<lambda>(e, h, s2). Ret (if e = ERR_NOT_FOUND then ERR_BUSY else e, h, s2)))
        (\<lambda>(err, self_halt, s3).
          Ret (err, if \<not> self_halt then release_spinlock c Lock_inactive s3 else s3)))"

definition pause_thread ::
  "machine \<Rightarrow> nat \<Rightarrow> stamp_id \<Rightarrow> 'z kstate_scheme \<Rightarrow> (err_code \<times> 'z kstate_scheme) outcome" where
  "pause_thread E c i s = deactivate_thread E c False i 0 Lock_null s"

definition stop_thread ::
  "machine \<Rightarrow> nat \<Rightarrow> stamp_id \<Rightarrow> u64 \<Rightarrow> 'z kstate_scheme \<Rightarrow> (err_code \<times> 'z kstate_scheme) outcome" where
  "stop_thread E c i output s = deactivate_thread E c True i output Lock_null s"

definition pause_this_thread ::
  "machine \<Rightarrow> nat \<Rightarrow> lock_ref \<Rightarrow> 'z kstate_scheme \<Rightarrow> (err_code \<times> 'z kstate_scheme) outcome" where
  "pause_this_thread E c lock_to_release s =
     deactivate_thread E c False (get_thread c s) 0 lock_to_release s"

section \<open>The timer\<close>

definition get_ticks :: "'z kstate_scheme \<Rightarrow> u64" where
  "get_ticks s = ks_ticks s"

definition get_timer_ticks :: "nat \<Rightarrow> 'z kstate_scheme \<Rightarrow> u64" where
  "get_timer_ticks c s = ks_timer_ticks s c"

definition get_timer_proc :: "'z kstate_scheme \<Rightarrow> ptr" where
  "get_timer_proc s = ks_timer_proc s"

definition set_timer_proc :: "ptr \<Rightarrow> 'z kstate_scheme \<Rightarrow> 'z kstate_scheme" where
  "set_timer_proc proc s = s\<lparr>ks_timer_proc := proc\<rparr>"

definition set_timer_ticks :: "nat \<Rightarrow> u64 \<Rightarrow> 'z kstate_scheme \<Rightarrow> 'z kstate_scheme" where
  "set_timer_ticks c ticks s = s\<lparr>ks_timer_ticks := (ks_timer_ticks s)(c := ticks)\<rparr>"

text \<open>
  The timer procedure is called through a function pointer: \<open>call\<close> is what calling the
  procedure at an address does, on a CPU, with its argument.
\<close>

definition handle_timer ::
  "machine \<Rightarrow> (ptr \<Rightarrow> nat \<Rightarrow> u64 \<Rightarrow> 'z kstate_scheme \<Rightarrow> 'z kstate_scheme outcome) \<Rightarrow> nat \<Rightarrow>
   'z kstate_scheme \<Rightarrow> 'z kstate_scheme outcome" where
  "handle_timer E call c s =
     (let s1 = (if c = m_bsp_cpu E then s\<lparr>ks_ticks := ks_ticks s + 1\<rparr> else s) in
      if ks_timer_ticks s1 c \<noteq> 0 \<and> ks_timer_ticks s1 c \<le> ks_ticks s1 then
        let prev_ticks = ks_timer_ticks s1 c;
            s2 = set_outer_spinlock c True (set_timer_ticks c 0 s1) in
        obind (call (ks_timer_proc s2) c prev_ticks s2) (\<lambda>s3. Ret (set_outer_spinlock c False s3))
      else Ret s1)"

text \<open>The part of the timer handler before its label \<open>exit\<close>.\<close>

definition timer_schedule ::
  "nat \<Rightarrow> thread_context \<Rightarrow> 'z kstate_scheme \<Rightarrow> (thread_context \<times> 'z kstate_scheme) outcome" where
  "timer_schedule c frame s =
     (let d = ks_cpus s c in
      if cd_total_threads d = 0 then Ret (frame, s)
      else if \<not> (0 \<le> cd_current_priority d \<and> cd_current_priority d < int CONFIG_SCHEDULER_PRIORITIES)
      then Undef
      else
        let cur = nat (cd_current_priority d);
            thrd = cp_active_tail (cd_priorities d cur) in
        if cd_load_context d then
          Ret (store_thread_context thrd s,
               on_cpu c (\<lambda>d. d\<lparr>cd_load_context := False\<rparr>) (set_thread_ptr c thrd s))
        else if ks_mem s (td_stack (ks_thr s thrd)) \<noteq> STACK_OVERRUN_MAGIC then Halted
        else
          let s1 = on_thread thrd (\<lambda>td. td\<lparr>td_run_time := td_run_time td + 1\<rparr>) s;
              highest = find_mask_bsf (cd_priority_mask d) PRIORITY_MASK_SIZE in
          if cd_current_priority d \<le> highest \<and> td_quantum (ks_thr s1 thrd) \<noteq> 0 then
            Ret (frame, on_thread thrd (\<lambda>td. td\<lparr>td_quantum := td_quantum td - 1\<rparr>) s1)
          else
            obind (timer_requeue cur frame (ks_thr s1) d thrd) (\<lambda>(h, d1).
            if \<not> (0 \<le> highest \<and> highest < int CONFIG_SCHEDULER_PRIORITIES) then Undef
            else
              let d2 = d1\<lparr>cd_current_priority := highest\<rparr>;
                  s2 = s1\<lparr>ks_thr := h, ks_cpus := (ks_cpus s1)(c := d2)\<rparr>;
                  thrd2 = cp_active_tail (cd_priorities d2 (nat highest)) in
              if thrd2 \<noteq> thrd then Ret (store_thread_context thrd2 s2, set_thread_ptr c thrd2 s2)
              else Ret (frame, s2)))"

definition handle_timer_int ::
  "machine \<Rightarrow> (ptr \<Rightarrow> nat \<Rightarrow> u64 \<Rightarrow> 'z kstate_scheme \<Rightarrow> 'z kstate_scheme outcome) \<Rightarrow> nat \<Rightarrow>
   thread_context option \<Rightarrow> 'z kstate_scheme \<Rightarrow> (thread_context option \<times> 'z kstate_scheme) outcome" where
  "handle_timer_int E call c frame s =
     (case frame of
        None \<Rightarrow> Undef
      | Some f \<Rightarrow>
          obind (timer_schedule c f s) (\<lambda>(f1, s1).
          obind (handle_timer E call c s1) (\<lambda>s2. Ret (Some f1, set_eoi c s2))))"

end
