(* ===== verification/Page_Map.thy ===== *)
theory Page_Map
  imports Bits Stamp_Id
begin

text \<open>
  The page map (\<open>x86_64/page_map.c\<close>): entries of 2-megabyte pages in an array of page
  tables at \<open>__page_map\<close>, found by their virtual address.
\<close>

section \<open>Entries, \<open>cpu.h\<close>\<close>

record page_desc =
  pd_present :: bool
  pd_write :: bool
  pd_nonsys :: bool
  pd_pwt :: bool
  pd_pcd :: bool
  pd_accessed :: bool
  pd_dirty :: bool
  pd_ps_pat :: bool
  pd_global :: bool
  pd_avail0 :: "3 word"
  pd_address0 :: "20 word"
  pd_address1 :: "20 word"
  pd_avail1 :: "11 word"
  pd_noexec :: bool

definition zero_desc :: page_desc where
  "zero_desc = \<lparr>pd_present = False, pd_write = False, pd_nonsys = False, pd_pwt = False, pd_pcd = False,
     pd_accessed = False, pd_dirty = False, pd_ps_pat = False, pd_global = False, pd_avail0 = 0,
     pd_address0 = 0, pd_address1 = 0, pd_avail1 = 0, pd_noexec = False\<rparr>"

text \<open>The first byte of an entry, which the code accesses as a whole.\<close>

definition low_bits :: "page_desc \<Rightarrow> bool list" where
  "low_bits d = [pd_present d, pd_write d, pd_nonsys d, pd_pwt d, pd_pcd d, pd_accessed d, pd_dirty d, pd_ps_pat d]"

definition low_byte :: "page_desc \<Rightarrow> u8" where
  "low_byte d = horner_sum of_bool 2 (low_bits d)"

definition set_low_byte :: "u8 \<Rightarrow> page_desc \<Rightarrow> page_desc" where
  "set_low_byte b d = d\<lparr>pd_present := bit b 0, pd_write := bit b 1, pd_nonsys := bit b 2, pd_pwt := bit b 3,
     pd_pcd := bit b 4, pd_accessed := bit b 5, pd_dirty := bit b 6, pd_ps_pat := bit b 7\<rparr>"

lemma bit_low_byte: "bit (low_byte d) n \<longleftrightarrow> n < 8 \<and> low_bits d ! n"
proof -
  have "length (low_bits d) = 8" by (simp add: low_bits_def)
  then show ?thesis unfolding low_byte_def bit_horner_sum_bit_word_iff by simp
qed

section \<open>Operations\<close>

abbreviation PAGE_SIZE :: u64 where "PAGE_SIZE \<equiv> 0x200000"
abbreviation PAGE_TABLE_DESCS :: u64 where "PAGE_TABLE_DESCS \<equiv> 512"
abbreviation PAGE_TABLE_SIZE :: u64 where "PAGE_TABLE_SIZE \<equiv> 4096"
abbreviation PAGE_DESC_SIZE :: u64 where "PAGE_DESC_SIZE \<equiv> 8"
abbreviation CONFIG_ADDR_SPACE_SIZE :: nat where "CONFIG_ADDR_SPACE_SIZE \<equiv> 2 ^ 40"
abbreviation FLAGS_MASK :: i32 where "FLAGS_MASK \<equiv> 0x7A"

definition PAGE_MAP_PDS :: nat where
  "PAGE_MAP_PDS = SIZE_ELEMENTS CONFIG_ADDR_SPACE_SIZE (512 * 0x200000)"

definition PAGE_MAP_PDPTS :: nat where
  "PAGE_MAP_PDPTS = SIZE_ELEMENTS PAGE_MAP_PDS 512"

definition PAGE_MAP_SIZE :: nat where
  "PAGE_MAP_SIZE = (PAGE_MAP_PDS + PAGE_MAP_PDPTS + 1) * 4096"

text \<open>The entries of the map, by their address.\<close>

type_synonym descs = "u64 \<Rightarrow> page_desc"

definition get_page_desc :: "u64 \<Rightarrow> u64 \<Rightarrow> u64" where
  "get_page_desc page_map virt_addr =
     (let entry = virt_addr div PAGE_SIZE;
          table = entry div PAGE_TABLE_DESCS;
          table1 = table + (2 + table div PAGE_TABLE_DESCS);
          entry1 = entry mod PAGE_TABLE_DESCS in
      page_map + table1 * PAGE_TABLE_SIZE + entry1 * PAGE_DESC_SIZE)"

text \<open>
  The bit-field \<open>address0\<close> has 20 bits, so C widens it to \<open>int\<close>: the shift is one of
  signed 32-bit integers, and its result is widened again with its sign.
\<close>

definition get_page_mapping :: "u64 \<Rightarrow> descs \<Rightarrow> u64 \<Rightarrow> (u64 \<times> i32 \<times> i32) option" where
  "get_page_mapping page_map m virt_addr =
     (let pdesc = m (get_page_desc page_map virt_addr) in
      if \<not> pd_present pdesc then None
      else Some
        (push_bit 32 (ucast (pd_address1 pdesc)) + scast (push_bit 12 (ucast (pd_address0 pdesc) :: i32)),
         (ucast (low_byte pdesc) AND FLAGS_MASK) OR push_bit 7 (of_bool (pd_noexec pdesc)),
         ucast (pd_avail0 pdesc) OR push_bit 3 (ucast (pd_avail1 pdesc))))"

definition map_desc :: "u64 \<Rightarrow> i32 \<Rightarrow> i32 \<Rightarrow> page_desc" where
  "map_desc phys_addr flags avail_data =
     (let pdesc = zero_desc\<lparr>pd_present := True, pd_ps_pat := True, pd_avail0 := ucast avail_data,
            pd_address0 := ucast ((ucast (drop_bit 12 phys_addr) :: u32) AND NOT 511),
            pd_address1 := ucast (ucast (drop_bit 32 phys_addr) :: u32),
            pd_avail1 := ucast (signed_drop_bit 3 avail_data)\<rparr>;
          pdesc1 = set_low_byte (low_byte pdesc OR ucast (flags AND FLAGS_MASK)) pdesc in
      pdesc1\<lparr>pd_noexec := odd (signed_drop_bit 7 flags)\<rparr>)"

definition map_page :: "u64 \<Rightarrow> u64 \<Rightarrow> u64 \<Rightarrow> i32 \<Rightarrow> i32 \<Rightarrow> descs \<Rightarrow> descs" where
  "map_page page_map virt_addr phys_addr flags avail_data m =
     m(get_page_desc page_map virt_addr := map_desc phys_addr flags avail_data)"

definition unmap_page :: "u64 \<Rightarrow> u64 \<Rightarrow> descs \<Rightarrow> descs" where
  "unmap_page page_map virt_addr m = m(get_page_desc page_map virt_addr := zero_desc)"

section \<open>Where an entry is\<close>

definition desc_index :: "nat \<Rightarrow> nat" where
  "desc_index page = (page div 512 + 2 + page div 512 div 512) * 512 + page mod 512"

lemma word_of_quotients:
  fixes v :: u64
  shows "v div 0x200000 = word_of_nat (unat v div 0x200000)"
    "v div 0x200000 div 512 = word_of_nat (unat v div 0x200000 div 512)"
    "v div 0x200000 div 512 div 512 = word_of_nat (unat v div 0x200000 div 512 div 512)"
    "v div 0x200000 mod 512 = word_of_nat (unat v div 0x200000 mod 512)"
proof -
  have u: "unat (v div 0x200000) = unat v div 0x200000" "unat (v div 0x200000 div 512) = unat v div 0x200000 div 512"
    "unat (v div 0x200000 div 512 div 512) = unat v div 0x200000 div 512 div 512"
    "unat (v div 0x200000 mod 512) = unat v div 0x200000 mod 512"
    by (simp_all add: unat_div unat_mod)
  have g: "w = word_of_nat (unat w)" for w :: u64 by simp
  show "v div 0x200000 = word_of_nat (unat v div 0x200000)" by (subst g, subst u(1), rule refl)
  show "v div 0x200000 div 512 = word_of_nat (unat v div 0x200000 div 512)" by (subst g, subst u(2), rule refl)
  show "v div 0x200000 div 512 div 512 = word_of_nat (unat v div 0x200000 div 512 div 512)" by (subst g, subst u(3), rule refl)
  show "v div 0x200000 mod 512 = word_of_nat (unat v div 0x200000 mod 512)" by (subst g, subst u(4), rule refl)
qed

lemma get_page_desc_index: "get_page_desc b v = b + 8 * word_of_nat (desc_index (unat v div 0x200000))"
proof -
  have a: "b + (word_of_nat x + (2 + word_of_nat y)) * 4096 + word_of_nat z * 8 =
      b + 8 * (word_of_nat ((x + 2 + y) * 512 + z) :: u64)" for x y z :: nat
    by (simp add: algebra_simps)
  show ?thesis
    unfolding get_page_desc_def Let_def desc_index_def
    unfolding word_of_quotients(3)
    unfolding word_of_quotients(2)
    unfolding word_of_quotients(4) by (rule a)
qed

lemma desc_index_div: "desc_index p div 512 = p div 512 + 2 + p div 512 div 512" "desc_index p mod 512 = p mod 512"
proof -
  show "desc_index p div 512 = p div 512 + 2 + p div 512 div 512" by (simp add: desc_index_def)
  show "desc_index p mod 512 = p mod 512" by (simp only: desc_index_def mod_mult_self3 mod_mod_trivial)
qed

lemma map_size: "PAGE_MAP_PDS = 1024" "PAGE_MAP_PDPTS = 2" "PAGE_MAP_SIZE = 1027 * 4096"
  by (simp_all add: PAGE_MAP_SIZE_def PAGE_MAP_PDS_def PAGE_MAP_PDPTS_def SIZE_ELEMENTS_def)

lemma desc_index_less:
  assumes "page < 2 ^ 19"
  shows "desc_index page < 1027 * 512" "2 * 512 \<le> desc_index page"
proof -
  have "page div 512 < 1024" using assms by (simp add: less_mult_imp_div_less)
  then have "page div 512 div 512 < 2" by (simp add: less_mult_imp_div_less)
  then have "desc_index page div 512 < 1027" using \<open>page div 512 < 1024\<close> unfolding desc_index_div by simp
  then show "desc_index page < 1027 * 512" by (simp add: div_less_iff_less_mult)
  have "2 \<le> desc_index page div 512" unfolding desc_index_div by simp
  then show "2 * 512 \<le> desc_index page" by (simp add: less_eq_div_iff_mult_less_eq)
qed

lemma desc_index_inj: "desc_index p = desc_index q \<longleftrightarrow> p = q"
proof
  assume e: "desc_index p = desc_index q"
  have mono: "x + x div 512 < y + y div 512" if "x < y" for x y :: nat
    using that div_le_mono [of x y 512] by simp
  have "p div 512 + p div 512 div 512 = q div 512 + q div 512 div 512"
    using desc_index_div(1) [of p] desc_index_div(1) [of q] e by simp
  then have "p div 512 = q div 512" using mono [of "p div 512" "q div 512"] mono [of "q div 512" "p div 512"] by linarith
  moreover have "p mod 512 = q mod 512" using e desc_index_div(2) by metis
  ultimately show "p = q" by (metis div_mult_mod_eq)
qed simp

section \<open>What is mapped\<close>

lemma bit_FLAGS_MASK: "bit (FLAGS_MASK :: i32) n \<longleftrightarrow> n = 1 \<or> n = 3 \<or> n = 4 \<or> n = 5 \<or> n = 6"
proof (cases "n < 7")
  case True
  then have "n = 0 \<or> n = 1 \<or> n = 2 \<or> n = 3 \<or> n = 4 \<or> n = 5 \<or> n = 6" by arith
  then show ?thesis by (elim disjE) simp_all
next
  case False
  then have "\<not> bit (0x7A :: i32) n" using bit_less_exp [of "0x7A :: i32" 7 n] by auto
  with False show ?thesis by auto
qed

lemma low_byte_set [simp]: "low_byte (set_low_byte b d) = b"
proof (rule bit_word_eqI)
  fix n assume "n < LENGTH(8)"
  then have "n = 0 \<or> n = 1 \<or> n = 2 \<or> n = 3 \<or> n = 4 \<or> n = 5 \<or> n = 6 \<or> n = 7" by (simp, arith)
  then show "bit (low_byte (set_low_byte b d)) n \<longleftrightarrow> bit b n"
    unfolding bit_low_byte by (elim disjE) (simp_all add: low_bits_def set_low_byte_def)
qed

definition mapped_byte :: "i32 \<Rightarrow> u8" where
  "mapped_byte flags = low_byte (zero_desc\<lparr>pd_present := True, pd_ps_pat := True\<rparr>) OR ucast (flags AND FLAGS_MASK)"

lemma bit_mapped_byte: "bit (mapped_byte flags) n \<longleftrightarrow> n = 0 \<or> n = 7 \<or> (bit flags n \<and> bit FLAGS_MASK n)"
proof (cases "n < 8")
  case True
  then have "n = 0 \<or> n = 1 \<or> n = 2 \<or> n = 3 \<or> n = 4 \<or> n = 5 \<or> n = 6 \<or> n = 7" by arith
  then show ?thesis
    unfolding mapped_byte_def bit_or_iff bit_low_byte
    by (elim disjE) (simp_all add: low_bits_def zero_desc_def bit_ucast_iff bit_and_iff bit_FLAGS_MASK)
next
  case False
  then have "\<not> bit (mapped_byte flags) n" using bit_imp_le_length [of "mapped_byte flags" n] by auto
  moreover have "\<not> bit (FLAGS_MASK :: i32) n" using False unfolding bit_FLAGS_MASK by auto
  ultimately show ?thesis using False by auto
qed

lemma map_desc_fields:
  "pd_present (map_desc phys flags av)" "low_byte (map_desc phys flags av) = mapped_byte flags"
  "pd_noexec (map_desc phys flags av) = bit flags 7"
  "pd_avail0 (map_desc phys flags av) = ucast av" "pd_avail1 (map_desc phys flags av) = ucast (signed_drop_bit 3 av)"
  "pd_address0 (map_desc phys flags av) = ucast ((ucast (drop_bit 12 phys) :: u32) AND NOT 511)"
  "pd_address1 (map_desc phys flags av) = ucast (ucast (drop_bit 32 phys) :: u32)"
proof -
  define pdesc where "pdesc = zero_desc\<lparr>pd_present := True, pd_ps_pat := True, pd_avail0 := ucast av,
            pd_address0 := ucast ((ucast (drop_bit 12 phys) :: u32) AND NOT 511),
            pd_address1 := ucast (ucast (drop_bit 32 phys) :: u32),
            pd_avail1 := ucast (signed_drop_bit 3 av)\<rparr>"
  have lb: "low_byte pdesc = low_byte (zero_desc\<lparr>pd_present := True, pd_ps_pat := True\<rparr>)"
    by (simp add: low_byte_def low_bits_def pdesc_def)
  have d: "map_desc phys flags av = (set_low_byte (mapped_byte flags) pdesc)\<lparr>pd_noexec := odd (signed_drop_bit 7 flags)\<rparr>"
    unfolding map_desc_def pdesc_def [symmetric] Let_def lb mapped_byte_def ..
  have lb2: "low_byte (x\<lparr>pd_noexec := b\<rparr>) = low_byte x" for x b by (simp add: low_byte_def low_bits_def)
  show "low_byte (map_desc phys flags av) = mapped_byte flags" unfolding d lb2 by simp
  show "pd_present (map_desc phys flags av)"
    unfolding d using bit_mapped_byte [of flags 0] by (simp add: set_low_byte_def)
  have "odd (signed_drop_bit 7 flags) \<longleftrightarrow> bit flags 7"
    by (simp add: bit_signed_drop_bit_iff flip: bit_0)
  then show "pd_noexec (map_desc phys flags av) = bit flags 7" unfolding d by simp
  show "pd_avail0 (map_desc phys flags av) = ucast av" "pd_avail1 (map_desc phys flags av) = ucast (signed_drop_bit 3 av)"
    "pd_address0 (map_desc phys flags av) = ucast ((ucast (drop_bit 12 phys) :: u32) AND NOT 511)"
    "pd_address1 (map_desc phys flags av) = ucast (ucast (drop_bit 32 phys) :: u32)"
    unfolding d by (simp_all add: set_low_byte_def pdesc_def)
qed

lemma bit_511: "bit (511 :: 'a::len word) n \<longleftrightarrow> n < 9 \<and> n < LENGTH('a)"
proof -
  have "(511 :: 'a word) = mask 9" by (simp add: mask_eq_exp_minus_1)
  then show ?thesis by (simp only: bit_mask_iff possible_bit_word) auto
qed

lemma bit_2M: "bit (0x1FFFFF :: 'a::len word) n \<longleftrightarrow> n < 21 \<and> n < LENGTH('a)"
proof -
  have "(0x1FFFFF :: 'a word) = mask 21" by (simp add: mask_eq_exp_minus_1)
  then show ?thesis by (simp only: bit_mask_iff possible_bit_word) auto
qed

lemma bit_int_masks: "bit (511 :: int) n \<longleftrightarrow> n < 9" "bit (0x1FFFFF :: int) n \<longleftrightarrow> n < 21"
proof -
  have "(511 :: int) = mask 9" "(0x1FFFFF :: int) = mask 21" by (simp_all add: mask_eq_exp_minus_1)
  then show "bit (511 :: int) n \<longleftrightarrow> n < 9" "bit (0x1FFFFF :: int) n \<longleftrightarrow> n < 21" by (simp_all only: bit_mask_iff) simp_all
qed

lemmas mask_bits = bit_511 bit_2M bit_int_masks

text \<open>The physical address an entry gives, and what \<open>get_page_mapping\<close> makes of it.\<close>

lemma addr0_bits:
  "push_bit 12 (ucast (ucast ((ucast (drop_bit 12 phys) :: u32) AND NOT 511) :: 20 word) :: i32) =
     ucast ((phys :: u64) AND NOT 0x1FFFFF)"
proof (rule bit_word_eqI)
  fix n assume "n < LENGTH(32)"
  then have n: "n < 32" by simp
  show "bit (push_bit 12 (ucast (ucast ((ucast (drop_bit 12 phys) :: u32) AND NOT 511) :: 20 word) :: i32)) n \<longleftrightarrow>
      bit (ucast (phys AND NOT 0x1FFFFF) :: i32) n"
    using n by (auto simp: bit_simps mask_bits)
qed

lemma scast_split:
  fixes w :: i32
  shows "(scast w :: u64) = (if bit w 31 then ucast w - 2 ^ 32 else ucast w)"
proof -
  have u: "uint w < 2 ^ 32" using unsigned_less [of w, where ?'a = int] by simp
  have "sint w = (if bit w 31 then uint w - 2 ^ 32 else uint w)"
    using u by (simp add: sint_uint signed_take_bit_eq_if_positive signed_take_bit_eq_if_negative bit_uint_iff
        take_bit_int_eq_self signed_take_bit_eq_take_bit_minus)
  then have "(word_of_int (sint w) :: u64) = (if bit w 31 then word_of_int (uint w) - 2 ^ 32 else word_of_int (uint w))"
    by simp
  then show ?thesis by (simp add: unsigned_of_int)
qed

lemma address_parts:
  fixes phys :: u64
  assumes "phys < 2 ^ 52"
  shows "push_bit 32 (ucast (ucast (ucast (drop_bit 32 phys) :: u32) :: 20 word)) + ucast (ucast (phys AND NOT 0x1FFFFF) :: i32) =
    phys AND NOT 0x1FFFFF"
proof -
  let ?h = "push_bit 32 (ucast (ucast (ucast (drop_bit 32 phys) :: u32) :: 20 word)) :: u64"
    and ?l = "ucast (ucast (phys AND NOT 0x1FFFFF) :: i32) :: u64"
  have b: "n < 52" if "bit phys n" for n using bit_less_exp [OF assms that] by simp
  have "?h AND ?l = 0" by (rule bit_word_eqI) (auto simp: bit_simps)
  then have "?h + ?l = ?h OR ?l" by (rule disjunctive_add_eq_or)
  also have "\<dots> = phys AND NOT 0x1FFFFF"
    by (rule bit_word_eqI) (auto simp: bit_simps mask_bits dest: b)
  finally show ?thesis .
qed

lemma bit_0xFA: "bit (0xFA :: i32) n \<longleftrightarrow> n = 7 \<or> bit FLAGS_MASK n"
proof (cases "n < 8")
  case True
  then have "n = 0 \<or> n = 1 \<or> n = 2 \<or> n = 3 \<or> n = 4 \<or> n = 5 \<or> n = 6 \<or> n = 7" by arith
  then show ?thesis by (elim disjE) simp_all
next
  case False
  then have "\<not> bit (0xFA :: i32) n" using bit_less_exp [of "0xFA :: i32" 8 n] by auto
  with False show ?thesis unfolding bit_FLAGS_MASK by auto
qed

lemma mapped_flags:
  "(ucast (mapped_byte flags) AND FLAGS_MASK) OR push_bit 7 (of_bool (bit flags 7)) = flags AND 0xFA"
proof (rule bit_word_eqI)
  fix n assume "n < LENGTH(32)"
  then have n: "n < 32" by simp
  have b7: "bit (push_bit 7 (of_bool b :: i32)) n \<longleftrightarrow> n = 7 \<and> b" for b
    using n unfolding bit_push_bit_iff bit_of_bool_iff possible_bit_word by auto
  have "bit (ucast (mapped_byte flags) :: i32) n \<longleftrightarrow> bit (mapped_byte flags) n" using n by (simp add: bit_ucast_iff)
  then show "bit ((ucast (mapped_byte flags) AND FLAGS_MASK) OR push_bit 7 (of_bool (bit flags 7))) n \<longleftrightarrow> bit (flags AND 0xFA) n"
    unfolding bit_or_iff bit_and_iff b7 bit_0xFA bit_mapped_byte by (auto simp: bit_FLAGS_MASK)
qed

lemma mapped_avail:
  "ucast (ucast (av :: i32) :: 3 word) OR push_bit 3 (ucast (ucast (signed_drop_bit 3 av) :: 11 word)) = av AND 0x3FFF"
proof -
  have m: "(0x3FFF :: i32) = mask 14" by (simp add: mask_eq_exp_minus_1)
  show ?thesis unfolding m by (rule bit_word_eqI) (auto simp: bit_simps)
qed

lemma get_map_page:
  assumes "phys < 2 ^ 52"
  shows "get_page_mapping b (map_page b virt phys flags av m) virt =
    Some (if bit phys 31 then (phys AND NOT 0x1FFFFF) - 2 ^ 32 else phys AND NOT 0x1FFFFF, flags AND 0xFA, av AND 0x3FFF)"
proof -
  have b31: "bit (ucast (phys AND NOT 0x1FFFFF) :: i32) 31 \<longleftrightarrow> bit phys 31" by (simp add: bit_simps mask_bits)
  show ?thesis
    unfolding get_page_mapping_def map_page_def Let_def fun_upd_same map_desc_fields addr0_bits scast_split b31 mapped_flags mapped_avail
    using address_parts [OF assms] map_desc_fields(1) by (simp add: diff_eq_eq)
qed

section \<open>Properties\<close>

lemma page_less: "virt < 2 ^ 40 \<Longrightarrow> unat (virt :: u64) div 0x200000 < 2 ^ 19"
  by (simp add: word_less_nat_alt less_mult_imp_div_less)

lemma desc_addr_inj:
  assumes "i < 2 ^ 61" "j < 2 ^ 61"
  shows "b + 8 * (word_of_nat i :: u64) = b + 8 * word_of_nat j \<longleftrightarrow> i = j"
proof -
  have "8 * (word_of_nat i :: u64) = word_of_nat (8 * i)" "8 * (word_of_nat j :: u64) = word_of_nat (8 * j)" by simp_all
  then show ?thesis using assms by (simp only: add_left_cancel) (simp add: word_of_nat_eq_iff take_bit_nat_eq_self del: of_nat_mult)
qed

lemma get_page_desc_eq_iff:
  assumes "v < 2 ^ 40" "w < 2 ^ 40"
  shows "get_page_desc b v = get_page_desc b w \<longleftrightarrow> v div PAGE_SIZE = w div PAGE_SIZE"
proof -
  have i: "desc_index (unat v div 0x200000) < 2 ^ 61" "desc_index (unat w div 0x200000) < 2 ^ 61"
    using desc_index_less(1) [OF page_less [OF assms(1)]] desc_index_less(1) [OF page_less [OF assms(2)]] by simp_all
  show ?thesis
    unfolding get_page_desc_index desc_addr_inj [OF i] desc_index_inj by (simp add: word_unat_eq_iff unat_div)
qed

text \<open>For every address of the 40-bit address space the entry \<open>get_page_desc\<close> finds
  lies in the page map's page directories, past the two upper levels' tables, and two addresses
  share an entry exactly when they are on the same page.\<close>

lemma page_desc_in_map:
  assumes "virt < 2 ^ 40" "virt' < 2 ^ 40"
  shows "(\<exists>i. get_page_desc page_map virt = page_map + 8 * word_of_nat i \<and> 2 * 4096 \<le> 8 * i \<and> 8 * i + 8 \<le> PAGE_MAP_SIZE) \<and>
    (get_page_desc page_map virt = get_page_desc page_map virt' \<longleftrightarrow> virt div PAGE_SIZE = virt' div PAGE_SIZE)"
proof
  show "\<exists>i. get_page_desc page_map virt = page_map + 8 * word_of_nat i \<and> 2 * 4096 \<le> 8 * i \<and> 8 * i + 8 \<le> PAGE_MAP_SIZE"
    using get_page_desc_index [of page_map virt] desc_index_less [OF page_less [OF assms(1)]]
    by (intro exI [of _ "desc_index (unat virt div 0x200000)"]) (simp add: map_size)
qed (rule get_page_desc_eq_iff [OF assms])

lemma page_desc_in_map_example:
  "get_page_desc 0x200000 0xFEE00000 \<noteq> get_page_desc 0x200000 0x100000"
proof -
  have "(0xFEE00000 :: u64) < 2 ^ 40" "(0x100000 :: u64) < 2 ^ 40" by simp_all
  from page_desc_in_map [OF this, of "0x200000"] show ?thesis by simp
qed

text \<open>C32: What is mapped can be read back: after \<open>map_page\<close> of a physical address below
  2^52 whose bit 31 is clear, \<open>get_page_mapping\<close> returns the address, rounded down to a page, the flags the
  interface names and the 14 available bits; after \<open>unmap_page\<close> it returns nothing; the other
  pages of the address space are not affected by either.\<close>

theorem map_page_roundtrip:
  assumes "virt < 2 ^ 40" "virt' < 2 ^ 40" "phys < 2 ^ 52" "\<not> bit phys 31"
  shows "get_page_mapping page_map (map_page page_map virt phys flags avail m) virt =
      Some (phys AND NOT 0x1FFFFF, flags AND 0xFA, avail AND 0x3FFF) \<and>
    get_page_mapping page_map (unmap_page page_map virt m) virt = None \<and>
    (virt' div PAGE_SIZE \<noteq> virt div PAGE_SIZE \<longrightarrow>
      get_page_mapping page_map (map_page page_map virt phys flags avail m) virt' = get_page_mapping page_map m virt' \<and>
      get_page_mapping page_map (unmap_page page_map virt m) virt' = get_page_mapping page_map m virt')"
proof -
  have "get_page_mapping page_map (unmap_page page_map virt m) virt = None"
    by (simp add: get_page_mapping_def unmap_page_def zero_desc_def)
  then show ?thesis
    using get_map_page [OF assms(3), of page_map virt flags avail m] assms(4) get_page_desc_eq_iff [OF assms(2,1), of page_map]
    by (auto simp: get_page_mapping_def map_page_def unmap_page_def)
qed

theorem map_page_roundtrip_witness:
  "get_page_mapping 0x200000 (map_page 0x200000 0x40000000 0x40000000 0x1A 5 (\<lambda>_. zero_desc)) 0x40000000 =
    Some (0x40000000, 0x1A, 5)"
proof -
  have "(0x40000000 :: u64) < 2 ^ 40" "(0 :: u64) < 2 ^ 40" "(0x40000000 :: u64) < 2 ^ 52" "\<not> bit (0x40000000 :: u64) 31"
    by simp_all
  from map_page_roundtrip [OF this, of "0x200000" "0x1A" 5 "\<lambda>_. zero_desc"] show ?thesis by simp
qed

text \<open>C40: A defect of \<open>get_page_mapping\<close>: for a physical address whose bit 31 is set, such as
  the local APIC's, the shift of the 20-bit field is a signed one, and the address reported is
  4 gigabytes below the mapped one.\<close>

theorem page_mapping_sign_extended:
  assumes "phys < 2 ^ 52" "bit phys 31"
  shows "get_page_mapping page_map (map_page page_map virt phys flags avail m) virt =
      Some ((phys AND NOT 0x1FFFFF) - 2 ^ 32, flags AND 0xFA, avail AND 0x3FFF)"
  using get_map_page [OF assms(1)] assms(2) by simp

theorem page_mapping_sign_extended_witness:
  "get_page_mapping 0x200000 (map_page 0x200000 0xFEE00000 0xFEE00000 0x1A 0 (\<lambda>_. zero_desc)) 0xFEE00000 =
    Some (0xFFFFFFFFFEE00000, 0x1A, 0)"
proof -
  have "(0xFEE00000 :: u64) < 2 ^ 52" "bit (0xFEE00000 :: u64) 31" by simp_all
  from page_mapping_sign_extended [OF this, of "0x200000" "0xFEE00000" "0x1A" 0 "\<lambda>_. zero_desc"] show ?thesis by simp
qed

end
