(* ===== verification/Boot_Map.thy ===== *)
theory Boot_Map
  imports Page_Map
begin

text \<open>
  The page map the 32-bit boot code builds (\<open>x86_64/boot32.c\<close>): the tables of the three
  levels follow each other in one array, which the loops fill table by table.
\<close>

section \<open>Definitions\<close>

definition set_page_desc :: "bool \<Rightarrow> bool \<Rightarrow> u64 \<Rightarrow> page_desc \<Rightarrow> page_desc" where
  "set_page_desc present page address d =
     (if present then
        d\<lparr>pd_present := True, pd_write := True, pd_ps_pat := page,
          pd_address0 := ucast (ucast (drop_bit 12 address) :: u32),
          pd_address1 := ucast (ucast (drop_bit 32 address) :: u32)\<rparr>
      else zero_desc)"

definition put_page_desc :: "u64 \<Rightarrow> bool \<Rightarrow> bool \<Rightarrow> u64 \<Rightarrow> descs \<Rightarrow> descs" where
  "put_page_desc a present page address m = m(a := set_page_desc present page address (m a))"

text \<open>The innermost loop, over the 512 entries of a page directory.\<close>

definition fill_pd :: "u64 \<Rightarrow> u64 \<Rightarrow> u64 \<Rightarrow> descs \<times> u64 \<Rightarrow> descs \<times> u64" where
  "fill_pd first_page last_page pd s =
     foldl (\<lambda>(m, page) pdi.
         (put_page_desc (pd + 8 * word_of_nat pdi) (first_page \<le> page \<and> page \<le> last_page) True (page * PAGE_SIZE) m,
          page + 1)) s [0..<512]"

text \<open>
  The middle loop, over the entries of a page directory pointer table from \<open>pdpti\<close> on. The
  result says whether it has returned from the whole function.
\<close>

function fill_pdpt ::
  "u64 \<Rightarrow> u64 \<Rightarrow> u64 \<Rightarrow> u64 \<Rightarrow> nat \<Rightarrow> u64 \<Rightarrow> descs \<Rightarrow> u64 \<Rightarrow> bool \<times> u64 \<times> descs \<times> u64" where
  "fill_pdpt first_page last_page total_pages pdpt pdpti next_table m page =
     (if pdpti < 512 then
        let m1 = put_page_desc (pdpt + 8 * word_of_nat pdpti) True False next_table m;
            pd = next_table; next_table1 = next_table + PAGE_TABLE_SIZE;
            (m2, page2) = fill_pd first_page last_page pd (m1, page) in
        if total_pages \<le> page2 then (True, next_table1, m2, page2)
        else fill_pdpt first_page last_page total_pages pdpt (Suc pdpti) next_table1 m2 page2
      else (False, next_table, m, page))"
  by auto
termination by (relation "measure (\<lambda>(_, _, _, _, pdpti, _). 512 - pdpti)") auto

declare fill_pdpt.simps [simp del]

text \<open>The outer loop has no condition of its own.\<close>

partial_function (option) fill_pml4 ::
  "u64 \<Rightarrow> u64 \<Rightarrow> u64 \<Rightarrow> u64 \<Rightarrow> nat \<Rightarrow> u64 \<Rightarrow> descs \<Rightarrow> u64 \<Rightarrow> descs option" where
  "fill_pml4 first_page last_page total_pages pml4 pml4i next_table m page =
     (let m1 = put_page_desc (pml4 + 8 * word_of_nat pml4i) True False next_table m;
          pdpt = next_table; next_table1 = next_table + PAGE_TABLE_SIZE;
          (ret, next_table2, m2, page2) = fill_pdpt first_page last_page total_pages pdpt 0 next_table1 m1 page in
      if ret then Some m2
      else fill_pml4 first_page last_page total_pages pml4 (Suc pml4i) next_table2 m2 page2)"

definition create_page_map :: "u64 \<Rightarrow> u64 \<Rightarrow> u64 \<Rightarrow> u64 \<Rightarrow> descs \<Rightarrow> descs option" where
  "create_page_map mp addr_space_size mapped_addr mapped_size m =
     (let total_pages = (addr_space_size + PAGE_SIZE - 1) div PAGE_SIZE;
          last_page = (mapped_addr + mapped_size - 1) div PAGE_SIZE;
          first_page = mapped_addr div PAGE_SIZE in
      fill_pml4 first_page last_page total_pages mp 0 (mp + PAGE_TABLE_SIZE) m 0)"

section \<open>The layout\<close>

text \<open>The address of entry \<open>i\<close> of the array, the numbers of the tables.\<close>

definition ent :: "u64 \<Rightarrow> nat \<Rightarrow> u64" where
  "ent b i = b + 8 * word_of_nat i"

definition pdpt_table :: "nat \<Rightarrow> nat" where
  "pdpt_table a = 1 + 513 * a"

definition pd_table :: "nat \<Rightarrow> nat" where
  "pd_table d = d + 2 + d div 512"

lemma ent_inj: "i < 2 ^ 61 \<Longrightarrow> j < 2 ^ 61 \<Longrightarrow> ent b i = ent b j \<longleftrightarrow> i = j"
  unfolding ent_def by (rule desc_addr_inj)

lemma ent_add: "ent b (i + j) = ent b i + 8 * word_of_nat j"
  by (simp add: ent_def algebra_simps)

lemma ent_table: "ent b (512 * Suc t) = ent b (512 * t) + PAGE_TABLE_SIZE"
  by (simp add: ent_def algebra_simps)

lemma pd_table_split: "j < 512 \<Longrightarrow> pd_table (512 * a + j) = pdpt_table a + 1 + j"
  by (simp add: pd_table_def pdpt_table_def)

lemma desc_index_pd: "desc_index page = 512 * pd_table (page div 512) + page mod 512"
  by (simp add: desc_index_def pd_table_def)

lemma desc_index_at: "k < 512 \<Longrightarrow> desc_index (512 * d + k) = 512 * pd_table d + k"
  by (simp add: desc_index_pd)

text \<open>What an entry of the array is, by its number.\<close>

datatype entry_kind = Pml4 nat | Pdpt nat | Leaf nat

definition kind :: "nat \<Rightarrow> entry_kind" where
  "kind i =
     (if i < 512 then Pml4 i
      else let t = i div 512 - 1; a = t div 513; r = t mod 513; k = i mod 512 in
        if r = 0 then Pdpt (512 * a + k) else Leaf (512 * (512 * a + (r - 1)) + k))"

definition pdpt_index :: "nat \<Rightarrow> nat" where
  "pdpt_index d = 512 * pdpt_table (d div 512) + d mod 512"

lemma kind_pml4: "a < 512 \<Longrightarrow> kind a = Pml4 a"
  by (simp add: kind_def)

lemma kind_pdpt: "kind (pdpt_index d) = Pdpt d"
proof -
  have i: "pdpt_index d div 512 = pdpt_table (d div 512)" "pdpt_index d mod 512 = d mod 512"
    unfolding pdpt_index_def by (simp, simp only: mod_mult_self4 mod_mod_trivial)
  have t: "pdpt_table (d div 512) - 1 = 513 * (d div 512)" by (simp add: pdpt_table_def)
  have "\<not> pdpt_index d < 512" by (simp add: pdpt_index_def pdpt_table_def)
  then show ?thesis unfolding kind_def Let_def i t by simp
qed

lemma kind_leaf: "kind (desc_index p) = Leaf p"
proof -
  let ?d = "p div 512"
  have e: "pd_table ?d - 1 = 513 * (?d div 512) + (1 + ?d mod 512)"
    unfolding pd_table_def using div_mult_mod_eq [of ?d 512] by linarith
  have t: "(pd_table ?d - 1) div 513 = ?d div 512" "(pd_table ?d - 1) mod 513 = 1 + ?d mod 512"
    unfolding e by (subst div_mult_self4, simp, simp) (simp only: mod_mult_self4, simp)
  have i: "desc_index p div 512 = pd_table ?d" by (simp add: desc_index_pd)
  have "\<not> desc_index p < 512" by (simp add: desc_index_pd pd_table_def)
  then show ?thesis unfolding kind_def Let_def i desc_index_div(2) t by simp
qed

lemma kind_inj: "kind i = kind j \<Longrightarrow> i = j"
proof -
  have inv: "(case kind i of Pml4 a \<Rightarrow> a | Pdpt d \<Rightarrow> pdpt_index d | Leaf p \<Rightarrow> desc_index p) = i" for i
  proof (cases "i < 512")
    case False
    define t where "t = i div 512 - 1"
    have t: "i div 512 = Suc t" using False by (simp add: t_def Suc_diff_le less_eq_div_iff_mult_less_eq)
    have i: "i = 512 * Suc t + i mod 512" using div_mult_mod_eq [of i 512] t by simp
    have m: "t = 513 * (t div 513) + t mod 513" by simp
    show ?thesis
    proof (cases "t mod 513 = 0")
      case True
      then have "kind i = Pdpt (512 * (t div 513) + i mod 512)" using False unfolding kind_def Let_def t_def [symmetric] by simp
      moreover have "pdpt_index (512 * (t div 513) + i mod 512) = i"
        using i m True unfolding pdpt_index_def pdpt_table_def by simp
      ultimately show ?thesis by simp
    next
      case r: False
      let ?d = "512 * (t div 513) + (t mod 513 - 1)"
      have d: "t mod 513 - 1 < 512" using mod_less_divisor [of 513 t] by linarith
      have "kind i = Leaf (512 * ?d + i mod 512)" using False r unfolding kind_def Let_def t_def [symmetric] by simp
      moreover have "desc_index (512 * ?d + i mod 512) = 512 * pd_table ?d + i mod 512" by (rule desc_index_at) simp
      moreover have "pd_table ?d = Suc t" unfolding pd_table_split [OF d] pdpt_table_def using r m by linarith
      ultimately show ?thesis using i by simp
    qed
  qed (simp add: kind_def)
  then show "i = j" if "kind i = kind j" using that by metis
qed

text \<open>
  What the map holds once \<open>np\<close> entries of the first level, \<open>nd\<close> of the second and \<open>nl\<close> of the
  third are set, the others being as before.
\<close>

definition leaf :: "u64 \<Rightarrow> u64 \<Rightarrow> nat \<Rightarrow> page_desc \<Rightarrow> page_desc" where
  "leaf first_page last_page p =
     set_page_desc (first_page \<le> word_of_nat p \<and> word_of_nat p \<le> last_page) True (word_of_nat p * PAGE_SIZE)"

definition content :: "u64 \<Rightarrow> u64 \<Rightarrow> u64 \<Rightarrow> nat \<Rightarrow> nat \<Rightarrow> nat \<Rightarrow> entry_kind \<Rightarrow> page_desc \<Rightarrow> page_desc" where
  "content b first_page last_page np nd nl e d0 =
     (case e of
        Pml4 a \<Rightarrow> if a < np then set_page_desc True False (ent b (512 * pdpt_table a)) d0 else d0
      | Pdpt d \<Rightarrow> if d < nd then set_page_desc True False (ent b (512 * pd_table d)) d0 else d0
      | Leaf p \<Rightarrow> if p < nl then leaf first_page last_page p d0 else d0)"

definition filled :: "u64 \<Rightarrow> u64 \<Rightarrow> u64 \<Rightarrow> descs \<Rightarrow> nat \<Rightarrow> nat \<Rightarrow> nat \<Rightarrow> descs \<Rightarrow> bool" where
  "filled b f l m0 np nd nl m \<longleftrightarrow>
     (\<forall>i<2 ^ 60. m (ent b i) = content b f l np nd nl (kind i) (m0 (ent b i)))"

lemma filled_upd:
  assumes f: "filled b f l m0 np nd nl m" and j: "j < 2 ^ 60"
    and other: "\<And>e. e \<noteq> kind j \<Longrightarrow> content b f l np' nd' nl' e = content b f l np nd nl e"
    and here: "content b f l np nd nl (kind j) = (\<lambda>d. d)" "content b f l np' nd' nl' (kind j) = g"
  shows "filled b f l m0 np' nd' nl' (m(ent b j := g (m (ent b j))))"
  unfolding filled_def
proof (intro allI impI)
  fix i :: nat assume i: "i < 2 ^ 60"
  show "(m(ent b j := g (m (ent b j)))) (ent b i) = content b f l np' nd' nl' (kind i) (m0 (ent b i))"
  proof (cases "i = j")
    case True
    have "m (ent b j) = m0 (ent b j)" using f j here(1) by (simp add: filled_def)
    then show ?thesis using True here(2) by simp
  next
    case False
    then have "ent b i \<noteq> ent b j" using ent_inj [of i j b] i j by simp
    moreover have "kind i \<noteq> kind j" using kind_inj False by blast
    ultimately show ?thesis using f i other by (simp add: filled_def)
  qed
qed

lemma pows: "(2::nat) ^ 20 = 1048576" "(2::nat) ^ 30 = 1073741824" "(2::nat) ^ 60 = 1152921504606846976"
  by simp_all

lemma set_pml4:
  assumes "filled b f l m0 np nd nl m" "np < 512"
  shows "filled b f l m0 (Suc np) nd nl (put_page_desc (ent b np) True False (ent b (512 * pdpt_table np)) m)"
  unfolding put_page_desc_def
  by (rule filled_upd [OF assms(1)])
    (use assms(2) in \<open>auto simp: kind_pml4 content_def fun_eq_iff less_Suc_eq split: entry_kind.splits\<close>)

lemma set_pdpt:
  assumes "filled b f l m0 np nd nl m" "nd < 2 ^ 20"
  shows "filled b f l m0 np (Suc nd) nl (put_page_desc (ent b (pdpt_index nd)) True False (ent b (512 * pd_table nd)) m)"
  unfolding put_page_desc_def
proof (rule filled_upd [OF assms(1)])
  have "nd div 512 \<le> nd" "nd mod 512 < 512" by simp_all
  moreover have "512 * (1 + 513 * x) + z < 1152921504606846976" if "x \<le> nd" "z < 512" "nd < 1048576" for x z :: nat
    using that by simp
  ultimately show "pdpt_index nd < 2 ^ 60" using assms(2) unfolding pdpt_index_def pdpt_table_def pows by blast
qed (auto simp: kind_pdpt content_def fun_eq_iff less_Suc_eq split: entry_kind.splits)

lemma set_leaf:
  assumes "filled b f l m0 np nd nl m" "nl < 2 ^ 30"
  shows "filled b f l m0 np nd (Suc nl) (put_page_desc (ent b (desc_index nl))
    (f \<le> word_of_nat nl \<and> word_of_nat nl \<le> l) True (word_of_nat nl * PAGE_SIZE) m)"
  unfolding put_page_desc_def leaf_def [symmetric]
proof (rule filled_upd [OF assms(1)])
  have "nl div 512 \<le> nl" "nl div 512 div 512 \<le> nl" "nl mod 512 < 512" by (simp_all add: div_le_dividend order_trans [OF div_le_dividend])
  moreover have "(x + 2 + y) * 512 + z < 1152921504606846976" if "x \<le> nl" "y \<le> nl" "z < 512" "nl < 1073741824" for x y z :: nat
    using that by simp
  ultimately show "desc_index nl < 2 ^ 60" using assms(2) unfolding desc_index_def pows by blast
qed (auto simp: kind_leaf content_def fun_eq_iff less_Suc_eq leaf_def split: entry_kind.splits)

section \<open>The loops\<close>

lemma fill_pd_filled:
  assumes "filled b f l m0 np nd (512 * n) m" "n < 2 ^ 20"
  shows "\<exists>m'. fill_pd f l (ent b (512 * pd_table n)) (m, word_of_nat (512 * n)) = (m', word_of_nat (512 * Suc n)) \<and>
    filled b f l m0 np nd (512 * Suc n) m'"
proof -
  let ?step = "\<lambda>(m, page) pdi.
      (put_page_desc (ent b (512 * pd_table n) + 8 * word_of_nat pdi) (f \<le> page \<and> page \<le> l) True (page * PAGE_SIZE) m, page + 1)"
  have "\<exists>m'. foldl ?step (m, word_of_nat (512 * n)) [0..<k] = (m', word_of_nat (512 * n + k)) \<and>
      filled b f l m0 np nd (512 * n + k) m'" if "k \<le> 512" for k
    using that
  proof (induction k)
    case (Suc k)
    then obtain m1 where m1: "foldl ?step (m, word_of_nat (512 * n)) [0..<k] = (m1, word_of_nat (512 * n + k))"
      "filled b f l m0 np nd (512 * n + k) m1" by auto
    have e: "ent b (512 * pd_table n) + 8 * word_of_nat k = ent b (desc_index (512 * n + k))"
      using Suc.prems by (simp add: desc_index_at ent_add)
    have lt: "512 * n + k < 2 ^ 30" using assms(2) Suc.prems by simp
    have "foldl ?step (m, word_of_nat (512 * n)) [0..<Suc k] = ?step (m1, word_of_nat (512 * n + k)) k"
      by (simp only: upt_Suc_append [OF le0] foldl_append m1(1) foldl_Cons foldl_Nil)
    also have "\<dots> = (put_page_desc (ent b (desc_index (512 * n + k)))
        (f \<le> word_of_nat (512 * n + k) \<and> word_of_nat (512 * n + k) \<le> l) True (word_of_nat (512 * n + k) * PAGE_SIZE) m1,
        word_of_nat (512 * n + Suc k))"
      by (simp only: prod.case e) simp
    finally show ?case using set_leaf [OF m1(2) lt] by (simp only: add_Suc_right) blast
  qed (use assms(1) in simp)
  from this [of 512] show ?thesis unfolding fill_pd_def by (simp only: order_refl mult_Suc_right add.commute)
qed

text \<open>A whole table of the second level, or up to the last page directory.\<close>

lemma fill_pdpt_filled:
  assumes "filled b f l m0 np n (512 * n) m" "n = 512 * a + j" "j \<le> 512" "n < N" "N < 2 ^ 20"
    and "nt = ent b (512 * (pdpt_table a + 1 + j))" "e = min N (512 * Suc a)"
  shows "\<exists>m' nt'. fill_pdpt f l (word_of_nat (512 * N)) (ent b (512 * pdpt_table a)) j nt m (word_of_nat (512 * n)) =
      (N \<le> e, nt', m', word_of_nat (512 * e)) \<and> filled b f l m0 np e (512 * e) m' \<and>
      (\<not> N \<le> e \<longrightarrow> nt' = ent b (512 * pdpt_table (Suc a)))"
  using assms
proof (induction "512 - j" arbitrary: j n m nt)
  case 0
  then have "j = 512" "n = 512 * Suc a" "e = n" "\<not> N \<le> e" by auto
  moreover have "pdpt_table a + 1 + 512 = pdpt_table (Suc a)" by (simp add: pdpt_table_def)
  ultimately show ?case using 0 by (subst fill_pdpt.simps) (simp add: add.commute)
next
  case (Suc k)
  have j: "j < 512" using Suc.hyps(2) by simp
  have pdt: "pdpt_table a + 1 + j = pd_table n" using pd_table_split [OF j] Suc.prems(2) by simp
  have nt: "nt = ent b (512 * pd_table n)" using Suc.prems(6) unfolding pdt .
  have n20: "n < 2 ^ 20" using Suc.prems(4,5) by simp
  have idx: "ent b (512 * pdpt_table a) + 8 * word_of_nat j = ent b (pdpt_index n)"
    using j Suc.prems(2) by (simp add: pdpt_index_def ent_add)
  have f1: "filled b f l m0 np (Suc n) (512 * n) (put_page_desc (ent b (pdpt_index n)) True False nt m)"
    unfolding nt by (rule set_pdpt [OF Suc.prems(1) n20])
  from fill_pd_filled [OF this n20] obtain m2 where m2:
    "fill_pd f l nt (put_page_desc (ent b (pdpt_index n)) True False nt m, word_of_nat (512 * n)) = (m2, word_of_nat (512 * Suc n))"
    "filled b f l m0 np (Suc n) (512 * Suc n) m2" unfolding nt by blast
  have le: "(word_of_nat (512 * N) :: u64) \<le> word_of_nat (512 * Suc n) \<longleftrightarrow> N \<le> Suc n"
  proof -
    have "512 * N < 2 ^ 64" "512 * Suc n < 2 ^ 64" using Suc.prems(4,5) by simp_all
    then show ?thesis unfolding word_le_nat_alt by (simp only: unat_of_nat64 mult_le_cancel1) simp
  qed
  have nt1: "nt + PAGE_TABLE_SIZE = ent b (512 * (pdpt_table a + 1 + Suc j))"
    using ent_table [of b "pd_table n"] pdt nt by simp
  have unf: "fill_pdpt f l (word_of_nat (512 * N)) (ent b (512 * pdpt_table a)) j nt m (word_of_nat (512 * n)) =
      (if N \<le> Suc n then (True, nt + PAGE_TABLE_SIZE, m2, word_of_nat (512 * Suc n))
       else fill_pdpt f l (word_of_nat (512 * N)) (ent b (512 * pdpt_table a)) (Suc j) (nt + PAGE_TABLE_SIZE) m2 (word_of_nat (512 * Suc n)))"
    by (subst fill_pdpt.simps) (simp only: j Let_def idx m2(1) prod.case le simp_thms if_True)
  show ?case
  proof (cases "N \<le> Suc n")
    case True
    then have "e = Suc n" using Suc.prems(2,4,7) j by simp
    then show ?thesis using True m2(2) unfolding unf by simp
  next
    case False
    have "k = 512 - Suc j" using Suc.hyps(2) by simp
    moreover have "Suc n = 512 * a + Suc j" "Suc j \<le> 512" "Suc n < N" using Suc.prems(2) j False by simp_all
    ultimately show ?thesis using Suc.hyps(1) [OF _ m2(2) _ _ _ Suc.prems(5) nt1 Suc.prems(7)] False unfolding unf by simp
  qed
qed

lemma fill_pml4_filled:
  assumes "filled b f l m0 0 0 0 m"
  shows "\<exists>m'. fill_pml4 f l (word_of_nat (512 * 1024)) b 0 (b + PAGE_TABLE_SIZE) m 0 = Some m' \<and>
    filled b f l m0 2 1024 (512 * 1024) m'"
proof -
  have t: "b + PAGE_TABLE_SIZE = ent b (512 * pdpt_table 0)" by (simp add: ent_def pdpt_table_def)
  have ix: "b + 8 * word_of_nat a = ent b a" for a by (simp add: ent_def)
  have nx: "ent b (512 * pdpt_table a) + PAGE_TABLE_SIZE = ent b (512 * (pdpt_table a + 1 + 0))" for a
    using ent_table [of b "pdpt_table a"] by simp
  have f1: "filled b f l m0 1 (512 * 0) (512 * (512 * 0)) (put_page_desc (ent b 0) True False (ent b (512 * pdpt_table 0)) m)"
    using set_pml4 [OF assms, of ] by simp
  obtain m1 where m1: "fill_pdpt f l (word_of_nat (512 * 1024)) (ent b (512 * pdpt_table 0)) 0 (ent b (512 * pdpt_table 0) + PAGE_TABLE_SIZE)
      (put_page_desc (ent b 0) True False (ent b (512 * pdpt_table 0)) m) 0 =
      (False, ent b (512 * pdpt_table 1), m1, word_of_nat (512 * 512))" "filled b f l m0 1 512 (512 * 512) m1"
    using fill_pdpt_filled [OF f1, of 0 0 1024 _ 512] nx [of 0] by auto
  have f2: "filled b f l m0 2 512 (512 * 512) (put_page_desc (ent b 1) True False (ent b (512 * pdpt_table 1)) m1)"
    using set_pml4 [OF m1(2)] by (simp add: numeral_2_eq_2)
  obtain m2 nt where m2: "fill_pdpt f l (word_of_nat (512 * 1024)) (ent b (512 * pdpt_table 1)) 0 (ent b (512 * pdpt_table 1) + PAGE_TABLE_SIZE)
      (put_page_desc (ent b 1) True False (ent b (512 * pdpt_table 1)) m1) (word_of_nat (512 * 512)) =
      (True, nt, m2, word_of_nat (512 * 1024))" "filled b f l m0 2 1024 (512 * 1024) m2"
    using fill_pdpt_filled [OF f2, of 1 0 1024 _ 1024] nx [of 1] by auto
  have "fill_pml4 f l (word_of_nat (512 * 1024)) b 0 (b + PAGE_TABLE_SIZE) m 0 =
      fill_pml4 f l (word_of_nat (512 * 1024)) b 1 (ent b (512 * pdpt_table 1)) m1 (word_of_nat (512 * 512))"
    unfolding t by (subst fill_pml4.simps) (simp only: Let_def ix m1(1) prod.case if_False One_nat_def)
  also have "\<dots> = Some m2"
    by (subst fill_pml4.simps) (simp only: Let_def ix m2(1) prod.case if_True)
  finally show ?thesis using m2(2) by blast
qed

section \<open>Address translation\<close>

text \<open>
  How the processor translates an address: the indexes into the three levels are the address's
  bits 39 to 47, 30 to 38 and 21 to 29, and an entry of the third level maps a page of 2 megabytes.
\<close>

definition desc_addr :: "page_desc \<Rightarrow> u64" where
  "desc_addr d = push_bit 32 (ucast (pd_address1 d)) OR push_bit 12 (ucast (pd_address0 d))"

definition mmu_walk :: "u64 \<Rightarrow> descs \<Rightarrow> u64 \<Rightarrow> u64 option" where
  "mmu_walk cr3 m v =
     (let e4 = m (cr3 + 8 * word_of_nat (unat v div 2 ^ 39 mod 512)) in
      if \<not> pd_present e4 then None
      else
        let e3 = m (desc_addr e4 + 8 * word_of_nat (unat v div 2 ^ 30 mod 512)) in
        if \<not> pd_present e3 \<or> pd_ps_pat e3 then None
        else Some (desc_addr e3 + 8 * word_of_nat (unat v div 2 ^ 21 mod 512)))"

definition mmu_translate :: "u64 \<Rightarrow> descs \<Rightarrow> u64 \<Rightarrow> u64 option" where
  "mmu_translate cr3 m v =
     Option.bind (mmu_walk cr3 m v) (\<lambda>a.
       if pd_present (m a) \<and> pd_ps_pat (m a) then Some (desc_addr (m a) + v mod PAGE_SIZE) else None)"

lemma desc_addr_set:
  assumes "address < 2 ^ 52" "take_bit 12 address = 0"
  shows "desc_addr (set_page_desc True g address d) = address"
proof (rule bit_word_eqI)
  fix n assume "n < LENGTH(64)"
  then have n: "n < 64" by simp
  have lo: "\<not> bit address n" if "n < 12" using assms(2) that by (metis bit_0_eq bit_take_bit_iff bot_apply bot_bool_def)
  have hi: "\<not> bit address n" if "52 \<le> n" using bit_less_exp [OF assms(1)] that by force
  show "bit (desc_addr (set_page_desc True g address d)) n \<longleftrightarrow> bit address n"
    using n lo hi by (cases "n < 12"; cases "52 \<le> n") (auto simp: desc_addr_def set_page_desc_def bit_simps)
qed

lemma set_page_desc_simps [simp]:
  "pd_present (set_page_desc p g a d) = p" "pd_ps_pat (set_page_desc True g a d) = g"
  by (simp_all add: set_page_desc_def zero_desc_def)

definition map_ok :: "u64 \<Rightarrow> bool" where
  "map_ok b \<longleftrightarrow> b mod 4096 = 0 \<and> unat b + PAGE_MAP_SIZE \<le> 2 ^ 52"

lemma table_addr:
  assumes "map_ok b" "t < 1027"
  shows "ent b (512 * t) < 2 ^ 52" "take_bit 12 (ent b (512 * t)) = 0"
proof -
  have e: "ent b (512 * t) = b + word_of_nat (4096 * t)" by (simp add: ent_def)
  have b: "unat b + 4096 * t < 2 ^ 52" using assms by (simp add: map_ok_def map_size)
  have u: "unat (ent b (512 * t)) = unat b + 4096 * t"
    using b unfolding e by (simp add: unat_word_ariths unat_of_nat)
  show "ent b (512 * t) < 2 ^ 52" using b u by (simp add: word_less_nat_alt)
  have "unat (b mod 4096) = 0" using assms(1) by (simp add: map_ok_def)
  then have "(unat b + 4096 * t) mod 4096 = 0" by (simp add: unat_mod)
  then have "unat (take_bit 12 (ent b (512 * t))) = 0" unfolding unsigned_take_bit_eq u by (simp add: take_bit_eq_mod)
  then show "take_bit 12 (ent b (512 * t)) = 0" by (simp only: unat_eq_zero)
qed

lemma page_addr:
  assumes "p < 2 ^ 19"
  shows "(word_of_nat p * PAGE_SIZE :: u64) < 2 ^ 52" "take_bit 12 (word_of_nat p * PAGE_SIZE :: u64) = 0"
    "unat (word_of_nat p * PAGE_SIZE :: u64) = p * 0x200000"
proof -
  have "p * 0x200000 < 2 ^ 64" using assms by simp
  then have u: "unat (word_of_nat (p * 0x200000) :: u64) = p * 0x200000" by (rule unat_of_nat64)
  then show w: "unat (word_of_nat p * PAGE_SIZE :: u64) = p * 0x200000" by simp
  show "(word_of_nat p * PAGE_SIZE :: u64) < 2 ^ 52" using assms by (simp only: word_less_nat_alt w) simp
  have "unat (take_bit 12 (word_of_nat p * PAGE_SIZE :: u64)) = (p * 0x200000) mod 4096"
    unfolding unsigned_take_bit_eq w by (simp add: take_bit_eq_mod)
  also have "\<dots> = 0" by (simp add: mod_eq_0_iff_dvd dvd_mult)
  finally show "take_bit 12 (word_of_nat p * PAGE_SIZE :: u64) = 0" by (simp only: unat_eq_zero)
qed

text \<open>The walk through a filled map reaches the entry \<open>get_page_desc\<close> computes.\<close>

lemma walk_filled:
  assumes fl: "filled b f l m0 2 1024 (512 * 1024) m" and ok: "map_ok b" and v: "v < 2 ^ 40"
  defines "p \<equiv> unat v div 0x200000"
  shows "mmu_walk b m v = Some (get_page_desc b v)" "m (get_page_desc b v) = leaf f l p (m0 (get_page_desc b v))"
    and "(\<And>i. i < 2 ^ 60 \<Longrightarrow> (\<forall>q. kind i \<noteq> Leaf q) \<Longrightarrow> m' (ent b i) = m (ent b i)) \<Longrightarrow> mmu_walk b m' v = Some (get_page_desc b v)"
proof -
  let ?d = "unat v div 2 ^ 30" and ?a = "unat v div 2 ^ 39"
  have p: "p < 2 ^ 19" unfolding p_def by (rule page_less [OF v])
  have u: "unat v < 2 ^ 40" using v by (simp add: word_less_nat_alt)
  have d: "?d = p div 512" "?a = ?d div 512" unfolding p_def div_mult2_eq [symmetric] by simp_all
  have d1: "?d < 1024" "?a < 2" using u by (simp_all add: less_mult_imp_div_less)
  have fi: "m (ent b i) = content b f l 2 1024 (512 * 1024) (kind i) (m0 (ent b i))" if "i < 2 ^ 60" for i
    using fl that by (simp add: filled_def)
  have e4: "m (ent b ?a) = set_page_desc True False (ent b (512 * pdpt_table ?a)) (m0 (ent b ?a))"
    using fi [of ?a] d1(2) by (simp add: kind_pml4 content_def)
  have idx: "pdpt_index ?d < 1000000"
  proof -
    have "512 * (1 + 513 * x) + z < 1000000" if "x < 2" "z < 512" for x z :: nat using that by simp
    then show ?thesis using d(2) d1(2) unfolding pdpt_index_def pdpt_table_def by simp
  qed
  then have e3: "m (ent b (pdpt_index ?d)) = set_page_desc True False (ent b (512 * pd_table ?d)) (m0 (ent b (pdpt_index ?d)))"
    using fi [of "pdpt_index ?d"] d1(1) by (simp add: kind_pdpt content_def)
  have dx: "desc_index p < 1027 * 512" by (rule desc_index_less(1) [OF p])
  have g: "get_page_desc b v = ent b (desc_index p)" by (simp add: get_page_desc_index ent_def p_def)
  show "m (get_page_desc b v) = leaf f l p (m0 (get_page_desc b v))"
    using fi [of "desc_index p"] dx p by (simp add: g kind_leaf content_def)
  have t1: "pdpt_table ?a < 1027" using d1(2) by (simp add: pdpt_table_def)
  have t2: "pd_table ?d < 1027" using d1 d(2) by (simp add: pd_table_def)
  have a4: "desc_addr (m (ent b ?a)) = ent b (512 * pdpt_table ?a)"
    unfolding e4 by (rule desc_addr_set [OF table_addr [OF ok t1]])
  have a3: "desc_addr (m (ent b (pdpt_index ?d))) = ent b (512 * pd_table ?d)"
    unfolding e3 by (rule desc_addr_set [OF table_addr [OF ok t2]])
  have i4: "b + 8 * word_of_nat (?a mod 512) = ent b ?a" using d1(2) by (simp add: ent_def)
  have i3: "ent b (512 * pdpt_table ?a) + 8 * word_of_nat (?d mod 512) = ent b (pdpt_index ?d)"
    by (simp only: pdpt_index_def ent_add d(2) [symmetric])
  have i2: "ent b (512 * pd_table ?d) + 8 * word_of_nat (unat v div 2 ^ 21 mod 512) = ent b (desc_index p)"
  proof -
    have "unat v div 2 ^ 21 = p" by (simp add: p_def)
    then show ?thesis by (simp only: desc_index_pd ent_add d(1))
  qed
  have walk: "mmu_walk b m1 v = Some (get_page_desc b v)"
    if eq: "m1 (ent b ?a) = m (ent b ?a)" "m1 (ent b (pdpt_index ?d)) = m (ent b (pdpt_index ?d))" for m1
  proof -
    have "pd_present (m (ent b ?a))" unfolding e4 by simp
    moreover have "pd_present (m (ent b (pdpt_index ?d)))" "\<not> pd_ps_pat (m (ent b (pdpt_index ?d)))" unfolding e3 by simp_all
    ultimately show ?thesis unfolding mmu_walk_def Let_def i4 eq(1) a4 i3 eq(2) a3 i2 g by simp
  qed
  show "mmu_walk b m v = Some (get_page_desc b v)" by (rule walk) simp_all
  show "mmu_walk b m' v = Some (get_page_desc b v)"
    if same: "\<And>i. i < 2 ^ 60 \<Longrightarrow> (\<forall>q. kind i \<noteq> Leaf q) \<Longrightarrow> m' (ent b i) = m (ent b i)"
    by (rule walk; rule same) (use d1 idx in \<open>simp_all add: kind_pml4 kind_pdpt\<close>)
qed

section \<open>Properties\<close>

text \<open>C29: The boot code's page map is right: for a page-aligned map it returns, and the
  processor's walk from any address of the 40-bit space leads to the very entry that
  \<open>get_page_desc\<close> computes; the pages of the kernel image translate to themselves, and no other
  page is mapped.\<close>

theorem boot_page_map_correct:
  assumes "map_ok page_map" "0 < mapped_size" "unat mapped_addr + unat mapped_size \<le> 2 ^ 40"
  shows "\<exists>m. create_page_map page_map (2 ^ 40) mapped_addr mapped_size m0 = Some m \<and>
    (\<forall>v<2 ^ 40. mmu_walk page_map m v = Some (get_page_desc page_map v) \<and>
      mmu_translate page_map m v =
        (if mapped_addr div PAGE_SIZE \<le> v div PAGE_SIZE \<and> v div PAGE_SIZE \<le> (mapped_addr + mapped_size - 1) div PAGE_SIZE
         then Some v else None))"
proof -
  let ?f = "mapped_addr div PAGE_SIZE" and ?l = "(mapped_addr + mapped_size - 1) div PAGE_SIZE"
  have "((2 ^ 40 :: u64) + PAGE_SIZE - 1) div PAGE_SIZE = word_of_nat (512 * 1024)" by simp
  moreover have "filled page_map ?f ?l m0 0 0 0 m0"
    by (simp add: filled_def content_def split: entry_kind.splits)
  ultimately obtain m where m: "create_page_map page_map (2 ^ 40) mapped_addr mapped_size m0 = Some m"
    "filled page_map ?f ?l m0 2 1024 (512 * 1024) m"
    using fill_pml4_filled unfolding create_page_map_def Let_def by metis
  have "mmu_translate page_map m v = (if ?f \<le> v div PAGE_SIZE \<and> v div PAGE_SIZE \<le> ?l then Some v else None)" if v: "v < 2 ^ 40" for v
  proof -
    let ?p = "unat v div 0x200000"
    note w = walk_filled [OF m(2) assms(1) v]
    have vp: "v div PAGE_SIZE = word_of_nat ?p" by (rule word_of_quotients(1))
    have p: "?p < 2 ^ 19" by (rule page_less [OF v])
    have sum: "word_of_nat ?p * PAGE_SIZE + v mod PAGE_SIZE = v" unfolding vp [symmetric] by (rule div_mult_mod_eq)
    show ?thesis
      unfolding mmu_translate_def w(1) by (simp add: w(2) leaf_def vp desc_addr_set [OF page_addr(1,2) [OF p]] sum)
  qed
  then show ?thesis using m(1) walk_filled(1) [OF m(2) assms(1)] by blast
qed

theorem boot_page_map_correct_witness:
  "\<exists>m. create_page_map 0x200000 (2 ^ 40) 0x100000 0x80000 (\<lambda>_. zero_desc) = Some m \<and>
    mmu_translate 0x200000 m 0x101234 = Some 0x101234 \<and> mmu_translate 0x200000 m 0x40000000 = None"
proof -
  have ok: "map_ok 0x200000" by (simp add: map_ok_def map_size)
  have v: "(0x101234 :: u64) < 2 ^ 40" "(0x40000000 :: u64) < 2 ^ 40" by simp_all
  have "0 < (0x80000 :: u64)" "unat (0x100000 :: u64) + unat (0x80000 :: u64) \<le> 2 ^ 40" by simp_all
  from boot_page_map_correct [OF ok this, of "\<lambda>_. zero_desc"] obtain m where
    m: "create_page_map 0x200000 (2 ^ 40) 0x100000 0x80000 (\<lambda>_. zero_desc) = Some m"
      "\<forall>v<2 ^ 40. mmu_translate 0x200000 m v =
        (if (0x100000 :: u64) div PAGE_SIZE \<le> v div PAGE_SIZE \<and> v div PAGE_SIZE \<le> (0x100000 + 0x80000 - 1) div PAGE_SIZE then Some v else None)"
    by blast
  then show ?thesis using v by simp
qed

end
