(* ===== verification/Cmemory.thy ===== *)
theory Cmemory
  imports Prelude
begin

text \<open>
  Byte memory, and what the C code relies on about it: blocks of bytes, zero-terminated
  strings, the addresses a block occupies. Addresses are 64-bit words, so they wrap.
\<close>

type_synonym mem = "ptr \<Rightarrow> u8"

section \<open>Blocks\<close>

definition addrs :: "ptr \<Rightarrow> nat \<Rightarrow> ptr set" where
  "addrs a n = (\<lambda>i. a + word_of_nat i) ` {..<n}"

definition bytes :: "mem \<Rightarrow> ptr \<Rightarrow> nat \<Rightarrow> u8 list" where
  "bytes m a n = map (\<lambda>i. m (a + word_of_nat i)) [0..<n]"

lemma addr_inj:
  "i < 2 ^ 64 \<Longrightarrow> j < 2 ^ 64 \<Longrightarrow> a + word_of_nat i = a + (word_of_nat j :: ptr) \<longleftrightarrow> i = j"
  by (simp add: word_of_nat_eq_iff take_bit_nat_eq_self)

lemma addrs_0 [simp]: "addrs a 0 = {}"
  by (simp add: addrs_def)

lemma addrs_Suc: "addrs a (Suc n) = insert a (addrs (a + 1) n)"
  unfolding addrs_def lessThan_Suc_eq_insert_0 by (simp add: image_image add.assoc)

lemma addrs_add: "addrs a (n + k) = addrs a n \<union> addrs (a + word_of_nat n) k"
  by (induction n arbitrary: a) (simp_all add: addrs_Suc add.assoc Un_ac)

lemma addrs_mono: "n \<le> k \<Longrightarrow> addrs a n \<subseteq> addrs a k"
  by (auto simp: addrs_def)

lemma in_addrs: "i < n \<Longrightarrow> a + word_of_nat i \<in> addrs a n"
  by (auto simp: addrs_def)

lemma addrsD: "x \<in> addrs a n \<Longrightarrow> \<exists>i<n. x = a + word_of_nat i"
  by (auto simp: addrs_def)

lemma unat_lt64: "unat (w :: u64) < 2 ^ 64"
  using unsigned_less [of w, where ?'a = nat] by simp

lemma unat_drop: "unat (drop_bit k (v :: u64)) = unat v div 2 ^ k"
proof -
  have "take_bit LENGTH(64) (unat v) = unat v" using take_bit_nat_eq_self [OF unat_lt64 [of v]] by simp
  then show ?thesis unfolding unsigned_drop_bit_eq by (simp only: drop_bit_eq_div)
qed

lemma in_addrs_iff:
  assumes "n \<le> 2 ^ 64"
  shows "x \<in> addrs a n \<longleftrightarrow> unat (x - a) < n"
proof
  assume "x \<in> addrs a n"
  then obtain i where "i < n" "x = a + word_of_nat i" by (auto simp: addrs_def)
  then show "unat (x - a) < n" using assms by (simp add: unat_of_nat)
next
  assume l: "unat (x - a) < n"
  have "x = a + word_of_nat (unat (x - a))" by simp
  then show "x \<in> addrs a n" using in_addrs [OF l] by metis
qed

lemma first_not_in_rest: "n < 2 ^ 64 \<Longrightarrow> a \<notin> addrs (a + 1) n"
proof
  assume "n < 2 ^ 64" "a \<in> addrs (a + 1) n"
  then obtain i where "i < n" "a = a + 1 + word_of_nat i" by (auto simp: addrs_def)
  then have "a + word_of_nat 0 = a + word_of_nat (Suc i)" "Suc i < 2 ^ 64"
    using \<open>n < 2 ^ 64\<close> by (simp_all add: add.assoc)
  then show False using addr_inj [of 0 "Suc i" a] by simp
qed

lemma last_not_in_block: "n < 2 ^ 64 \<Longrightarrow> a + word_of_nat n \<notin> addrs a n"
proof
  assume n: "n < 2 ^ 64" and "a + word_of_nat n \<in> addrs a n"
  then obtain i where i: "i < n" "a + word_of_nat n = a + (word_of_nat i :: ptr)" by (auto simp: addrs_def)
  then show False using addr_inj [of n i a] n by simp
qed

lemma unat_addr: "unat a + i < 2 ^ 64 \<Longrightarrow> unat (a + word_of_nat i :: ptr) = unat a + i"
  by (simp add: unat_word_ariths unat_of_nat)

lemma addrs_disjoint:
  assumes "unat a + n \<le> unat b" "unat b + k \<le> 2 ^ 64"
  shows "addrs a n \<inter> addrs b k = {}"
proof -
  have False if x: "x \<in> addrs a n" "x \<in> addrs b k" for x
  proof -
    obtain i j where ij: "i < n" "x = a + word_of_nat i" "j < k" "x = b + word_of_nat j"
      using addrsD [OF x(1)] addrsD [OF x(2)] by blast
    have "unat x = unat a + i" using unat_addr [of a i] ij(1,2) assms by simp
    moreover have "unat x = unat b + j" using unat_addr [of b j] ij(3,4) assms by simp
    ultimately show False using ij(1) assms(1) by simp
  qed
  then show ?thesis by blast
qed

lemma length_bytes [simp]: "length (bytes m a n) = n"
  by (simp add: bytes_def)

lemma bytes_0 [simp]: "bytes m a 0 = []"
  by (simp add: bytes_def)

lemma bytes_Suc: "bytes m a (Suc n) = m a # bytes m (a + 1) n"
  unfolding bytes_def upt_conv_Cons [OF zero_less_Suc] map_Suc_upt [symmetric] by (simp add: add.assoc)

lemma nth_bytes: "i < n \<Longrightarrow> bytes m a n ! i = m (a + word_of_nat i)"
  by (simp add: bytes_def)

lemma bytes_add: "bytes m a (n + k) = bytes m a n @ bytes m (a + word_of_nat n) k"
  by (induction n arbitrary: a) (simp_all add: bytes_Suc add.assoc)

lemma bytes_cong: "(\<And>x. x \<in> addrs a n \<Longrightarrow> m x = m' x) \<Longrightarrow> bytes m a n = bytes m' a n"
  by (auto simp: bytes_def addrs_def)

lemma bytes_outside [simp]: "x \<notin> addrs a n \<Longrightarrow> bytes (m(x := v)) a n = bytes m a n"
  by (intro bytes_cong) auto

section \<open>Strings\<close>

primrec cstr :: "mem \<Rightarrow> ptr \<Rightarrow> u8 list \<Rightarrow> bool" where
  "cstr m a [] \<longleftrightarrow> m a = 0"
| "cstr m a (c # cs) \<longleftrightarrow> m a = c \<and> c \<noteq> 0 \<and> cstr m (a + 1) cs"

lemma cstr_bytes:
  "cstr m a s \<longleftrightarrow> bytes m a (length s) = s \<and> 0 \<notin> set s \<and> m (a + word_of_nat (length s)) = 0"
  by (induction s arbitrary: a) (auto simp: bytes_Suc add.assoc)

lemma cstr_cong: "(\<And>x. x \<in> addrs a (Suc (length s)) \<Longrightarrow> m x = m' x) \<Longrightarrow> cstr m a s \<longleftrightarrow> cstr m' a s"
proof (induction s arbitrary: a)
  case (Cons c s)
  have "cstr m (a + 1) s \<longleftrightarrow> cstr m' (a + 1) s"
    by (rule Cons.IH, rule Cons.prems) (simp add: addrs_Suc)
  then show ?case using Cons.prems [of a] by (simp add: addrs_Suc)
qed (simp add: addrs_Suc)

lemma cstr_unique: "cstr m a s \<Longrightarrow> cstr m a t \<Longrightarrow> s = t"
proof (induction s arbitrary: a t)
  case Nil
  then show ?case by (cases t) auto
next
  case (Cons c s)
  then show ?case by (cases t) auto
qed

section \<open>What a write leaves alone\<close>

definition only_in :: "ptr set \<Rightarrow> mem \<Rightarrow> mem \<Rightarrow> bool" where
  "only_in A m m' \<longleftrightarrow> (\<forall>x. x \<notin> A \<longrightarrow> m' x = m x)"

lemma only_in_refl [simp]: "only_in A m m"
  by (simp add: only_in_def)

lemma only_in_trans: "only_in A m m' \<Longrightarrow> only_in B m' m'' \<Longrightarrow> A \<subseteq> C \<Longrightarrow> B \<subseteq> C \<Longrightarrow> only_in C m m''"
  unfolding only_in_def by (metis subsetD)

lemma only_in_mono: "only_in A m m' \<Longrightarrow> A \<subseteq> B \<Longrightarrow> only_in B m m'"
  by (auto simp: only_in_def)

lemma only_in_upd: "only_in A (m(x := v)) m' \<Longrightarrow> only_in (insert x A) m m'"
  by (auto simp: only_in_def split: if_splits)

lemma cstr_only_in: "only_in A m m' \<Longrightarrow> addrs a (Suc (length s)) \<inter> A = {} \<Longrightarrow> cstr m' a s \<longleftrightarrow> cstr m a s"
  by (rule cstr_cong) (auto simp: only_in_def)

lemma bytes_only_in: "only_in A m m' \<Longrightarrow> addrs a n \<inter> A = {} \<Longrightarrow> bytes m' a n = bytes m a n"
  by (rule bytes_cong) (auto simp: only_in_def)

end
