(* ===== verification/Kmemory.thy ===== *)
theory Kmemory
  imports Scheduler Boot_Map Cmemory
begin

text \<open>
  Kernel memory: the bump allocator and its pools (\<open>memory.c\<close>) and the mapping of the
  machine's memory (\<open>x86_64/memory.c\<close>).
\<close>

section \<open>The allocator\<close>

record kmem = kstate +
  km_next_free :: ptr

record mem_pool =
  mp_block_size :: u64

abbreviation CONFIG_KERNEL_ADDR :: u64 where "CONFIG_KERNEL_ADDR \<equiv> 0x100000"

definition kmalloc :: "nat \<Rightarrow> u64 \<Rightarrow> 'z kmem_scheme \<Rightarrow> ptr \<times> 'z kmem_scheme" where
  "kmalloc c sz s =
     (let s1 = snd (acquire_spinlock c Lock_mem 0 s);
          p = km_next_free s1;
          s2 = s1\<lparr>km_next_free := km_next_free s1 + sz\<rparr> in
      (p, release_spinlock c Lock_mem s2))"

definition kfree :: "ptr \<Rightarrow> 'z kmem_scheme \<Rightarrow> 'z kmem_scheme" where
  "kfree p s = s"

definition create_mem_pool :: "u64 \<Rightarrow> err_code \<times> mem_pool" where
  "create_mem_pool block_size = (ERR_NONE, \<lparr>mp_block_size = block_size\<rparr>)"

definition destroy_mem_pool :: "mem_pool \<Rightarrow> 'z kmem_scheme \<Rightarrow> 'z kmem_scheme" where
  "destroy_mem_pool pool s = s"

definition alloc_block :: "nat \<Rightarrow> mem_pool \<Rightarrow> 'z kmem_scheme \<Rightarrow> ptr \<times> 'z kmem_scheme" where
  "alloc_block c pool s = kmalloc c (mp_block_size pool) s"

definition free_block :: "mem_pool \<Rightarrow> ptr \<Rightarrow> 'z kmem_scheme \<Rightarrow> 'z kmem_scheme" where
  "free_block pool block s = s"

section \<open>Mapping the machine's memory\<close>

abbreviation PAGE_MAPPING_WRITE :: i32 where "PAGE_MAPPING_WRITE \<equiv> 2"

definition high_mem_hole :: "u32 \<Rightarrow> u64" where
  "high_mem_hole mem_higher = (ucast mem_higher + 1024) * 1024 div PAGE_SIZE * PAGE_SIZE"

text \<open>The loop over the page addresses below the hole.\<close>

definition map_memory :: "u64 \<Rightarrow> u32 \<Rightarrow> descs \<Rightarrow> descs" where
  "map_memory page_map mem_higher m =
     fold (\<lambda>i. let addr = word_of_nat i * PAGE_SIZE in map_page page_map addr addr PAGE_MAPPING_WRITE 0)
       [0..<unat (high_mem_hole mem_higher div PAGE_SIZE)] m"

definition init_memory ::
  "u64 \<Rightarrow> u64 \<Rightarrow> u32 \<Rightarrow> 'z kmem_scheme \<Rightarrow> descs \<Rightarrow> 'z kmem_scheme \<times> descs" where
  "init_memory kernel_size page_map mem_higher s m =
     ((create_spinlock Lock_mem s)\<lparr>km_next_free := CONFIG_KERNEL_ADDR + kernel_size\<rparr>,
      map_memory page_map mem_higher m)"

section \<open>Blocks do not overlap\<close>

fun kmallocs :: "nat \<Rightarrow> u64 list \<Rightarrow> 'z kmem_scheme \<Rightarrow> ptr list \<times> 'z kmem_scheme" where
  "kmallocs c [] s = ([], s)"
| "kmallocs c (n # ns) s =
     (let (p, s1) = kmalloc c n s; (ps, s2) = kmallocs c ns s1 in (p # ps, s2))"

definition lock_free :: "nat \<Rightarrow> lock_ref \<Rightarrow> 'z hw_scheme \<Rightarrow> bool" where
  "lock_free c l s \<longleftrightarrow> hw_busy s l = 0 \<and> hw_outer s c \<noteq> l \<and> (hw_outer s c = Lock_null \<longrightarrow> hw_if s c)"

lemma kmalloc_eq:
  assumes "lock_free c Lock_mem s"
  shows "kmalloc c n s = (km_next_free s, s\<lparr>km_next_free := km_next_free s + n\<rparr>)"
proof -
  let ?s1 = "snd (acquire_spinlock c Lock_mem 0 s)"
  have f: "hw_busy s Lock_mem = 0" "hw_outer s c \<noteq> Lock_mem" "hw_outer s c = Lock_null \<longrightarrow> hw_if s c"
    using assms by (auto simp: lock_free_def)
  have s1: "?s1 = hw_put ((hw_busy s)(Lock_mem := 1))
       ((hw_outer s)(c := (if hw_outer s c = Lock_null then Lock_mem else hw_outer s c)))
       ((hw_if s)(c := (hw_outer s c \<noteq> Lock_null \<and> hw_if s c))) s"
    using f(1) by (simp add: acquire_spinlock_free)
  let ?s2 = "?s1\<lparr>km_next_free := km_next_free s + n\<rparr>"
  have nf: "km_next_free ?s1 = km_next_free s" by (simp add: s1 hw_put_def)
  have "release_spinlock c Lock_mem ?s2 = hw_put (hw_busy s) (hw_outer s) (hw_if s) ?s2"
    unfolding release_spinlock_eq by (rule hw_put_cong) (use f in \<open>auto simp: s1 fun_eq_iff\<close>)
  moreover have "hw_put (hw_busy s) (hw_outer s) (hw_if s) ?s2 = s\<lparr>km_next_free := km_next_free s + n\<rparr>"
    unfolding s1 hw_put_def by simp
  ultimately show ?thesis by (simp add: kmalloc_def Let_def nf)
qed

lemma kmallocs_blocks:
  assumes "lock_free c Lock_mem s" "unat (km_next_free s) + sum_list (map unat ns) < 2 ^ 64" "kmallocs c ns s = (ps, s')"
  shows "length ps = length ns \<and>
    (\<forall>i<length ns. unat (km_next_free s) \<le> unat (ps ! i) \<and>
       unat (ps ! i) + unat (ns ! i) \<le> unat (km_next_free s) + sum_list (map unat ns)) \<and>
    (\<forall>i j. i < j \<longrightarrow> j < length ns \<longrightarrow> unat (ps ! i) + unat (ns ! i) \<le> unat (ps ! j))"
  using assms
proof (induction ns arbitrary: s ps)
  case (Cons n ns)
  let ?s1 = "s\<lparr>km_next_free := km_next_free s + n\<rparr>"
  obtain qs where qs: "kmallocs c ns ?s1 = (qs, s')" "ps = km_next_free s # qs"
    using Cons.prems(3) by (auto simp: kmalloc_eq [OF Cons.prems(1)] split: prod.splits)
  have u: "unat (km_next_free ?s1) = unat (km_next_free s) + unat n"
    using Cons.prems(2) by (simp add: unat_word_ariths)
  have l: "lock_free c Lock_mem ?s1" using Cons.prems(1) by (simp add: lock_free_def)
  have "unat (km_next_free ?s1) + sum_list (map unat ns) < 2 ^ 64" using Cons.prems(2) u by simp
  note ih = Cons.IH [OF l this qs(1)]
  have 1: "unat (km_next_free s) \<le> unat (ps ! i) \<and>
       unat (ps ! i) + unat ((n # ns) ! i) \<le> unat (km_next_free s) + sum_list (map unat (n # ns))" if "i < length (n # ns)" for i
    using ih u that by (cases i) (auto simp: qs(2))
  have 2: "unat (ps ! i) + unat ((n # ns) ! i) \<le> unat (ps ! j)" if ij: "i < j" "j < length (n # ns)" for i j
  proof -
    obtain j' where j: "j = Suc j'" using ij(1) by (cases j) auto
    show ?thesis using ih u ij j by (cases i) (auto simp: qs(2))
  qed
  show ?case using ih 1 2 by (auto simp: qs(2))
qed simp

section \<open>Properties\<close>

text \<open>The state of zero-initialised variables.\<close>

definition zero_frame :: thread_context where
  "zero_frame = \<lparr>fr_r15 = 0, fr_r14 = 0, fr_r13 = 0, fr_r12 = 0, fr_r11 = 0, fr_r10 = 0, fr_r9 = 0, fr_r8 = 0,
     fr_rdi = 0, fr_rsi = 0, fr_rbp = 0, fr_rdx = 0, fr_rcx = 0, fr_rbx = 0, fr_rax = 0, fr_fxdata = [],
     fr_error_code = 0, fr_rip = 0, fr_cs = 0, fr_rflags = 0, fr_rsp = 0, fr_ss = 0\<rparr>"

definition zero_thread :: thread_data where
  "zero_thread = \<lparr>td_magic = 0, td_prev = NULL, td_next = NULL, td_all_prev = NULL, td_all_next = NULL,
     td_context = zero_frame, td_stack = NULL, td_stack_size = 0, td_affinity = [0], td_output = 0,
     td_run_time = 0, td_priority = 0, td_real_priority = 0, td_quantum = 0, td_stamp = 0, td_cpu = 0,
     td_state = THREAD_STATE_UNKNOWN, td_fixed_priority = False\<rparr>"

definition zero_cpu :: cpu_data where
  "zero_cpu = \<lparr>cd_total_threads = 0, cd_current_priority = 0,
     cd_priorities = \<lambda>_. \<lparr>cp_expired_head = NULL, cp_expired_tail = NULL, cp_active_tail = NULL, cp_total_threads = 0\<rparr>,
     cd_priority_mask = [0], cd_task = \<lparr>ct_type = CPU_TASK_RESUME, ct_error = ERR_NONE, ct_thread = NULL, ct_lock = Lock_null\<rparr>,
     cd_load_context = False\<rparr>"

definition xkm :: kmem where
  "xkm = \<lparr>hw_busy = \<lambda>_. 0, hw_outer = \<lambda>_. Lock_null, hw_if = \<lambda>_. True, hw_spun = 0, ks_thr = \<lambda>_. zero_thread, ks_mem = \<lambda>_. 0,
     ks_cpus = \<lambda>_. zero_cpu, ks_all = \<lparr>tl_total_threads = 0, tl_tail = NULL\<rparr>,
     ks_inactive = \<lparr>tl_total_threads = 0, tl_tail = NULL\<rparr>, ks_stamp = 0, ks_ticks = 0, ks_timer_ticks = \<lambda>_. 0,
     ks_timer_proc = NULL, ks_ctx = \<lambda>_. zero_frame, ks_fs_base = \<lambda>_. NULL, ks_eoi = \<lambda>_. 0, km_next_free = 0\<rparr>"

text \<open>C31: The allocator hands out disjoint blocks: in any sequence of allocations that does not
  run past the end of the address space, the blocks do not overlap each other, and all lie above
  the kernel image, where \<open>init_memory\<close> starts.\<close>

theorem kmalloc_blocks_disjoint:
  assumes "s1 = fst (init_memory kernel_size page_map mem_higher s m)" "lock_free c Lock_mem s1"
    and "0x100000 + unat kernel_size + sum_list (map unat ns) < 2 ^ 64" "kmallocs c ns s1 = (ps, s')"
  shows "length ps = length ns \<and> (\<forall>i<length ns. 0x100000 + unat kernel_size \<le> unat (ps ! i)) \<and>
    (\<forall>i<length ns. \<forall>j<length ns. i \<noteq> j \<longrightarrow> addrs (ps ! i) (unat (ns ! i)) \<inter> addrs (ps ! j) (unat (ns ! j)) = {})"
proof -
  have u: "unat (km_next_free s1) = 0x100000 + unat kernel_size"
    using assms(1,3) by (simp add: init_memory_def unat_word_ariths)
  have "unat (km_next_free s1) + sum_list (map unat ns) < 2 ^ 64" using assms(3) u by simp
  note k = kmallocs_blocks [OF assms(2) this assms(4), unfolded u]
  have d: "addrs (ps ! i) (unat (ns ! i)) \<inter> addrs (ps ! j) (unat (ns ! j)) = {}" if "i < j" "j < length ns" for i j
  proof (rule addrs_disjoint)
    show "unat (ps ! i) + unat (ns ! i) \<le> unat (ps ! j)" using k that by blast
    have "unat (ps ! j) + unat (ns ! j) \<le> 0x100000 + unat kernel_size + sum_list (map unat ns)" using k that by blast
    then show "unat (ps ! j) + unat (ns ! j) \<le> 2 ^ 64" using assms(3) by linarith
  qed
  have "addrs (ps ! i) (unat (ns ! i)) \<inter> addrs (ps ! j) (unat (ns ! j)) = {}"
    if "i < length ns" "j < length ns" "i \<noteq> j" for i j
    using d [of i j] d [of j i] that by (cases "i < j") (auto simp: Int_commute)
  then show ?thesis using k by blast
qed

text \<open>The map after mapping pages to themselves.\<close>

lemma get_page_desc_ent: "get_page_desc b (word_of_nat p * PAGE_SIZE) = ent b (desc_index p)" if "p < 2 ^ 19"
  using page_addr(3) [OF that] by (simp add: get_page_desc_index ent_def)

lemma map_pages_other:
  assumes "n \<le> 2 ^ 19" "\<And>p. p < n \<Longrightarrow> a \<noteq> ent b (desc_index p)"
  shows "fold (\<lambda>i. let addr = word_of_nat i * PAGE_SIZE in map_page b addr addr fl 0) [0..<n] m a = m a"
  using assms
proof (induction n)
  case (Suc n)
  then show ?case by (simp add: map_page_def get_page_desc_ent)
qed simp

lemma map_pages_here:
  assumes "n \<le> 2 ^ 19" "p < n"
  shows "fold (\<lambda>i. let addr = word_of_nat i * PAGE_SIZE in map_page b addr addr fl 0) [0..<n] m (ent b (desc_index p)) =
    map_desc (word_of_nat p * PAGE_SIZE) fl 0"
  using assms
proof (induction n)
  case (Suc n)
  have d: "desc_index q < 2 ^ 61" if "q < 2 ^ 19" for q using desc_index_less(1) [OF that] by simp
  show ?case
  proof (cases "p = n")
    case True
    then show ?thesis using Suc.prems by (simp add: map_page_def get_page_desc_ent)
  next
    case False
    then have "ent b (desc_index p) \<noteq> ent b (desc_index n)"
      using ent_inj [OF d d, of p n b] Suc.prems by (simp add: desc_index_inj)
    then show ?thesis using Suc False by (simp add: map_page_def get_page_desc_ent)
  qed
qed simp

lemma desc_addr_map: "phys < 2 ^ 52 \<Longrightarrow> desc_addr (map_desc phys fl av) = phys AND NOT 0x1FFFFF"
proof -
  assume "phys < 2 ^ 52"
  then have b: "n < 52" if "bit phys n" for n using bit_less_exp [of phys 52 n] that by simp
  show ?thesis
    unfolding desc_addr_def map_desc_fields proof (rule bit_word_eqI)
    fix n assume "n < LENGTH(64)"
    then show "bit (push_bit 32 (ucast (ucast (ucast (drop_bit 32 phys) :: u32) :: 20 word)) OR
        push_bit 12 (ucast (ucast ((ucast (drop_bit 12 phys) :: u32) AND NOT 511) :: 20 word)) :: u64) n \<longleftrightarrow> bit (phys AND NOT 0x1FFFFF) n"
      using b [of n] by (cases "n < 32"; cases "n < 12") (auto simp: bit_simps mask_bits)
  qed
qed

lemma map_desc_addr:
  assumes "p < 2 ^ 19"
  shows "pd_present (map_desc (word_of_nat p * PAGE_SIZE) fl av)" "pd_ps_pat (map_desc (word_of_nat p * PAGE_SIZE) fl av)"
    "desc_addr (map_desc (word_of_nat p * PAGE_SIZE) fl av) = word_of_nat p * PAGE_SIZE"
proof -
  show "pd_present (map_desc (word_of_nat p * PAGE_SIZE) fl av)" by (rule map_desc_fields(1))
  have "bit (low_byte d) 7 \<longleftrightarrow> pd_ps_pat d" for d by (simp add: bit_low_byte low_bits_def)
  then show "pd_ps_pat (map_desc (word_of_nat p * PAGE_SIZE) fl av)"
    using map_desc_fields(2) [of "word_of_nat p * PAGE_SIZE" fl av] bit_mapped_byte [of fl 7] by metis
  have x: "word_of_nat p * PAGE_SIZE = push_bit 21 (word_of_nat p :: u64)" by (simp add: push_bit_eq_mult)
  have "push_bit 21 (word_of_nat p :: u64) AND NOT 0x1FFFFF = push_bit 21 (word_of_nat p)"
    by (rule bit_word_eqI) (auto simp: bit_simps mask_bits)
  then show "desc_addr (map_desc (word_of_nat p * PAGE_SIZE) fl av) = word_of_nat p * PAGE_SIZE"
    using desc_addr_map [OF page_addr(1) [OF assms], of fl av] unfolding x by simp
qed

text \<open>C30: Once boot has built its page map and \<open>init_memory\<close> has run, every address of the
  machine's memory (up to the first hole above one megabyte that multiboot reports, rounded down to a page) translates to itself,
  and the walk still leads to the entries \<open>get_page_desc\<close> computes.\<close>

theorem memory_mapped_one_to_one:
  assumes "map_ok page_map" "0 < kernel_size" "unat kernel_size \<le> 2 ^ 39" "high_mem_hole mem_higher \<le> 2 ^ 40"
    and "create_page_map page_map (2 ^ 40) CONFIG_KERNEL_ADDR kernel_size m0 = Some m"
    and "m' = snd (init_memory kernel_size page_map mem_higher s m)" "v < high_mem_hole mem_higher"
  shows "mmu_walk page_map m' v = Some (get_page_desc page_map v) \<and> mmu_translate page_map m' v = Some v"
proof -
  let ?n = "unat (high_mem_hole mem_higher div PAGE_SIZE)" and ?p = "unat v div 0x200000"
  let ?f = "CONFIG_KERNEL_ADDR div PAGE_SIZE" and ?l = "(CONFIG_KERNEL_ADDR + kernel_size - 1) div PAGE_SIZE"
  have v: "v < 2 ^ 40" using assms(4,7) by (rule less_le_trans [rotated])
  have p: "?p < 2 ^ 19" by (rule page_less [OF v])
  have n: "?n \<le> 2 ^ 19"
  proof -
    have "?n = unat (high_mem_hole mem_higher) div 0x200000" by (simp add: unat_div)
    also have "\<dots> \<le> 2 ^ 40 div 0x200000" using assms(4) by (intro div_le_mono) (simp add: word_le_nat_alt)
    finally show ?thesis by simp
  qed
  have pn: "?p < ?n"
  proof -
    define x :: u64 where "x = (ucast mem_higher + 1024) * 1024"
    have le: "unat x div 0x200000 * 0x200000 < 2 ^ 64" using unat_lt64 [of x] div_times_less_eq_dividend [of "unat x" "0x200000"] by linarith
    have h: "unat (high_mem_hole mem_higher) = unat x div 0x200000 * 0x200000"
      unfolding high_mem_hole_def x_def [symmetric] using le by (simp add: unat_word_ariths(2) unat_div)
    then have "?p < unat x div 0x200000" using assms(7) by (simp add: word_less_nat_alt less_mult_imp_div_less)
    moreover have "?n = unat x div 0x200000" by (simp add: unat_div h)
    ultimately show ?thesis by simp
  qed
  have "((2 ^ 40 :: u64) + PAGE_SIZE - 1) div PAGE_SIZE = word_of_nat (512 * 1024)" by simp
  moreover have "filled page_map ?f ?l m0 0 0 0 m0" by (simp add: filled_def content_def split: entry_kind.splits)
  ultimately have fl: "filled page_map ?f ?l m0 2 1024 (512 * 1024) m"
    using fill_pml4_filled assms(5) unfolding create_page_map_def Let_def by (metis option.inject)
  have m': "m' = fold (\<lambda>i. let addr = word_of_nat i * PAGE_SIZE in map_page page_map addr addr PAGE_MAPPING_WRITE 0) [0..<?n] m"
    by (simp add: assms(6) init_memory_def map_memory_def)
  have walk: "mmu_walk page_map m' v = Some (get_page_desc page_map v)"
  proof (rule walk_filled(3) [OF fl assms(1) v])
    fix i :: nat assume i: "i < 2 ^ 60" "\<forall>q. kind i \<noteq> Leaf q"
    have "ent page_map i \<noteq> ent page_map (desc_index q)" if "q < ?n" for q
    proof -
      have "desc_index q < 2 ^ 61" using desc_index_less(1) [of q] that n by simp
      moreover have "i \<noteq> desc_index q" using i(2) kind_leaf [of q] by metis
      ultimately show ?thesis using ent_inj [of i "desc_index q" page_map] i(1) by simp
    qed
    then show "m' (ent page_map i) = m (ent page_map i)" unfolding m' by (rule map_pages_other [OF n])
  qed
  have g: "get_page_desc page_map v = ent page_map (desc_index ?p)" by (simp add: get_page_desc_index ent_def)
  have "m' (ent page_map (desc_index ?p)) = map_desc (word_of_nat ?p * PAGE_SIZE) PAGE_MAPPING_WRITE 0"
    unfolding m' by (rule map_pages_here [OF n pn])
  moreover have "word_of_nat ?p * PAGE_SIZE + v mod PAGE_SIZE = v"
    unfolding word_of_quotients(1) [symmetric] by (rule div_mult_mod_eq)
  ultimately show ?thesis using walk map_desc_addr [OF p] by (simp add: mmu_translate_def g)
qed

theorem memory_mapped_one_to_one_witness:
  "\<exists>m. create_page_map 0x200000 (2 ^ 40) CONFIG_KERNEL_ADDR 0x80000 (\<lambda>_. zero_desc) = Some m \<and>
    mmu_translate 0x200000 (snd (init_memory 0x80000 0x200000 0x7C00 xkm m)) 0x1000000 = Some 0x1000000"
proof -
  have ok: "map_ok 0x200000" by (simp add: map_ok_def map_size)
  have k: "0 < (0x80000 :: u64)" "unat (0x80000 :: u64) \<le> 2 ^ 39" "high_mem_hole 0x7C00 \<le> 2 ^ 40" "0x1000000 < high_mem_hole 0x7C00"
    by (simp_all add: high_mem_hole_def)
  have "((2 ^ 40 :: u64) + PAGE_SIZE - 1) div PAGE_SIZE = word_of_nat (512 * 1024)" by simp
  moreover have "filled b f l m0 0 0 0 m0" for b f l m0 by (simp add: filled_def content_def split: entry_kind.splits)
  ultimately obtain m where "create_page_map 0x200000 (2 ^ 40) CONFIG_KERNEL_ADDR 0x80000 (\<lambda>_. zero_desc) = Some m"
    using fill_pml4_filled unfolding create_page_map_def Let_def by metis
  then show ?thesis using memory_mapped_one_to_one [OF ok k(1-3) _ refl k(4)] by blast
qed

theorem kmalloc_blocks_disjoint_witness:
  "fst (kmallocs 0 [24, 100] (fst (init_memory 0x80000 0x200000 0 xkm (\<lambda>_. zero_desc)))) = [0x180000, 0x180018] \<and>
    addrs 0x180000 24 \<inter> addrs 0x180018 100 = {}"
proof -
  let ?s = "fst (init_memory 0x80000 0x200000 0 xkm (\<lambda>_. zero_desc))"
  have l: "lock_free 0 Lock_mem ?s" "lock_free 0 Lock_mem (?s\<lparr>km_next_free := y\<rparr>)" for y
    by (simp_all add: lock_free_def init_memory_def create_spinlock_def xkm_def)
  have k: "kmallocs 0 [24, 100] ?s = ([0x180000, 0x180018], ?s\<lparr>km_next_free := 0x18007C\<rparr>)"
    using l by (simp add: kmalloc_eq) (simp add: init_memory_def create_spinlock_def)
  have "0x100000 + unat (0x80000 :: u64) + sum_list (map unat [24, 100 :: u64]) < 2 ^ 64" by simp
  from kmalloc_blocks_disjoint [OF refl l(1) this k] show ?thesis unfolding k by force
qed

end
