(* ===== verification/Sync.thy ===== *)
theory Sync
  imports Kmemory
begin

text \<open>
  Mutexes and sleeping (\<open>sync.c\<close>, \<open>sync.h\<close>): queues of waiting threads on top of the
  scheduler, the spinlocks and the allocator.
\<close>

section \<open>State\<close>

record mutex_node =
  mn_next :: ptr
  mn_id :: stamp_id

record mutex =
  mx_head :: ptr
  mx_tail :: ptr
  mx_pool :: mem_pool

record sleep_node =
  sn_next :: ptr
  sn_thread :: stamp_id
  sn_ticks :: u64

record sleep_data =
  sd_tail :: ptr
  sd_pool :: mem_pool

text \<open>The mutex objects by their address, the nodes of the two kinds of list, the sleep queues.\<close>

record sync = kmem +
  sy_mutex :: "ptr \<Rightarrow> mutex"
  sy_nodes :: "ptr \<Rightarrow> mutex_node"
  sy_sleep_nodes :: "ptr \<Rightarrow> sleep_node"
  sy_sleeping :: "nat \<Rightarrow> sleep_data"

definition on_mutex :: "ptr \<Rightarrow> (mutex \<Rightarrow> mutex) \<Rightarrow> 'z sync_scheme \<Rightarrow> 'z sync_scheme" where
  "on_mutex a f s = s\<lparr>sy_mutex := (sy_mutex s)(a := f (sy_mutex s a))\<rparr>"

definition on_node :: "ptr \<Rightarrow> (mutex_node \<Rightarrow> mutex_node) \<Rightarrow> 'z sync_scheme \<Rightarrow> 'z sync_scheme" where
  "on_node a f s = s\<lparr>sy_nodes := (sy_nodes s)(a := f (sy_nodes s a))\<rparr>"

definition on_sleep_node :: "ptr \<Rightarrow> (sleep_node \<Rightarrow> sleep_node) \<Rightarrow> 'z sync_scheme \<Rightarrow> 'z sync_scheme" where
  "on_sleep_node a f s = s\<lparr>sy_sleep_nodes := (sy_sleep_nodes s)(a := f (sy_sleep_nodes s a))\<rparr>"

definition on_sleeping :: "nat \<Rightarrow> (sleep_data \<Rightarrow> sleep_data) \<Rightarrow> 'z sync_scheme \<Rightarrow> 'z sync_scheme" where
  "on_sleeping c f s = s\<lparr>sy_sleeping := (sy_sleeping s)(c := f (sy_sleeping s c))\<rparr>"

section \<open>Mutexes\<close>

abbreviation SIZEOF_MUTEX_NODE :: u64 where "SIZEOF_MUTEX_NODE \<equiv> 16"
abbreviation SIZEOF_SLEEP_NODE :: u64 where "SIZEOF_SLEEP_NODE \<equiv> 24"

definition create_mutex :: "ptr \<Rightarrow> 'z sync_scheme \<Rightarrow> err_code \<times> 'z sync_scheme" where
  "create_mutex a s =
     (let (err, pool) = create_mem_pool SIZEOF_MUTEX_NODE;
          s1 = create_spinlock (Lock_ilock a) (create_spinlock (Lock_mlock a)
                 (on_mutex a (\<lambda>m. m\<lparr>mx_head := NULL, mx_tail := NULL\<rparr>) s)) in
      (err, on_mutex a (\<lambda>m. m\<lparr>mx_pool := pool\<rparr>) s1))"

definition destroy_mutex :: "ptr \<Rightarrow> 'z sync_scheme \<Rightarrow> 'z sync_scheme" where
  "destroy_mutex a s = destroy_mem_pool (mx_pool (sy_mutex s a)) s"

text \<open>
  The list operations, lines 33 to 39 and 54 to 57. New nodes join at the end \<open>head\<close>
  points to, and leave at the end \<open>tail\<close> points to.
\<close>

definition enqueue_node :: "ptr \<Rightarrow> ptr \<Rightarrow> stamp_id \<Rightarrow> 'z sync_scheme \<Rightarrow> 'z sync_scheme" where
  "enqueue_node a node i s =
     (let s1 = on_node node (\<lambda>n. n\<lparr>mn_next := NULL, mn_id := i\<rparr>) s;
          head = mx_head (sy_mutex s1 a);
          s2 = (if head \<noteq> NULL then on_node head (\<lambda>n. n\<lparr>mn_next := node\<rparr>) s1 else s1);
          s3 = on_mutex a (\<lambda>m. m\<lparr>mx_head := node\<rparr>) s2 in
      if mx_tail (sy_mutex s3 a) = NULL then on_mutex a (\<lambda>m. m\<lparr>mx_tail := node\<rparr>) s3 else s3)"

definition dequeue_node :: "ptr \<Rightarrow> 'z sync_scheme \<Rightarrow> ptr \<times> 'z sync_scheme" where
  "dequeue_node a s =
     (let node = mx_tail (sy_mutex s a);
          s1 = on_mutex a (\<lambda>m. m\<lparr>mx_tail := mn_next (sy_nodes s node)\<rparr>) s in
      (node, if mx_head (sy_mutex s1 a) = node then on_mutex a (\<lambda>m. m\<lparr>mx_head := NULL\<rparr>) s1 else s1))"

text \<open>
  A thread that has to wait is paused inside the call, and continues behind
  \<open>pause_this_thread\<close> when it is resumed: the state is the one in which it pauses, the error
  code what the call returns then.
\<close>

definition sleep_in_mutex ::
  "machine \<Rightarrow> nat \<Rightarrow> ptr \<Rightarrow> 'z sync_scheme \<Rightarrow> (err_code \<times> 'z sync_scheme) outcome" where
  "sleep_in_mutex E c a s =
     (let s1 = snd (acquire_spinlock c (Lock_ilock a) 0 s);
          (acquired, s2) = acquire_spinlock_int (Lock_mlock a) 1 s1 in
      if acquired then Ret (ERR_NONE, release_spinlock c (Lock_ilock a) s2)
      else
        let (node, s3) = alloc_block c (mx_pool (sy_mutex s2 a)) s2 in
        if node = NULL then Ret (ERR_OUT_OF_MEMORY, release_spinlock c (Lock_ilock a) s3)
        else
          obind (pause_this_thread E c (Lock_ilock a) (enqueue_node a node (get_thread c s3) s3))
            (\<lambda>(_, s4). Ret (ERR_NONE, s4)))"

definition acquire_mutex ::
  "machine \<Rightarrow> nat \<Rightarrow> ptr \<Rightarrow> 'z sync_scheme \<Rightarrow> (err_code \<times> 'z sync_scheme) outcome" where
  "acquire_mutex E c a s =
     (let (acquired, s1) = acquire_spinlock_int (Lock_mlock a) 1000 s in
      if \<not> acquired then sleep_in_mutex E c a s1 else Ret (ERR_NONE, s1))"

text \<open>The loop that wakes the first waiter that can be resumed; the list could be endless.\<close>

partial_function (option) awake_loop ::
  "machine \<Rightarrow> nat \<Rightarrow> ptr \<Rightarrow> 'z sync_scheme \<Rightarrow> 'z sync_scheme outcome option" where
  "awake_loop E c a s =
     (let (node, s1) = dequeue_node a s in
      case resume_thread E c (mn_id (sy_nodes s1 node)) s1 of
        Ret (err, s2) \<Rightarrow>
          let s3 = free_block (mx_pool (sy_mutex s2 a)) node s2 in
          if mx_tail (sy_mutex s3 a) \<noteq> NULL \<and> err \<noteq> ERR_NONE then awake_loop E c a s3 else Some (Ret s3)
      | Hang \<Rightarrow> Some Hang | Halted \<Rightarrow> Some Halted | Undef \<Rightarrow> Some Undef)"

definition awake_in_mutex :: "machine \<Rightarrow> nat \<Rightarrow> ptr \<Rightarrow> 'z sync_scheme \<Rightarrow> 'z sync_scheme outcome" where
  "awake_in_mutex E c a s =
     (case awake_loop E c a s of
        None \<Rightarrow> Hang
      | Some r \<Rightarrow> obind r (\<lambda>s1.
          Ret (if mx_tail (sy_mutex s1 a) = NULL then release_spinlock_int (Lock_mlock a) s1 else s1)))"

definition release_mutex :: "machine \<Rightarrow> nat \<Rightarrow> ptr \<Rightarrow> 'z sync_scheme \<Rightarrow> 'z sync_scheme outcome" where
  "release_mutex E c a s =
     (let s1 = snd (acquire_spinlock c (Lock_ilock a) 0 s) in
      obind (if mx_tail (sy_mutex s1 a) \<noteq> NULL then awake_in_mutex E c a s1
             else Ret (release_spinlock_int (Lock_mlock a) s1))
        (\<lambda>s2. Ret (release_spinlock c (Lock_ilock a) s2)))"

section \<open>Sleeping\<close>

abbreviation CONFIG_SCHEDULER_TICK_INTERVAL :: u64 where "CONFIG_SCHEDULER_TICK_INTERVAL \<equiv> 1000"

definition sleep_timer_proc ::
  "machine \<Rightarrow> nat \<Rightarrow> u64 \<Rightarrow> 'z sync_scheme \<Rightarrow> 'z sync_scheme outcome" where
  "sleep_timer_proc E c ticks s =
     (let node = sd_tail (sy_sleeping s c) in
      if node \<noteq> NULL then
        let s1 = on_sleeping c (\<lambda>d. d\<lparr>sd_tail := sn_next (sy_sleep_nodes s node)\<rparr>) s;
            tail = sd_tail (sy_sleeping s1 c);
            s2 = (if tail \<noteq> NULL then set_timer_ticks c (sn_ticks (sy_sleep_nodes s1 tail)) s1 else s1) in
        obind (resume_thread E c (sn_thread (sy_sleep_nodes s2 node)) s2)
          (\<lambda>(_, s3). Ret (free_block (sd_pool (sy_sleeping s3 c)) node s3))
      else Ret s)"

text \<open>The loop that finds the node to insert behind, lines 106 to 108.\<close>

partial_function (option) find_prev :: "(ptr \<Rightarrow> sleep_node) \<Rightarrow> u64 \<Rightarrow> ptr \<Rightarrow> ptr option" where
  "find_prev h ticks prev =
     (if sn_next (h prev) \<noteq> NULL \<and> sn_ticks (h (sn_next (h prev))) \<le> ticks
      then find_prev h ticks (sn_next (h prev)) else Some prev)"

definition insert_sleeper :: "nat \<Rightarrow> ptr \<Rightarrow> 'z sync_scheme \<Rightarrow> 'z sync_scheme outcome" where
  "insert_sleeper c node s =
     (let tail = sd_tail (sy_sleeping s c); ticks = sn_ticks (sy_sleep_nodes s node) in
      if tail = NULL \<or> ticks < sn_ticks (sy_sleep_nodes s tail) then
        Ret (set_timer_ticks c ticks
          (on_sleeping c (\<lambda>d. d\<lparr>sd_tail := node\<rparr>) (on_sleep_node node (\<lambda>n. n\<lparr>sn_next := tail\<rparr>) s)))
      else
        (case find_prev (sy_sleep_nodes s) ticks tail of
           None \<Rightarrow> Hang
         | Some prev \<Rightarrow>
             Ret (on_sleep_node prev (\<lambda>n. n\<lparr>sn_next := node\<rparr>)
               (on_sleep_node node (\<lambda>n. n\<lparr>sn_next := sn_next (sy_sleep_nodes s prev)\<rparr>) s))))"

definition sleep ::
  "machine \<Rightarrow> nat \<Rightarrow> u64 \<Rightarrow> 'z sync_scheme \<Rightarrow> (err_code \<times> 'z sync_scheme) outcome" where
  "sleep E c period s =
     (let s1 = snd (acquire_spinlock c (Lock_sleep c) 0 s);
          (node, s2) = alloc_block c (sd_pool (sy_sleeping s1 c)) s1 in
      if node = NULL then Ret (ERR_OUT_OF_MEMORY, release_spinlock c (Lock_sleep c) s2)
      else
        let s3 = on_sleep_node node (\<lambda>n. n\<lparr>sn_thread := get_thread c s2,
               sn_ticks := get_ticks s2 + period div CONFIG_SCHEDULER_TICK_INTERVAL\<rparr>) s2 in
        obind (insert_sleeper c node s3) (\<lambda>s4.
        obind (pause_this_thread E c (Lock_sleep c) s4) (\<lambda>(_, s5). Ret (ERR_NONE, s5))))"

text \<open>\<open>proc\<close> is the address of \<open>sleep_timer_proc\<close>; the pools are created for every CPU.\<close>

definition init_sync :: "machine \<Rightarrow> ptr \<Rightarrow> 'z sync_scheme \<Rightarrow> 'z sync_scheme outcome" where
  "init_sync E proc s =
     foldl (\<lambda>r i. obind r (\<lambda>s1.
         let (err, pool) = create_mem_pool SIZEOF_SLEEP_NODE in
         if err \<noteq> ERR_NONE then Halted else Ret (on_sleeping i (\<lambda>d. d\<lparr>sd_pool := pool\<rparr>) s1)))
       (Ret (set_timer_proc proc s)) [0..<m_cpus E]"

end
