(* ===== verification/Sched_Frame.thy ===== *)
theory Sched_Frame
  imports Scheduler
begin

text \<open>
  The scheduler leaves the state of the components built on it alone: whatever extends the
  record \<open>kstate\<close> is the same when an operation returns, and so are the clock and the timers.
\<close>

definition others :: "'z kstate_scheme \<Rightarrow> u64 \<times> (nat \<Rightarrow> u64) \<times> ptr \<times> 'z" where
  "others s = (ks_ticks s, ks_timer_ticks s, ks_timer_proc s, kstate.more s)"

lemma more_lock [frame_simps]:
  "others (snd (acquire_spinlock c l n s)) = others s"
  "others (release_spinlock c l s) = others s"
  "others (release_spinlock_int l s) = others s"
  "others (set_outer_spinlock c b s) = others s" "others (cli c s) = others s"
  by (auto simp: acquire_spinlock_def release_spinlock_def release_spinlock_int_def cmpxchgq_def acquire_spinlock_int_eq
      set_outer_def set_outer_spinlock_def cli_def sti_def Let_def others_def split: if_splits)

lemma others_update [frame_simps]:
  "others (s\<lparr>ks_thr := h\<rparr>) = others s" "others (s\<lparr>ks_cpus := d\<rparr>) = others s" "others (s\<lparr>ks_ctx := x\<rparr>) = others s"
  "others (s\<lparr>hw_if := i\<rparr>) = others s"
  by (simp_all add: others_def)

lemma more_ops [frame_simps]:
  "others (on_thread t f s) = others s" "others (on_cpu c g s) = others s"
  "others (on_task c k s) = others s" "others (set_thread_ptr c t s) = others s"
  "others (set_eoi c s) = others s" "others (load_thread_context fr t s) = others s"
  "others (remove_inactive t s) = others s" "others (push_inactive t s) = others s"
  by (simp_all add: on_thread_def on_cpu_def on_task_def set_thread_ptr_def set_eoi_def load_thread_context_def
      remove_inactive_def push_inactive_def Let_def others_def)

lemma do_resume_task_more: "do_resume_task c s = Ret s' \<Longrightarrow> others s' = others s"
  by (auto simp: do_resume_task_def Let_def obind_Ret_iff frame_simps)

lemma do_pause_task_more: "do_pause_task E c f s = Ret (f', s') \<Longrightarrow> others s' = others s"
  by (auto simp: do_pause_task_def Let_def obind_Ret_iff frame_simps split: if_splits option.splits)

lemma do_self_halt_task_more: "do_self_halt_task E c f s = Ret (f', s') \<Longrightarrow> others s' = others s"
  by (auto simp: do_self_halt_task_def Let_def frame_simps split: if_splits option.splits)

lemma handle_task_int_more: "handle_task_int E c f s = Ret (f', s') \<Longrightarrow> others s' = others s"
  by (auto simp: handle_task_int_def obind_Ret_iff frame_simps split: task_type.splits
      dest: do_resume_task_more do_pause_task_more do_self_halt_task_more)

lemma run_isr_more: "run_isr c (handle_task_int E k) s = Ret s' \<Longrightarrow> others s' = others s"
  by (auto simp: run_isr_def obind_Ret_iff frame_simps split: option.splits dest!: handle_task_int_more)

lemma run_cpu_task_more: "run_cpu_task E c k task s = Ret (task', s') \<Longrightarrow> others s' = others s"
  by (auto simp: run_cpu_task_def Let_def obind_Ret_iff frame_simps split: if_splits
      dest!: handle_task_int_more run_isr_more)

lemma resume_thread_more: "resume_thread E c i s = Ret (err, s') \<Longrightarrow> others s' = others s"
  by (auto simp: resume_thread_def Let_def obind_Ret_iff frame_simps split: sum.splits if_splits dest!: run_cpu_task_more)

lemma deactivate_running_more:
  "deactivate_running E c stop t out l s = Ret (err, h, s') \<Longrightarrow> others s' = others s"
  by (auto simp: deactivate_running_def Let_def obind_Ret_iff frame_simps split: if_splits
      dest!: run_cpu_task_more run_isr_more)

lemma deactivate_loop_more:
  "deactivate_loop n E c stop t out l (err, h, s) = Ret (err', h', s') \<Longrightarrow> others s' = others s"
  by (induction n arbitrary: err h s)
    (auto simp: obind_Ret_iff frame_simps split: thread_state.splits if_splits dest!: deactivate_running_more)

lemma deactivate_thread_more:
  "deactivate_thread E c stop i out l s = Ret (err, s') \<Longrightarrow> others s' = others s"
  by (auto simp: deactivate_thread_def Let_def obind_Ret_iff frame_simps split: sum.splits if_splits
      dest!: deactivate_loop_more)

lemma attach_thread_more: "attach_thread E c t w s = (e, r, s') \<Longrightarrow> others s' = others s"
proof -
  have u: "others (push_all t s) = others s" "others (s\<lparr>ks_stamp := g\<rparr>) = others s" for s :: "'a kstate_scheme" and g
    by (simp_all add: push_all_def others_def)
  assume "attach_thread E c t w s = (e, r, s')"
  then show ?thesis by (auto simp: attach_thread_def Let_def u frame_simps split: if_splits prod.splits)
qed

end
