(* ===== verification/Sched_Struct.thy ===== *)
theory Sched_Struct
  imports Scheduler
begin

text \<open>
  The lists of the scheduler, all together: the list of all threads, the inactive list and
  the run queues of every CPU are well formed, hold no thread twice and share no thread. The
  lemmas say what each list operation of the code does to this picture.
\<close>

section \<open>The picture\<close>

record view =
  v_all :: "ptr list"
  v_inactive :: "ptr list"
  v_queue :: "nat \<Rightarrow> nat \<Rightarrow> tqueue"

definition qset :: "view \<Rightarrow> nat \<Rightarrow> nat \<Rightarrow> ptr set" where
  "qset v c p = set (qlist (v_queue v c p))"

definition v_queue_upd :: "nat \<Rightarrow> nat \<Rightarrow> (tqueue \<Rightarrow> tqueue) \<Rightarrow> view \<Rightarrow> view" where
  "v_queue_upd c p f v =
     v\<lparr>v_queue := (v_queue v)(c := (v_queue v c)(p := f (v_queue v c p)))\<rparr>"

lemma v_queue_upd_simps [simp]:
  "v_all (v_queue_upd c p f v) = v_all v" "v_inactive (v_queue_upd c p f v) = v_inactive v"
  "v_queue (v_queue_upd c p f v) c' p' =
     (if c' = c \<and> p' = p then f (v_queue v c p) else v_queue v c' p')"
  by (auto simp: v_queue_upd_def)

definition load :: "(nat \<Rightarrow> tqueue) \<Rightarrow> nat" where
  "load Q = (\<Sum>p<CONFIG_SCHEDULER_PRIORITIES. length (qlist (Q p)))"

definition mask_ok :: "u64 list \<Rightarrow> (nat \<Rightarrow> tqueue) \<Rightarrow> bool" where
  "mask_ok m Q \<longleftrightarrow> length m = PRIORITY_MASK_SIZE \<and>
     (\<forall>p<64. arr_bit m p \<longleftrightarrow> p < CONFIG_SCHEDULER_PRIORITIES \<and> qlist (Q p) \<noteq> [])"

definition cpu_struct :: "theap \<Rightarrow> cpu_data \<Rightarrow> (nat \<Rightarrow> tqueue) \<Rightarrow> bool" where
  "cpu_struct h d Q \<longleftrightarrow>
     (\<forall>p<CONFIG_SCHEDULER_PRIORITIES. prio_rep h (cd_priorities d p) (Q p) \<and> q_ok (Q p)) \<and>
     mask_ok (cd_priority_mask d) Q \<and> cd_total_threads d = word_of_nat (load Q)"

text \<open>The thread is on none of the \<open>prev\<close>/\<open>next\<close> lists.\<close>

definition loose :: "nat \<Rightarrow> view \<Rightarrow> ptr \<Rightarrow> bool" where
  "loose n v t \<longleftrightarrow> t \<notin> set (v_inactive v) \<and>
     (\<forall>c<n. \<forall>p<CONFIG_SCHEDULER_PRIORITIES. t \<notin> qset v c p)"

definition apart :: "nat \<Rightarrow> view \<Rightarrow> bool" where
  "apart n v \<longleftrightarrow> set (v_inactive v) \<subseteq> set (v_all v) \<and>
     (\<forall>c<n. \<forall>p<CONFIG_SCHEDULER_PRIORITIES.
        qset v c p \<subseteq> set (v_all v) \<and> qset v c p \<inter> set (v_inactive v) = {} \<and>
        (\<forall>c'<n. \<forall>p'<CONFIG_SCHEDULER_PRIORITIES.
           (c, p) \<noteq> (c', p') \<longrightarrow> qset v c p \<inter> qset v c' p' = {}))"

definition struct ::
  "nat \<Rightarrow> theap \<Rightarrow> (nat \<Rightarrow> cpu_data) \<Rightarrow> thread_list \<Rightarrow> thread_list \<Rightarrow> view \<Rightarrow> bool" where
  "struct n h cpus al inact v \<longleftrightarrow>
     dlist (all_next_of h) (all_prev_of h) (tl_tail al) (v_all v) \<and>
     tl_total_threads al = word_of_nat (length (v_all v)) \<and>
     dlist (next_of h) (prev_of h) (tl_tail inact) (v_inactive v) \<and>
     tl_total_threads inact = word_of_nat (length (v_inactive v)) \<and>
     length (v_all v) < 2 ^ 31 - 1 \<and>
     (\<forall>c<n. cpu_struct h (cpus c) (v_queue v c)) \<and> apart n v"

lemma structD:
  assumes "struct n h cpus al inact v"
  shows "dlist (all_next_of h) (all_prev_of h) (tl_tail al) (v_all v)"
    "dlist (next_of h) (prev_of h) (tl_tail inact) (v_inactive v)"
    "\<And>c. c < n \<Longrightarrow> cpu_struct h (cpus c) (v_queue v c)" "apart n v"
    "length (v_all v) < 2 ^ 31 - 1"
  using assms by (auto simp: struct_def)

lemma apartD:
  assumes "apart n v" "c < n" "p < CONFIG_SCHEDULER_PRIORITIES"
  shows "qset v c p \<subseteq> set (v_all v)" "qset v c p \<inter> set (v_inactive v) = {}"
    "\<And>c' p'. c' < n \<Longrightarrow> p' < CONFIG_SCHEDULER_PRIORITIES \<Longrightarrow> (c, p) \<noteq> (c', p') \<Longrightarrow>
       qset v c p \<inter> qset v c' p' = {}"
  using assms unfolding apart_def by blast+

section \<open>Sizes\<close>

lemma load_le:
  assumes "apart n v" "c < n" "\<forall>p<CONFIG_SCHEDULER_PRIORITIES. q_ok (v_queue v c p)"
  shows "load (v_queue v c) \<le> length (v_all v)"
proof -
  have "load (v_queue v c) = (\<Sum>p<CONFIG_SCHEDULER_PRIORITIES. card (qset v c p))"
    using assms(3) by (auto simp: load_def qset_def q_ok_def distinct_card intro!: sum.cong)
  also have "\<dots> = card (\<Union>p<CONFIG_SCHEDULER_PRIORITIES. qset v c p)"
    using apartD(3) [OF assms(1,2) _ assms(2)] by (intro card_UN_disjoint [symmetric]) (auto simp: qset_def)
  also have "\<dots> \<le> card (set (v_all v))"
    using apartD(1) [OF assms(1,2)] by (intro card_mono) auto
  also have "\<dots> \<le> length (v_all v)" by (rule card_length)
  finally show ?thesis .
qed

lemma queue_le_load: "p < CONFIG_SCHEDULER_PRIORITIES \<Longrightarrow> length (qlist (Q p)) \<le> load Q"
  unfolding load_def by (rule member_le_sum) auto

lemma load_0_iff: "load Q = 0 \<longleftrightarrow> (\<forall>p<CONFIG_SCHEDULER_PRIORITIES. qlist (Q p) = [])"
  by (simp add: load_def Ball_def)

lemma load_upd:
  assumes "p < CONFIG_SCHEDULER_PRIORITIES"
  shows "load (Q(p := q)) + length (qlist (Q p)) = load Q + length (qlist q)"
proof -
  have split: "load R = length (qlist (R p)) + (\<Sum>k\<in>{..<8} - {p}. length (qlist (R k)))" for R
    unfolding load_def using assms by (intro sum.remove) auto
  have "(\<Sum>k\<in>{..<8} - {p}. length (qlist ((Q(p := q)) k))) = (\<Sum>k\<in>{..<8} - {p}. length (qlist (Q k)))"
    by (intro sum.cong) auto
  with split [of "Q(p := q)"] split [of Q] show ?thesis by simp
qed

lemma struct_load:
  assumes "struct n h cpus al inact v" "c < n"
  shows "load (v_queue v c) \<le> length (v_all v)" "load (v_queue v c) < 2 ^ 31 - 1"
    "cd_total_threads (cpus c) = word_of_nat (load (v_queue v c))"
    "cd_total_threads (cpus c) = 0 \<longleftrightarrow> load (v_queue v c) = 0"
proof -
  note d = structD [OF assms(1)]
  show le: "load (v_queue v c) \<le> length (v_all v)"
    using d(3) [OF assms(2)] by (intro load_le [OF d(4) assms(2)]) (simp add: cpu_struct_def)
  show lt: "load (v_queue v c) < 2 ^ 31 - 1" using le d(5) by linarith
  show w: "cd_total_threads (cpus c) = word_of_nat (load (v_queue v c))"
    using d(3) [OF assms(2)] by (simp add: cpu_struct_def)
  have "load (v_queue v c) < 2 ^ 32" using lt by simp
  then show "cd_total_threads (cpus c) = 0 \<longleftrightarrow> load (v_queue v c) = 0"
    unfolding w by (rule of_nat_eq_0_iff32)
qed

lemma struct_queue:
  assumes "struct n h cpus al inact v" "c < n" "p < CONFIG_SCHEDULER_PRIORITIES"
  shows "prio_rep h (cd_priorities (cpus c) p) (v_queue v c p)" "q_ok (v_queue v c p)"
    "length (qlist (v_queue v c p)) < 2 ^ 32"
proof -
  have "cpu_struct h (cpus c) (v_queue v c)" using structD(3) [OF assms(1,2)] .
  then show "prio_rep h (cd_priorities (cpus c) p) (v_queue v c p)" "q_ok (v_queue v c p)"
    using assms(3) by (auto simp: cpu_struct_def)
  show "length (qlist (v_queue v c p)) < 2 ^ 32"
    using queue_le_load [OF assms(3), of "v_queue v c"] struct_load(2) [OF assms(1,2)] by simp
qed

section \<open>Writes that keep the picture\<close>

lemma struct_upd_thread:
  assumes "struct n h cpus al inact v" "keeps_links f"
  shows "struct n (upd_thread t f h) cpus al inact v"
proof -
  have "prio_rep (upd_thread t f h) prio q \<longleftrightarrow> prio_rep h prio q" for prio q
    using assms(2) by (simp add: prio_rep_def)
  then show ?thesis using assms by (simp add: struct_def cpu_struct_def)
qed

text \<open>A write to the links of a thread that is on no list.\<close>

lemma struct_loose_heap:
  assumes st: "struct n h cpus al inact v" and l: "loose n v t"
    and so: "same_outside {t} h h'"
  shows "struct n h' cpus al inact v"
proof -
  have "prio_rep h' (cd_priorities (cpus c) p) (v_queue v c p)" if "c < n" "p < 8" for c p
    using struct_queue(1) [OF st that] l that
    by (subst same_outside_prio_rep [OF so]) (auto simp: loose_def qset_def)
  moreover have "dlist (next_of h') (prev_of h') (tl_tail inact) (v_inactive v)"
    using structD(2) [OF st] l by (subst same_outside_dlist [OF so]) (auto simp: loose_def)
  moreover have "all_next_of h' = all_next_of h" "all_prev_of h' = all_prev_of h"
    using so by (auto simp: same_outside_def)
  ultimately show ?thesis using st by (auto simp: struct_def cpu_struct_def)
qed

lemma struct_cpu_fields:
  assumes "struct n h cpus al inact v"
    and "cd_priorities d = cd_priorities (cpus c)" "cd_priority_mask d = cd_priority_mask (cpus c)"
      "cd_total_threads d = cd_total_threads (cpus c)"
  shows "struct n h (cpus(c := d)) al inact v"
  using assms by (auto simp: struct_def cpu_struct_def)

section \<open>The list of all threads and the inactive list\<close>

abbreviation kstruct :: "nat \<Rightarrow> 'z kstate_scheme \<Rightarrow> view \<Rightarrow> bool" where
  "kstruct n s v \<equiv> struct n (ks_thr s) (ks_cpus s) (ks_all s) (ks_inactive s) v"

lemma list_ops_frame [simp]:
  "ks_cpus (push_all t s) = ks_cpus s" "ks_cpus (push_inactive t s) = ks_cpus s"
  "ks_cpus (remove_all t s) = ks_cpus s" "ks_cpus (remove_inactive t s) = ks_cpus s"
  "ks_inactive (push_all t s) = ks_inactive s" "ks_inactive (remove_all t s) = ks_inactive s"
  "ks_all (push_inactive t s) = ks_all s" "ks_all (remove_inactive t s) = ks_all s"
  by (simp_all add: push_all_def push_inactive_def remove_all_def remove_inactive_def Let_def)

lemma list_ops_core [simp]:
  "core (ks_thr (push_all t s) a) = core (ks_thr s a)"
  "core (ks_thr (push_inactive t s) a) = core (ks_thr s a)"
  "core (ks_thr (remove_all t s) a) = core (ks_thr s a)"
  "core (ks_thr (remove_inactive t s) a) = core (ks_thr s a)"
  by (simp_all add: push_all_def push_inactive_def remove_all_def remove_inactive_def Let_def)

lemma length_remove1_word:
  "x \<in> set xs \<Longrightarrow> (word_of_nat (length xs) :: i32) - 1 = word_of_nat (length (remove1 x xs))"
  by (cases "length xs") (auto simp: length_remove1)

lemma apart_inactive:
  assumes "apart n v" "set xs \<subseteq> set (v_all v)"
    "\<And>c p. c < n \<Longrightarrow> p < CONFIG_SCHEDULER_PRIORITIES \<Longrightarrow> qset v c p \<inter> set xs = {}"
  shows "apart n (v\<lparr>v_inactive := xs\<rparr>)"
  using assms by (simp add: apart_def qset_def)

lemma apart_all:
  assumes "apart n v" "set (v_inactive v) \<subseteq> set xs"
    "\<And>c p. c < n \<Longrightarrow> p < CONFIG_SCHEDULER_PRIORITIES \<Longrightarrow> qset v c p \<subseteq> set xs"
  shows "apart n (v\<lparr>v_all := xs\<rparr>)"
  using assms by (simp add: apart_def qset_def)

lemma apart_inact_all: "apart n v \<Longrightarrow> set (v_inactive v) \<subseteq> set (v_all v)"
  by (simp add: apart_def)

lemma struct_same_outside:
  assumes st: "struct n h cpus al inact v" and so: "same_outside A h h'"
    and dj: "\<And>c p. c < n \<Longrightarrow> p < CONFIG_SCHEDULER_PRIORITIES \<Longrightarrow> qset v c p \<inter> A = {}"
    and ap: "apart n v'" and v': "v_all v' = v_all v" "v_queue v' = v_queue v"
    and inact': "dlist (next_of h') (prev_of h') (tl_tail inact') (v_inactive v')"
      "tl_total_threads inact' = word_of_nat (length (v_inactive v'))"
  shows "struct n h' cpus al inact' v'"
proof -
  have "prio_rep h' (cd_priorities (cpus c) p) (v_queue v c p)" if "c < n" "p < 8" for c p
    using struct_queue(1) [OF st that] dj [OF that]
    by (subst same_outside_prio_rep [OF so]) (auto simp: qset_def)
  moreover have "all_next_of h' = all_next_of h" "all_prev_of h' = all_prev_of h"
    using so by (auto simp: same_outside_def)
  ultimately show ?thesis using st ap v' inact' by (auto simp: struct_def cpu_struct_def)
qed

lemma struct_remove_inactive:
  assumes st: "kstruct n s v" and t: "t \<in> set (v_inactive v)"
  defines "v' \<equiv> v\<lparr>v_inactive := remove1 t (v_inactive v)\<rparr>"
  shows "kstruct n (remove_inactive t s) v'" and "loose n v' t"
proof -
  note d = structD [OF st]
  define h' where "h' = unlink_node next_of prev_of set_next set_prev t (ks_thr s)"
  note u = run_links.unlink_dlist [OF d(2) t, folded h'_def]
  have dist: "distinct (v_inactive v)" using d(2) by (rule dlist_distinct)
  have so: "same_outside (set (v_inactive v)) (ks_thr s) h'"
    unfolding same_outside_def using u(4,5) by (auto simp: h'_def)
  have ap: "apart n v'" unfolding v'_def
    by (rule apart_inactive [OF d(4)])
      (use apart_inact_all [OF d(4)] apartD(2) [OF d(4)] set_remove1_subset [of t "v_inactive v"] in blast)+
  have tot: "tl_total_threads (ks_inactive s) = word_of_nat (length (v_inactive v))"
    using st by (simp add: struct_def)
  have "struct n h' (ks_cpus s) (ks_all s)
      \<lparr>tl_total_threads = tl_total_threads (ks_inactive s) - 1,
       tl_tail = (if tl_tail (ks_inactive s) = t then next_of h' t else tl_tail (ks_inactive s))\<rparr> v'"
    by (rule struct_same_outside [OF st so apartD(2) [OF d(4)] ap])
      (use u(1) length_remove1_word [OF t] tot in \<open>simp_all add: v'_def\<close>)
  then show "kstruct n (remove_inactive t s) v'"
    by (simp only: remove_inactive_def Let_def h'_def [symmetric]) simp
  show "loose n v' t" using dist t apartD(2) [OF d(4)] by (auto simp: loose_def v'_def qset_def)
qed

lemma struct_push_inactive:
  assumes st: "kstruct n s v" and t: "t \<in> set (v_all v)" "loose n v t" "prev_of (ks_thr s) t = NULL"
  shows "kstruct n (push_inactive t s) (v\<lparr>v_inactive := t # v_inactive v\<rparr>)"
proof -
  note d = structD [OF st]
  define v' where "v' = v\<lparr>v_inactive := t # v_inactive v\<rparr>"
  define h' where "h' = link_front set_next set_prev (tl_tail (ks_inactive s)) t (ks_thr s)"
  have t0: "t \<noteq> NULL" "t \<notin> set (v_inactive v)"
    using dlist_nonnull [OF d(1) t(1)] t(2) by (auto simp: loose_def)
  note f = run_links.front_dlist [OF d(2) t0 t(3), folded h'_def]
  have tl: "tl_tail (ks_inactive s) \<noteq> NULL \<Longrightarrow> tl_tail (ks_inactive s) \<in> set (v_inactive v)"
    using d(2) by (cases "v_inactive v") (auto simp: dlist_def)
  have so: "same_outside (set (t # v_inactive v)) (ks_thr s) h'"
    unfolding same_outside_def h'_def using tl by (auto simp: run_links.front_fields)
  have dj: "qset v c p \<inter> set (t # v_inactive v) = {}" if "c < n" "p < 8" for c p
    using apartD(2) [OF d(4) that] t(2) that by (auto simp: loose_def)
  have ap: "apart n v'" unfolding v'_def
    by (rule apart_inactive [OF d(4) _ dj]) (use apart_inact_all [OF d(4)] t(1) in auto)
  have tot: "tl_total_threads (ks_inactive s) = word_of_nat (length (v_inactive v))"
    using st by (simp add: struct_def)
  have "struct n h' (ks_cpus s) (ks_all s)
      \<lparr>tl_total_threads = tl_total_threads (ks_inactive s) + 1, tl_tail = t\<rparr> v'"
    by (rule struct_same_outside [OF st so dj ap]) (use f tot in \<open>simp_all add: v'_def\<close>)
  then show ?thesis
    by (simp only: push_inactive_def v'_def h'_def) simp
qed

lemma struct_push_all:
  assumes st: "kstruct n s v" and t: "t \<noteq> NULL" "t \<notin> set (v_all v)" "all_prev_of (ks_thr s) t = NULL"
    and len: "length (v_all v) < 2 ^ 31 - 2"
  shows "kstruct n (push_all t s) (v\<lparr>v_all := t # v_all v\<rparr>)"
proof -
  note d = structD [OF st]
  define h' where "h' = link_front set_all_next set_all_prev (tl_tail (ks_all s)) t (ks_thr s)"
  have "prio_rep h' prio q \<longleftrightarrow> prio_rep (ks_thr s) prio q" for prio q
    by (simp add: prio_rep_def h'_def)
  moreover have "apart n (v\<lparr>v_all := t # v_all v\<rparr>)"
    by (rule apart_all [OF d(4)]) (use apart_inact_all [OF d(4)] apartD(1) [OF d(4)] in fastforce)+
  ultimately show ?thesis
    using st len all_links.front_dlist [OF d(1) t]
    by (simp add: push_all_def Let_def h'_def [symmetric] struct_def cpu_struct_def)
      (simp add: h'_def)
qed

lemma struct_remove_all:
  assumes st: "kstruct n s v" and t: "t \<in> set (v_all v)" "loose n v t"
  shows "kstruct n (remove_all t s) (v\<lparr>v_all := remove1 t (v_all v)\<rparr>)"
proof -
  note d = structD [OF st]
  define h' where "h' = unlink_node all_next_of all_prev_of set_all_next set_all_prev t (ks_thr s)"
  have dist: "distinct (v_all v)" using d(1) by (rule dlist_distinct)
  have "prio_rep h' prio q \<longleftrightarrow> prio_rep (ks_thr s) prio q" for prio q
    by (simp add: prio_rep_def h'_def)
  moreover have "apart n (v\<lparr>v_all := remove1 t (v_all v)\<rparr>)"
    by (rule apart_all [OF d(4)])
      (use apart_inact_all [OF d(4)] apartD(1) [OF d(4)] t(2) dist in \<open>fastforce simp: loose_def\<close>)+
  moreover have "length (remove1 t (v_all v)) < 2 ^ 31 - 1"
    using d(5) by (simp add: length_remove1 less_imp_diff_less)
  ultimately show ?thesis
    using st all_links.unlink_dlist(1) [OF d(1) t(1)] length_remove1_word [OF t(1)]
    by (simp add: remove_all_def Let_def h'_def [symmetric] struct_def cpu_struct_def)
      (auto simp: h'_def split: if_splits)
qed

section \<open>The run queues\<close>

lemma mask_ok_SET:
  "mask_ok m Q \<Longrightarrow> p < CONFIG_SCHEDULER_PRIORITIES \<Longrightarrow> qlist q \<noteq> [] \<Longrightarrow>
     mask_ok (BIT_ARRAY_SET m p) (Q(p := q))"
  by (auto simp: mask_ok_def arr_bit_SET)

lemma mask_ok_RESET:
  "mask_ok m Q \<Longrightarrow> p < CONFIG_SCHEDULER_PRIORITIES \<Longrightarrow> qlist q = [] \<Longrightarrow>
     mask_ok (BIT_ARRAY_RESET m p) (Q(p := q))"
  by (auto simp: mask_ok_def arr_bit_RESET)

lemma mask_ok_same:
  "mask_ok m Q \<Longrightarrow> p < CONFIG_SCHEDULER_PRIORITIES \<Longrightarrow> qlist (Q p) \<noteq> [] \<Longrightarrow> qlist q \<noteq> [] \<Longrightarrow>
     mask_ok m (Q(p := q))"
  by (auto simp: mask_ok_def)

lemma apart_queue:
  assumes ap: "apart n v" and c: "c < n" "p < CONFIG_SCHEDULER_PRIORITIES"
    and q: "set (qlist q) \<subseteq> A" and A: "A \<subseteq> set (v_all v)" "A \<inter> set (v_inactive v) = {}"
      "\<And>c' p'. c' < n \<Longrightarrow> p' < CONFIG_SCHEDULER_PRIORITIES \<Longrightarrow> (c', p') \<noteq> (c, p) \<Longrightarrow>
         qset v c' p' \<inter> A = {}"
  shows "apart n (v_queue_upd c p (\<lambda>_. q) v)"
proof -
  let ?v = "v_queue_upd c p (\<lambda>_. q) v"
  have qs: "qset ?v c' p' = (if c' = c \<and> p' = p then set (qlist q) else qset v c' p')" for c' p'
    by (simp add: qset_def)
  show ?thesis
    unfolding apart_def
  proof (intro conjI allI impI)
    show "set (v_inactive ?v) \<subseteq> set (v_all ?v)" using apart_inact_all [OF ap] by simp
  next
    fix c' p' assume c': "c' < n" "p' < CONFIG_SCHEDULER_PRIORITIES"
    show "qset ?v c' p' \<subseteq> set (v_all ?v)" "qset ?v c' p' \<inter> set (v_inactive ?v) = {}"
      using apartD(1,2) [OF ap c'] q A(1,2) by (auto simp: qs)
    fix c2 p2 assume c2: "c2 < n" "p2 < CONFIG_SCHEDULER_PRIORITIES" "(c', p') \<noteq> (c2, p2)"
    show "qset ?v c' p' \<inter> qset ?v c2 p2 = {}"
      using apartD(3) [OF ap c' c2] A(3) [OF c'] A(3) [OF c2(1,2)] q c2(3) unfolding qs
      by (simp split: if_splits) blast+
  qed
qed

lemma struct_queue_change:
  assumes st: "struct n h cpus al inact v" and c: "c < n" "p < CONFIG_SCHEDULER_PRIORITIES"
    and so: "same_outside A h h'"
    and q: "prio_rep h' (cd_priorities d p) q" "q_ok q" "set (qlist q) \<subseteq> A"
      "\<And>k. k \<noteq> p \<Longrightarrow> cd_priorities d k = cd_priorities (cpus c) k"
      "mask_ok (cd_priority_mask d) ((v_queue v c)(p := q))"
      "cd_total_threads d = word_of_nat (load ((v_queue v c)(p := q)))"
    and A: "A \<subseteq> set (v_all v)" "A \<inter> set (v_inactive v) = {}"
      "\<And>c' p'. c' < n \<Longrightarrow> p' < CONFIG_SCHEDULER_PRIORITIES \<Longrightarrow> (c', p') \<noteq> (c, p) \<Longrightarrow>
         qset v c' p' \<inter> A = {}"
  shows "struct n h' (cpus(c := d)) al inact (v_queue_upd c p (\<lambda>_. q) v)"
proof -
  let ?v = "v_queue_upd c p (\<lambda>_. q) v"
  have other: "prio_rep h' (cd_priorities (cpus c') p') (v_queue v c' p') \<and> q_ok (v_queue v c' p')"
    if "c' < n" "p' < 8" "(c', p') \<noteq> (c, p)" for c' p'
    using struct_queue(1,2) [OF st that(1,2)] A(3) [OF that]
      same_outside_prio_rep [OF so, of "v_queue v c' p'"] by (simp add: qset_def)
  have Qc: "v_queue ?v c' = (if c' = c then (v_queue v c)(p := q) else v_queue v c')" for c'
    by (auto simp: v_queue_upd_def)
  have "cpu_struct h' ((cpus(c := d)) c') (v_queue ?v c')" if "c' < n" for c'
  proof (cases "c' = c")
    case True
    with q other c show ?thesis by (auto simp: cpu_struct_def Qc)
  next
    case False
    with other that structD(3) [OF st that] show ?thesis by (simp add: cpu_struct_def Qc)
  qed
  moreover have "dlist (next_of h') (prev_of h') (tl_tail inact) (v_inactive v)"
    using structD(2) [OF st] A(2) by (subst same_outside_dlist [OF so]) auto
  moreover have "all_next_of h' = all_next_of h" "all_prev_of h' = all_prev_of h"
    using so by (auto simp: same_outside_def)
  ultimately show ?thesis
    using st apart_queue [OF structD(4) [OF st] c q(3) A] by (simp add: struct_def)
qed

text \<open>What \<open>A\<close> may be in the lemma above: a queue, with or without a loose thread.\<close>

lemma queue_footprint:
  assumes "apart n v" "c < n" "p < CONFIG_SCHEDULER_PRIORITIES"
  shows "qset v c p \<subseteq> set (v_all v)" "qset v c p \<inter> set (v_inactive v) = {}"
    "\<And>c' p'. c' < n \<Longrightarrow> p' < CONFIG_SCHEDULER_PRIORITIES \<Longrightarrow> (c', p') \<noteq> (c, p) \<Longrightarrow>
       qset v c' p' \<inter> qset v c p = {}"
  using apartD [OF assms(1)] assms(2,3) by blast+

lemma queue_footprint_insert:
  assumes "apart n v" "c < n" "p < CONFIG_SCHEDULER_PRIORITIES" "loose n v t" "t \<in> set (v_all v)"
  shows "insert t (qset v c p) \<subseteq> set (v_all v)" "insert t (qset v c p) \<inter> set (v_inactive v) = {}"
    "\<And>c' p'. c' < n \<Longrightarrow> p' < CONFIG_SCHEDULER_PRIORITIES \<Longrightarrow> (c', p') \<noteq> (c, p) \<Longrightarrow>
       qset v c' p' \<inter> insert t (qset v c p) = {}"
  using queue_footprint [OF assms(1-3)] assms(4,5) by (auto simp: loose_def)

lemma v_queue_upd_const: "v_queue_upd c p (\<lambda>_. f (v_queue v c p)) v = v_queue_upd c p f v"
  by (simp add: v_queue_upd_def)

lemma struct_add:
  assumes st: "struct n h cpus al inact v" and c: "c < n"
    and p: "unat (td_real_priority (h t)) = p" "p < CONFIG_SCHEDULER_PRIORITIES"
    and t: "t \<in> set (v_all v)" "loose n v t"
  obtains h' d where
    "add_expired h (cpus c) t = Ret (h', d)"
    "struct n h' (cpus(c := d\<lparr>cd_total_threads := cd_total_threads (cpus c) + 1\<rparr>)) al inact
       (v_queue_upd c p (q_add t) v)"
    "cd_total_threads d = cd_total_threads (cpus c)"
    "cd_current_priority d = cd_current_priority (cpus c)" "cd_task d = cd_task (cpus c)"
    "cd_load_context d = cd_load_context (cpus c)" "\<And>a. core (h' a) = core (h a)"
proof -
  note q = struct_queue [OF st c p(2)] and s = structD [OF st]
  have t0: "t \<noteq> NULL" "t \<notin> set (qlist (v_queue v c p))"
    using dlist_nonnull [OF s(1) t(1)] t(2) c p(2) by (auto simp: loose_def qset_def)
  obtain h' prio' where a: "add_expired h (cpus c) t = Ret (h', (cpus c)
        \<lparr>cd_priorities := (cd_priorities (cpus c))(p := prio'),
         cd_priority_mask := BIT_ARRAY_SET (cd_priority_mask (cpus c)) p\<rparr>)"
    "prio_rep h' prio' (q_add t (v_queue v c p))"
    "same_outside (insert t (qset v c p)) h h'" "\<And>a. core (h' a) = core (h a)"
    using add_expired_rep [OF p q t0] unfolding qset_def by metis
  have m: "mask_ok (cd_priority_mask (cpus c)) (v_queue v c)"
    using s(3) [OF c] by (simp add: cpu_struct_def)
  have l: "load ((v_queue v c)(p := q_add t (v_queue v c p))) = load (v_queue v c) + 1"
    using load_upd [OF p(2), of "v_queue v c" "q_add t (v_queue v c p)"] by simp
  let ?d = "(cpus c)\<lparr>cd_priorities := (cd_priorities (cpus c))(p := prio'),
         cd_priority_mask := BIT_ARRAY_SET (cd_priority_mask (cpus c)) p\<rparr>"
  have "struct n h' (cpus(c := ?d\<lparr>cd_total_threads := cd_total_threads (cpus c) + 1\<rparr>)) al inact
      (v_queue_upd c p (\<lambda>_. q_add t (v_queue v c p)) v)"
    by (rule struct_queue_change [OF st c p(2) a(3) _ _ _ _ _ _ queue_footprint_insert [OF s(4) c p(2) t(2,1)]])
      (use a(2) q_ok_add [OF q(2) t0(2)] mask_ok_SET [OF m p(2)] l struct_load(3) [OF st c] in
        \<open>simp_all add: qset_def\<close>)
  then show ?thesis
    using a that [of h' ?d] by (simp add: v_queue_upd_const)
qed

lemma struct_dequeue:
  assumes st: "struct n h cpus al inact v" and c: "c < n"
    and p: "unat (td_real_priority (h t)) = p" "p < CONFIG_SCHEDULER_PRIORITIES"
    and t: "t \<in> qset v c p"
  obtains h' d where
    "pause_dequeue h (cpus c) t = Ret (h', d)"
    "struct n h' (cpus(c := d)) al inact (v_queue_upd c p (q_remove t) v)"
    "loose n (v_queue_upd c p (q_remove t) v) t"
    "cd_current_priority d = cd_current_priority (cpus c)" "cd_task d = cd_task (cpus c)"
    "cd_load_context d = cd_load_context (cpus c)" "\<And>a. core (h' a) = core (h a)"
proof -
  note q = struct_queue [OF st c p(2)] and s = structD [OF st]
  let ?q = "v_queue v c p"
  have tq: "t \<in> set (qlist ?q)" using t by (simp add: qset_def)
  obtain h' d where a: "pause_dequeue h (cpus c) t = Ret (h', d)"
    "prio_rep h' (cd_priorities d p) (q_remove t ?q)"
    "\<And>k. k \<noteq> p \<Longrightarrow> cd_priorities d k = cd_priorities (cpus c) k"
    "cd_priority_mask d = (if qlist (q_remove t ?q) = []
       then BIT_ARRAY_RESET (cd_priority_mask (cpus c)) p else cd_priority_mask (cpus c))"
    "cd_total_threads d = cd_total_threads (cpus c) - 1"
    "cd_current_priority d = cd_current_priority (cpus c)" "cd_task d = cd_task (cpus c)"
    "cd_load_context d = cd_load_context (cpus c)"
    "same_outside (qset v c p) h h'" "\<And>a. core (h' a) = core (h a)"
    using pause_dequeue_rep [OF p q tq] unfolding qset_def by metis
  have m: "mask_ok (cd_priority_mask (cpus c)) (v_queue v c)"
    using s(3) [OF c] by (simp add: cpu_struct_def)
  have "qlist ?q \<noteq> []" using tq by auto
  then have m': "mask_ok (cd_priority_mask d) ((v_queue v c)(p := q_remove t ?q))"
    using mask_ok_RESET [OF m p(2), of "q_remove t ?q"] mask_ok_same [OF m p(2), of "q_remove t ?q"]
    by (auto simp: a(4))
  have rem: "qlist (q_remove t ?q) = remove1 t (qlist ?q)" by (rule qlist_remove [OF q(2)])
  have "load ((v_queue v c)(p := q_remove t ?q)) + 1 = load (v_queue v c)"
    using load_upd [OF p(2), of "v_queue v c" "q_remove t ?q"] length_pos_if_in_set [OF tq]
      length_remove1 [of t "qlist ?q"] tq unfolding rem by (simp only: if_True)
  then have l: "cd_total_threads d = word_of_nat (load ((v_queue v c)(p := q_remove t ?q)))"
    using a(5) struct_load(3) [OF st c] by (metis add_diff_cancel of_nat_1 of_nat_add)
  have "struct n h' (cpus(c := d)) al inact (v_queue_upd c p (\<lambda>_. q_remove t ?q) v)"
    by (rule struct_queue_change [OF st c p(2) a(9) a(2) q_ok_remove [OF q(2)] _ a(3) m' l
          queue_footprint [OF s(4) c p(2)]])
      (simp_all add: rem qset_def set_remove1_subset)
  moreover have "loose n (v_queue_upd c p (q_remove t) v) t"
    unfolding loose_def
  proof (intro conjI allI impI)
    show "t \<notin> set (v_inactive (v_queue_upd c p (q_remove t) v))"
      using apartD(2) [OF s(4) c p(2)] t by auto
    fix c' p' assume "c' < n" "p' < CONFIG_SCHEDULER_PRIORITIES"
    with queue_footprint(3) [OF s(4) c p(2), of c' p'] t q(2)
    show "t \<notin> qset (v_queue_upd c p (q_remove t) v) c' p'"
      by (auto simp: qset_def rem q_ok_def)
  qed
  ultimately show ?thesis using a that [of h' d] by (simp add: v_queue_upd_const)
qed

lemma struct_rotate:
  assumes st: "struct n h cpus al inact v" and c: "c < n"
    and p: "unat (td_priority (h t)) = p" "p < CONFIG_SCHEDULER_PRIORITIES"
    and t: "fst (v_queue v c p) = t # ts"
  obtains h' d where
    "timer_requeue p frame h (cpus c) t = Ret (h', d)"
    "struct n h' (cpus(c := d)) al inact (v_queue_upd c p q_rotate v)"
    "cd_current_priority d = cd_current_priority (cpus c)" "cd_task d = cd_task (cpus c)"
    "cd_load_context d = cd_load_context (cpus c)"
    "\<And>a. core (h' a) = core (if a = t then update_priority_quantum ((h t)\<lparr>td_context := frame\<rparr>) else h a)"
proof -
  note q = struct_queue [OF st c p(2)] and s = structD [OF st]
  let ?q = "v_queue v c p"
  obtain h' d where a: "timer_requeue p frame h (cpus c) t = Ret (h', d)"
    "prio_rep h' (cd_priorities d p) (q_rotate ?q)"
    "\<And>k. k \<noteq> p \<Longrightarrow> cd_priorities d k = cd_priorities (cpus c) k"
    "cd_priority_mask d = (if length (qlist ?q) = 1
       then BIT_ARRAY_SET (BIT_ARRAY_RESET (cd_priority_mask (cpus c)) p) p
       else BIT_ARRAY_SET (cd_priority_mask (cpus c)) p)"
    "cd_total_threads d = cd_total_threads (cpus c)"
    "cd_current_priority d = cd_current_priority (cpus c)" "cd_task d = cd_task (cpus c)"
    "cd_load_context d = cd_load_context (cpus c)" "same_outside (qset v c p) h h'"
    "\<And>a. core (h' a) = core (if a = t then update_priority_quantum ((h t)\<lparr>td_context := frame\<rparr>) else h a)"
    using timer_requeue_rep [OF p q t] unfolding qset_def by metis
  have m: "mask_ok (cd_priority_mask (cpus c)) (v_queue v c)"
    using s(3) [OF c] by (simp add: cpu_struct_def)
  have rot: "qlist (q_rotate ?q) = rotate1 (qlist ?q)" by (rule qlist_rotate [OF q(2)])
  have ne: "qlist (q_rotate ?q) \<noteq> []" using t by (simp add: rot) (simp add: qlist_def)
  have "mask_ok (cd_priority_mask d) ((v_queue v c)(p := q_rotate ?q))"
    using mask_ok_SET [OF m p(2) ne] mask_ok_SET [OF mask_ok_RESET [OF m p(2), of "([], [])"] p(2) ne]
    by (simp add: a(4) qlist_def)
  moreover have "load ((v_queue v c)(p := q_rotate ?q)) = load (v_queue v c)"
    using load_upd [OF p(2), of "v_queue v c" "q_rotate ?q"] by (simp add: rot)
  ultimately have "struct n h' (cpus(c := d)) al inact (v_queue_upd c p (\<lambda>_. q_rotate ?q) v)"
    using a(5) struct_load(3) [OF st c]
    by (intro struct_queue_change [OF st c p(2) a(9) a(2) q_ok_rotate [OF q(2)] _ a(3) _ _
          queue_footprint [OF s(4) c p(2)]])
      (simp_all add: rot qset_def)
  then show ?thesis using a that [of h' d] by (simp add: v_queue_upd_const)
qed

text \<open>A write to a descriptor that is not attached.\<close>

lemma struct_outside:
  assumes st: "struct n h cpus al inact v" and t: "t \<notin> set (v_all v)"
  shows "struct n (upd_thread t f h) cpus al inact v"
proof -
  note d = structD [OF st]
  have out: "t \<notin> set (v_inactive v)" "\<And>c p. c < n \<Longrightarrow> p < CONFIG_SCHEDULER_PRIORITIES \<Longrightarrow> t \<notin> set (qlist (v_queue v c p))"
    using apart_inact_all [OF d(4)] apartD(1) [OF d(4)] t by (auto simp: qset_def)
  have f: "next_of (upd_thread t f h) a = next_of h a" "prev_of (upd_thread t f h) a = prev_of h a"
    "all_next_of (upd_thread t f h) a = all_next_of h a" "all_prev_of (upd_thread t f h) a = all_prev_of h a"
    if "a \<noteq> t" for a
    using that by (simp_all add: link_defs upd_thread_apply)
  have "prio_rep (upd_thread t f h) (cd_priorities (cpus c) p) (v_queue v c p)" if "c < n" "p < 8" for c p
    using struct_queue(1) [OF st that] out(2) [OF that] by (subst prio_rep_cong [where h' = h]) (metis f(1), metis f(2))
  moreover have "dlist (next_of (upd_thread t f h)) (prev_of (upd_thread t f h)) (tl_tail inact) (v_inactive v)"
    using d(2) out(1) by (subst dlist_cong [where n' = "next_of h" and p' = "prev_of h"]) (metis f(1), metis f(2))
  moreover have "dlist (all_next_of (upd_thread t f h)) (all_prev_of (upd_thread t f h)) (tl_tail al) (v_all v)"
    using d(1) t by (subst dlist_cong [where n' = "all_next_of h" and p' = "all_prev_of h"]) (metis f(3), metis f(4))
  ultimately show ?thesis using st by (simp add: struct_def cpu_struct_def)
qed

end
