(* ===== verification/Sched_Rep.thy ===== *)
theory Sched_Rep
  imports Sched_Struct
begin

text \<open>
  The scheduler's invariant. On top of the well-formed lists of \<open>Sched_Struct\<close>: a thread
  is on the inactive list exactly when it is paused or stopped, and in the run queue of
  exactly the CPU and priority its descriptor names when it runs; the magic field marks the
  attached threads; a busy CPU's current priority has a non-empty queue, and the CPU's
  thread pointer is the first thread of that queue once it is loaded.
\<close>

section \<open>The invariant\<close>

definition runs_on :: "theap \<Rightarrow> nat \<Rightarrow> nat \<Rightarrow> ptr \<Rightarrow> bool" where
  "runs_on h c p t \<longleftrightarrow> td_state (h t) = THREAD_STATE_RUNNING \<and> unat (td_cpu (h t)) = c \<and>
     unat (td_real_priority (h t)) = p"

definition idle_state :: "thread_data \<Rightarrow> bool" where
  "idle_state td \<longleftrightarrow> td_state td = THREAD_STATE_PAUSED \<or> td_state td = THREAD_STATE_STOPPED"

definition affinity_ok :: "machine \<Rightarrow> u64 list \<Rightarrow> bool" where
  "affinity_ok E a \<longleftrightarrow> length a = THREAD_AFFINITY_SIZE \<and> (\<exists>i<m_cpus E. BIT_ARRAY_GET a i)"

definition thread_ok :: "machine \<Rightarrow> thread_data \<Rightarrow> bool" where
  "thread_ok E td \<longleftrightarrow> td_state td \<noteq> THREAD_STATE_UNKNOWN \<and> stamp_ok (td_stamp td) \<and>
     unat (td_priority td) < CONFIG_SCHEDULER_PRIORITIES \<and> affinity_ok E (td_affinity td) \<and>
     (td_state td = THREAD_STATE_RUNNING \<longrightarrow>
        unat (td_cpu td) < m_cpus E \<and> td_real_priority td = td_priority td)"

definition heap_ok :: "machine \<Rightarrow> theap \<Rightarrow> view \<Rightarrow> bool" where
  "heap_ok E h v \<longleftrightarrow>
     (\<forall>t\<in>set (v_all v). ptr_ok t \<and> thread_ok E (h t) \<and>
        (t \<in> set (v_inactive v) \<longleftrightarrow> idle_state (h t)) \<and>
        (\<forall>c<m_cpus E. \<forall>p<CONFIG_SCHEDULER_PRIORITIES. t \<in> qset v c p \<longleftrightarrow> runs_on h c p t)) \<and>
     (\<forall>a. td_magic (h a) = THREAD_MAGIC \<longleftrightarrow> a \<in> set (v_all v))"

text \<open>The current priority, and the thread whose address is in the CPU's thread register.\<close>

definition cpu_ok :: "cpu_data \<Rightarrow> (nat \<Rightarrow> tqueue) \<Rightarrow> ptr \<Rightarrow> bool" where
  "cpu_ok d Q fs \<longleftrightarrow>
     (load Q \<noteq> 0 \<longrightarrow> 0 \<le> cd_current_priority d \<and>
        cd_current_priority d < int CONFIG_SCHEDULER_PRIORITIES \<and>
        qlist (Q (nat (cd_current_priority d))) \<noteq> []) \<and>
     fs = (if load Q = 0 \<or> cd_load_context d then NULL
           else hd (qlist (Q (nat (cd_current_priority d)))))"

definition rep :: "machine \<Rightarrow> 'z kstate_scheme \<Rightarrow> view \<Rightarrow> bool" where
  "rep E s v \<longleftrightarrow> m_cpus E \<le> CONFIG_MAX_CPUS \<and> kstruct (m_cpus E) s v \<and> heap_ok E (ks_thr s) v \<and>
     stamp_ok (ks_stamp s) \<and>
     (\<forall>c<m_cpus E. cpu_ok (ks_cpus s c) (v_queue v c) (ks_fs_base s c))"

lemma repD:
  assumes "rep E s v"
  shows "m_cpus E \<le> CONFIG_MAX_CPUS" "kstruct (m_cpus E) s v" "heap_ok E (ks_thr s) v"
    "stamp_ok (ks_stamp s)" "apart (m_cpus E) v"
    "\<And>c. c < m_cpus E \<Longrightarrow> cpu_ok (ks_cpus s c) (v_queue v c) (ks_fs_base s c)"
  using assms by (auto simp: rep_def dest: structD)

lemma heap_okD:
  assumes "heap_ok E h v" "t \<in> set (v_all v)"
  shows "ptr_ok t" "thread_ok E (h t)" "t \<in> set (v_inactive v) \<longleftrightarrow> idle_state (h t)"
    "\<And>c p. c < m_cpus E \<Longrightarrow> p < CONFIG_SCHEDULER_PRIORITIES \<Longrightarrow> t \<in> qset v c p \<longleftrightarrow> runs_on h c p t"
  using assms by (auto simp: heap_ok_def)

section \<open>The fields the invariant reads\<close>

lemma core_preds:
  assumes "core (h' a) = core (h a)"
  shows "idle_state (h' a) = idle_state (h a)" "runs_on h' c p a = runs_on h c p a"
    "thread_ok E (h' a) = thread_ok E (h a)" "td_magic (h' a) = td_magic (h a)"
  using core_fields [OF assms] by (simp_all add: idle_state_def runs_on_def thread_ok_def)

lemma heap_ok_core: "(\<And>a. core (h' a) = core (h a)) \<Longrightarrow> heap_ok E h' v \<longleftrightarrow> heap_ok E h v"
  using core_preds [of h' _ h] by (simp add: heap_ok_def)

text \<open>One thread changes, and moves between the lists, while the others stay where they are.\<close>

lemma heap_ok_move:
  assumes ok: "heap_ok E h v" and t: "t \<in> set (v_all v)"
    and other: "\<And>a. a \<noteq> t \<Longrightarrow> core (h' a) = core (h a)"
    and all: "v_all v' = v_all v"
    and inact: "\<And>a. a \<noteq> t \<Longrightarrow> a \<in> set (v_inactive v') \<longleftrightarrow> a \<in> set (v_inactive v)"
    and qs: "\<And>a c p. a \<noteq> t \<Longrightarrow> c < m_cpus E \<Longrightarrow> p < CONFIG_SCHEDULER_PRIORITIES \<Longrightarrow>
        a \<in> qset v' c p \<longleftrightarrow> a \<in> qset v c p"
    and magic: "td_magic (h' t) = THREAD_MAGIC" and tok: "thread_ok E (h' t)"
    and tin: "t \<in> set (v_inactive v') \<longleftrightarrow> idle_state (h' t)"
    and tq: "\<And>c p. c < m_cpus E \<Longrightarrow> p < CONFIG_SCHEDULER_PRIORITIES \<Longrightarrow> t \<in> qset v' c p \<longleftrightarrow> runs_on h' c p t"
  shows "heap_ok E h' v'"
  unfolding heap_ok_def all
proof (intro conjI ballI allI impI)
  fix a assume a: "a \<in> set (v_all v)"
  note d = heap_okD [OF ok a]
  have eq: "a \<noteq> t \<Longrightarrow> thread_ok E (h' a) = thread_ok E (h a)" "a \<noteq> t \<Longrightarrow> idle_state (h' a) = idle_state (h a)"
    "a \<noteq> t \<Longrightarrow> runs_on h' c p a = runs_on h c p a" for c p
    using core_preds [of h' a h] other by simp_all
  show "ptr_ok a" by (rule d(1))
  show "thread_ok E (h' a)" using tok d(2) eq(1) by (cases "a = t") auto
  show "a \<in> set (v_inactive v') \<longleftrightarrow> idle_state (h' a)"
    using tin d(3) inact eq(2) by (cases "a = t") auto
  fix c p assume cp: "c < m_cpus E" "p < CONFIG_SCHEDULER_PRIORITIES"
  show "a \<in> qset v' c p \<longleftrightarrow> runs_on h' c p a"
    using tq [OF cp] d(4) [OF cp] qs [OF _ cp] eq(3) by (cases "a = t") auto
next
  fix a
  show "td_magic (h' a) = THREAD_MAGIC \<longleftrightarrow> a \<in> set (v_all v)"
    using ok t magic core_preds(4) [of h' a h] other by (cases "a = t") (auto simp: heap_ok_def)
qed

text \<open>Finding a thread by its identifier.\<close>

lemma find_thread_rep:
  assumes "rep E s v" "find_thread i s = Inr t"
  shows "t \<in> set (v_all v)" "t \<noteq> NULL" "i = get_stamp_id t (td_stamp (ks_thr s t))"
proof -
  have f: "t = get_stamp_id_ptr i" "td_magic (ks_thr s t) = THREAD_MAGIC"
    "td_stamp (ks_thr s t) = get_stamp_id_stamp i"
    using assms(2) by (auto simp: find_thread_def WITH_STAMP_ID_Inr)
  show "t \<in> set (v_all v)" using repD(3) [OF assms(1)] f(2) by (auto simp: heap_ok_def)
  then show "t \<noteq> NULL" using structD(1) [OF repD(2) [OF assms(1)]] dlist_nonnull by blast
  show "i = get_stamp_id t (td_stamp (ks_thr s t))" using f get_stamp_id_pack [of i] by simp
qed

lemma find_thread_id:
  assumes "rep E s v" "t \<in> set (v_all v)"
  shows "find_thread (get_stamp_id t (td_stamp (ks_thr s t))) s = Inr t"
  using heap_okD(1,2) [OF repD(3) [OF assms(1)] assms(2)] repD(3) [OF assms(1)] assms(2)
  by (auto simp: find_thread_def WITH_STAMP_ID_Inr thread_ok_def heap_ok_def)

section \<open>Locks and the CPUs that may be asked\<close>

definition kernel_locks :: "machine \<Rightarrow> lock_ref set" where
  "kernel_locks E = {Lock_all, Lock_inactive} \<union> Lock_cpu ` {..<m_cpus E}"

text \<open>
  When CPU \<open>c\<close> begins an operation: the scheduler's locks are free, \<open>c\<close> may be inside a
  critical section of its own, and the other CPUs accept interrupts.
\<close>

definition quiet :: "machine \<Rightarrow> nat \<Rightarrow> 'z kstate_scheme \<Rightarrow> bool" where
  "quiet E c s \<longleftrightarrow> (\<forall>l\<in>kernel_locks E. hw_busy s l = 0) \<and> hw_outer s c \<notin> kernel_locks E \<and>
     (hw_outer s c = Lock_null \<longrightarrow> hw_if s c) \<and>
     (\<forall>k<m_cpus E. k \<noteq> c \<longrightarrow> hw_if s k \<and> bit (fr_rflags (ks_ctx s k)) 9)"

definition same_hw :: "'z hw_scheme \<Rightarrow> 'y hw_scheme \<Rightarrow> bool" where
  "same_hw s s' \<longleftrightarrow> hw_busy s' = hw_busy s \<and> hw_outer s' = hw_outer s \<and> hw_if s' = hw_if s"

lemma rep_hw_put [simp]: "rep E (hw_put b r i s) v \<longleftrightarrow> rep E s v"
  by (simp add: rep_def hw_put_def)

lemma hw_put_kstate [simp]:
  "ks_thr (hw_put b r i s) = ks_thr s" "ks_cpus (hw_put b r i s) = ks_cpus s"
  "ks_all (hw_put b r i s) = ks_all s" "ks_inactive (hw_put b r i s) = ks_inactive s"
  "ks_stamp (hw_put b r i s) = ks_stamp s" "ks_mem (hw_put b r i s) = ks_mem s"
  "ks_fs_base (hw_put b r i s) = ks_fs_base s" "ks_ctx (hw_put b r i s) = ks_ctx s"
  "ks_ticks (hw_put b r i s) = ks_ticks s" "ks_timer_ticks (hw_put b r i s) = ks_timer_ticks s"
  "ks_timer_proc (hw_put b r i s) = ks_timer_proc s"
  "find_thread x (hw_put b r i s) = find_thread x s"
  by (simp_all add: hw_put_def find_thread_def)

lemma list_ops_hw [simp]:
  "hw_busy (push_all t s) = hw_busy s" "hw_outer (push_all t s) = hw_outer s" "hw_if (push_all t s) = hw_if s"
  "hw_busy (push_inactive t s) = hw_busy s" "hw_outer (push_inactive t s) = hw_outer s" "hw_if (push_inactive t s) = hw_if s"
  "hw_busy (remove_all t s) = hw_busy s" "hw_outer (remove_all t s) = hw_outer s" "hw_if (remove_all t s) = hw_if s"
  "hw_busy (remove_inactive t s) = hw_busy s" "hw_outer (remove_inactive t s) = hw_outer s" "hw_if (remove_inactive t s) = hw_if s"
  "hw_busy (on_thread t f s) = hw_busy s" "hw_outer (on_thread t f s) = hw_outer s" "hw_if (on_thread t f s) = hw_if s"
  "hw_busy (on_task k g s) = hw_busy s" "hw_outer (on_task k g s) = hw_outer s" "hw_if (on_task k g s) = hw_if s"
  by (simp_all add: push_all_def push_inactive_def remove_all_def remove_inactive_def Let_def
      on_thread_def on_task_def on_cpu_def)

lemma list_ops_rest [simp]:
  "ks_stamp (push_all t s) = ks_stamp s" "ks_stamp (push_inactive t s) = ks_stamp s"
  "ks_stamp (remove_all t s) = ks_stamp s" "ks_stamp (remove_inactive t s) = ks_stamp s"
  "ks_fs_base (push_all t s) = ks_fs_base s" "ks_fs_base (push_inactive t s) = ks_fs_base s"
  "ks_fs_base (remove_all t s) = ks_fs_base s" "ks_fs_base (remove_inactive t s) = ks_fs_base s"
  "ks_ctx (push_all t s) = ks_ctx s" "ks_ctx (push_inactive t s) = ks_ctx s"
  "ks_ctx (remove_all t s) = ks_ctx s" "ks_ctx (remove_inactive t s) = ks_ctx s"
  "ks_mem (push_all t s) = ks_mem s" "ks_mem (push_inactive t s) = ks_mem s"
  "ks_mem (remove_all t s) = ks_mem s" "ks_mem (remove_inactive t s) = ks_mem s"
  by (simp_all add: push_all_def push_inactive_def remove_all_def remove_inactive_def Let_def)

lemma on_thread_simps [simp]:
  "ks_thr (on_thread t f s) = upd_thread t f (ks_thr s)" "ks_cpus (on_thread t f s) = ks_cpus s"
  "ks_all (on_thread t f s) = ks_all s" "ks_inactive (on_thread t f s) = ks_inactive s"
  "ks_stamp (on_thread t f s) = ks_stamp s" "ks_mem (on_thread t f s) = ks_mem s"
  "ks_fs_base (on_thread t f s) = ks_fs_base s" "ks_ctx (on_thread t f s) = ks_ctx s"
  by (simp_all add: on_thread_def)

section \<open>Attaching\<close>

definition v_attach :: "ptr \<Rightarrow> view \<Rightarrow> view" where
  "v_attach t v = v\<lparr>v_all := t # v_all v, v_inactive := t # v_inactive v\<rparr>"

definition v_detach :: "ptr \<Rightarrow> view \<Rightarrow> view" where
  "v_detach t v = v\<lparr>v_all := remove1 t (v_all v), v_inactive := remove1 t (v_inactive v)\<rparr>"

lemma bsf_affinity:
  assumes "length a = THREAD_AFFINITY_SIZE" "m_cpus E \<le> CONFIG_MAX_CPUS"
  shows "find_mask_bsf a THREAD_AFFINITY_SIZE = -1 \<or> int (m_cpus E) \<le> find_mask_bsf a THREAD_AFFINITY_SIZE
    \<longleftrightarrow> \<not> affinity_ok E a"
  using find_mask_bsf_least [of a 1] assms
  by (auto simp: affinity_ok_def BIT_ARRAY_GET_arr least_bit_def split: if_splits)
    (metis less_le_trans linorder_not_less nat_int order_trans zle_int zero_le_imp_eq_int)+

definition attachable :: "machine \<Rightarrow> 'z kstate_scheme \<Rightarrow> ptr \<Rightarrow> bool" where
  "attachable E s t \<longleftrightarrow>
     (let td = ks_thr s t in td_stack td \<noteq> NULL \<and> THREAD_STACK_SIZE_MIN \<le> td_stack_size td \<and>
        ks_mem s (td_stack td) = STACK_OVERRUN_MAGIC \<and>
        unat (td_priority td) < CONFIG_SCHEDULER_PRIORITIES \<and> affinity_ok E (td_affinity td))"

lemma attach_thread_errors:
  assumes "m_cpus E \<le> CONFIG_MAX_CPUS" "length (td_affinity (ks_thr s t)) = THREAD_AFFINITY_SIZE"
  shows "td_magic (ks_thr s t) = THREAD_MAGIC \<Longrightarrow> attach_thread E c t w s = (ERR_BAD_STATE, None, s)"
    and "td_magic (ks_thr s t) \<noteq> THREAD_MAGIC \<Longrightarrow> \<not> attachable E s t \<Longrightarrow>
      attach_thread E c t w s = (ERR_BAD_INPUT, None, s)"
  using bsf_affinity [OF assms(2,1)]
  by (auto simp: attach_thread_def attachable_def Let_def not_less not_le)

text \<open>The new thread's descriptor, and the state between the two lock operations.\<close>

definition attached_td :: "i32 \<Rightarrow> thread_data \<Rightarrow> thread_data" where
  "attached_td st td = td\<lparr>td_prev := NULL, td_all_prev := NULL, td_state := THREAD_STATE_PAUSED,
     td_run_time := 0, td_magic := THREAD_MAGIC, td_stamp := st\<rparr>"

lemma heap_ok_attach:
  assumes ok: "heap_ok E h v" and t: "t \<notin> set (v_all v)" "loose (m_cpus E) v t" "ptr_ok t"
    and td: "core (h' t) = core td'" "td_magic td' = THREAD_MAGIC" "thread_ok E td'"
      "td_state td' = THREAD_STATE_PAUSED"
    and other: "\<And>a. a \<noteq> t \<Longrightarrow> core (h' a) = core (h a)"
  shows "heap_ok E h' (v_attach t v)"
proof -
  note f = core_fields [OF td(1)]
  have t': "thread_ok E (h' t)" "idle_state (h' t)" "\<not> runs_on h' c p t" "td_magic (h' t) = THREAD_MAGIC" for c p
    using td(2-4) f by (simp_all add: thread_ok_def idle_state_def runs_on_def)
  have q: "qset (v_attach t v) = qset v" by (auto simp: v_attach_def qset_def fun_eq_iff)
  have o: "a \<noteq> t \<Longrightarrow> thread_ok E (h' a) = thread_ok E (h a)" "a \<noteq> t \<Longrightarrow> idle_state (h' a) = idle_state (h a)"
    "a \<noteq> t \<Longrightarrow> runs_on h' c p a = runs_on h c p a" "a \<noteq> t \<Longrightarrow> td_magic (h' a) = td_magic (h a)" for a c p
    using core_preds [of h' a h] other by simp_all
  show ?thesis
    unfolding heap_ok_def q
  proof (intro conjI ballI allI impI)
    fix a assume "a \<in> set (v_all (v_attach t v))"
    then have a: "a = t \<or> a \<noteq> t \<and> a \<in> set (v_all v)" using t(1) by (auto simp: v_attach_def)
    show "ptr_ok a" "thread_ok E (h' a)" "a \<in> set (v_inactive (v_attach t v)) \<longleftrightarrow> idle_state (h' a)"
      using a t(3) t' o heap_okD(1-3) [OF ok] by (auto simp: v_attach_def)
    fix c p assume "c < m_cpus E" "p < CONFIG_SCHEDULER_PRIORITIES"
    with a t(2) t' o heap_okD(4) [OF ok] show "a \<in> qset v c p \<longleftrightarrow> runs_on h' c p a"
      by (auto simp: loose_def)
  next
    fix a show "td_magic (h' a) = THREAD_MAGIC \<longleftrightarrow> a \<in> set (v_all (v_attach t v))"
      using ok t' o by (cases "a = t") (auto simp: v_attach_def heap_ok_def)
  qed
qed

lemma apart_loose: "apart n v \<Longrightarrow> t \<notin> set (v_all v) \<Longrightarrow> loose n v t"
  using apart_inact_all apartD(1) by (fastforce simp: loose_def)

text \<open>Taking and giving back two scheduler locks around an update that does not touch locks.\<close>

lemma quietD:
  assumes "quiet E c s"
  shows "hw_busy s Lock_all = 0" "hw_busy s Lock_inactive = 0"
    "k < m_cpus E \<Longrightarrow> hw_busy s (Lock_cpu k) = 0"
    "hw_outer s c \<noteq> Lock_all" "hw_outer s c \<noteq> Lock_inactive"
    "k < m_cpus E \<Longrightarrow> hw_outer s c \<noteq> Lock_cpu k" "hw_outer s c = Lock_null \<Longrightarrow> hw_if s c"
    "k < m_cpus E \<Longrightarrow> k \<noteq> c \<Longrightarrow> hw_if s k \<and> bit (fr_rflags (ks_ctx s k)) 9"
  using assms by (auto simp: quiet_def kernel_locks_def)

lemma two_locks:
  assumes q: "quiet E c s"
    and body: "hw_busy s' = hw_busy s2" "hw_outer s' = hw_outer s2" "hw_if s' = hw_if s2"
    and s2: "s2 = snd (acquire_spinlock c Lock_inactive 0 (snd (acquire_spinlock c Lock_all 0 s1)))"
    and s1: "hw_busy s1 = hw_busy s" "hw_outer s1 = hw_outer s" "hw_if s1 = hw_if s"
  shows "release_spinlock c Lock_all (release_spinlock c Lock_inactive s') =
    hw_put (hw_busy s) (hw_outer s) (hw_if s) s'"
proof -
  note d = quietD [OF q]
  have b1: "hw_busy s1 Lock_all = 0" using d(1) s1 by simp
  have b2: "hw_busy (snd (acquire_spinlock c Lock_all 0 s1)) Lock_inactive = 0"
    using d(2) s1 by (simp add: acquire_spinlock_free [OF b1])
  have e: "s2 = hw_put ((hw_busy s)(Lock_all := 1, Lock_inactive := 1))
       ((hw_outer s)(c := (if hw_outer s c = Lock_null then Lock_all else hw_outer s c)))
       ((hw_if s)(c := (hw_outer s c \<noteq> Lock_null \<and> hw_if s c))) s1"
    unfolding s2 acquire_spinlock_free [OF b2] unfolding acquire_spinlock_free [OF b1]
    by (simp add: s1 hw_put_def)
  show ?thesis
    unfolding release_spinlock_eq hw_put_simps body
    by (rule hw_put_cong; rule ext) (use d in \<open>auto simp: e\<close>)
qed

lemma upd_thread_upd_thread: "upd_thread t f (upd_thread t g h) = upd_thread t (f \<circ> g) h"
  by (auto simp: upd_thread_def)

lemma acquire_kstate:
  "ks_thr (snd (acquire_spinlock c l n s)) = ks_thr s" "ks_cpus (snd (acquire_spinlock c l n s)) = ks_cpus s"
  "ks_all (snd (acquire_spinlock c l n s)) = ks_all s"
  "ks_inactive (snd (acquire_spinlock c l n s)) = ks_inactive s"
  "ks_stamp (snd (acquire_spinlock c l n s)) = ks_stamp s"
  "ks_fs_base (snd (acquire_spinlock c l n s)) = ks_fs_base s"
  "ks_ctx (snd (acquire_spinlock c l n s)) = ks_ctx s" "ks_mem (snd (acquire_spinlock c l n s)) = ks_mem s"
  by (auto simp: acquire_spinlock_def cmpxchgq_def acquire_spinlock_int_eq set_outer_def cli_def sti_def
      Let_def split: if_splits)

lemma attach_thread_rep:
  assumes rep: "rep E s v" and q: "quiet E c s"
    and t: "t \<noteq> NULL" "ptr_ok t" "td_magic (ks_thr s t) \<noteq> THREAD_MAGIC" "attachable E s t"
    and len: "length (v_all v) < 2 ^ 31 - 2"
  obtains s' where
    "attach_thread E c t w s = (ERR_NONE, if w then Some (get_stamp_id t (ks_stamp s)) else None, s')"
    "rep E s' (v_attach t v)" "same_hw s s'" "core (ks_thr s' t) = core (attached_td (ks_stamp s) (ks_thr s t))"
    "\<And>a. a \<noteq> t \<Longrightarrow> core (ks_thr s' a) = core (ks_thr s a)" "ks_ctx s' = ks_ctx s" "ks_mem s' = ks_mem s"
    "ks_stamp s' = snd (assign_stamp_id_stamp (ks_stamp s))"
proof -
  note r = repD [OF rep]
  define g where "g = ks_stamp s"
  define s1 where "s1 = on_thread t (\<lambda>td. td\<lparr>td_prev := NULL, td_all_prev := NULL,
                     td_state := THREAD_STATE_PAUSED, td_run_time := 0\<rparr>) s"
  define s3 where "s3 = snd (acquire_spinlock c Lock_inactive 0 (snd (acquire_spinlock c Lock_all 0 s1)))"
  define s4 where "s4 = (on_thread t (\<lambda>td. td\<lparr>td_magic := THREAD_MAGIC, td_stamp := g\<rparr>) s3)
                     \<lparr>ks_stamp := snd (assign_stamp_id_stamp g)\<rparr>"
  define s5 where "s5 = push_inactive t (push_all t s4)"
  define s6 where "s6 = release_spinlock c Lock_all (release_spinlock c Lock_inactive s5)"
  have s3: "ks_thr s3 = ks_thr s1" "ks_cpus s3 = ks_cpus s" "ks_all s3 = ks_all s"
    "ks_inactive s3 = ks_inactive s" "ks_stamp s3 = g" "ks_fs_base s3 = ks_fs_base s" "ks_ctx s3 = ks_ctx s"
    "ks_mem s3 = ks_mem s"
    by (simp_all add: s3_def acquire_kstate s1_def g_def)
  have fuse: "(\<lambda>td. td\<lparr>td_magic := THREAD_MAGIC, td_stamp := g\<rparr>) \<circ> (\<lambda>td. td\<lparr>td_prev := NULL, td_all_prev := NULL,
                     td_state := THREAD_STATE_PAUSED, td_run_time := 0\<rparr>) = attached_td g"
    by (auto simp: attached_td_def)
  have s4: "ks_thr s4 = upd_thread t (attached_td g) (ks_thr s)" "ks_cpus s4 = ks_cpus s"
    "ks_all s4 = ks_all s" "ks_inactive s4 = ks_inactive s"
    by (simp_all add: s4_def s3 s1_def upd_thread_upd_thread fuse)
  have tn: "t \<notin> set (v_all v)" using r(3) t(3) by (auto simp: heap_ok_def)
  have lo: "loose (m_cpus E) v t" by (rule apart_loose [OF r(5) tn])
  have k4: "kstruct (m_cpus E) s4 v" unfolding s4 by (rule struct_outside [OF r(2) tn])
  have k5: "kstruct (m_cpus E) s5 (v_attach t v)"
  proof -
    have "kstruct (m_cpus E) (push_all t s4) (v\<lparr>v_all := t # v_all v\<rparr>)"
      by (rule struct_push_all [OF k4 t(1) tn _ len]) (simp add: s4 link_defs upd_thread_def attached_td_def)
    moreover have "prev_of (ks_thr (push_all t s4)) t = NULL"
      by (simp add: push_all_def s4) (simp add: link_defs upd_thread_def attached_td_def)
    ultimately have "kstruct (m_cpus E) (push_inactive t (push_all t s4))
        ((v\<lparr>v_all := t # v_all v\<rparr>)\<lparr>v_inactive := t # v_inactive (v\<lparr>v_all := t # v_all v\<rparr>)\<rparr>)"
      using lo by (intro struct_push_inactive) (auto simp: loose_def qset_def)
    then show ?thesis by (simp add: s5_def v_attach_def)
  qed
  have c5: "core (ks_thr s5 a) = core (if a = t then attached_td g (ks_thr s t) else ks_thr s a)" for a
    by (simp add: s5_def s4 upd_thread_def)
  have h5: "heap_ok E (ks_thr s5) (v_attach t v)"
    by (rule heap_ok_attach [OF r(3) tn lo t(2), where td' = "attached_td g (ks_thr s t)"])
      (use c5 t(4) r(4) in \<open>simp_all add: attached_td_def thread_ok_def attachable_def Let_def g_def\<close>)
  have f5: "ks_stamp s5 = snd (assign_stamp_id_stamp g)" "ks_cpus s5 = ks_cpus s" "ks_fs_base s5 = ks_fs_base s"
    "ks_ctx s5 = ks_ctx s" "ks_mem s5 = ks_mem s"
    by (simp_all add: s5_def s4_def s3)
  have rep5: "rep E s5 (v_attach t v)"
    using r(1,4,6) k5 h5 assign_stamp_ok by (simp add: rep_def f5 g_def) (simp add: v_attach_def)
  have s6: "s6 = hw_put (hw_busy s) (hw_outer s) (hw_if s) s5"
    unfolding s6_def
    by (rule two_locks [OF q _ _ _ s3_def]) (simp_all add: s5_def s4_def s1_def)
  have stamp6: "td_stamp (ks_thr s6 t) = g"
    using core_fields(11) [of "ks_thr s5 t" "attached_td g (ks_thr s t)"] c5 [of t]
    by (simp add: s6 attached_td_def)
  have "attach_thread E c t w s = (ERR_NONE, if w then Some (get_stamp_id t g) else None, s6)"
    using t(3,4) bsf_affinity [OF _ r(1), of "td_affinity (ks_thr s t)"] stamp6 assign_stamp_fst [of g]
    by (simp add: attach_thread_def Let_def attachable_def affinity_ok_def not_less not_le
        s1_def [symmetric] s3_def [symmetric] s3(5) split_beta s4_def [symmetric] s5_def [symmetric]
        s6_def [symmetric])
  moreover have "rep E s6 (v_attach t v)" "same_hw s s6"
    using rep5 by (simp_all add: s6 same_hw_def)
  ultimately show ?thesis
    using c5 f5 by (intro that [of s6]) (simp_all add: s6 g_def)
qed

section \<open>Detaching\<close>

lemma heap_ok_detach:
  assumes ok: "heap_ok E h v" and dist: "distinct (v_all v)" "distinct (v_inactive v)"
    and t: "td_magic (h' t) \<noteq> THREAD_MAGIC"
    and other: "\<And>a. a \<noteq> t \<Longrightarrow> core (h' a) = core (h a)"
  shows "heap_ok E h' (v_detach t v)"
proof -
  have q: "qset (v_detach t v) = qset v" by (auto simp: v_detach_def qset_def fun_eq_iff)
  have o: "a \<noteq> t \<Longrightarrow> thread_ok E (h' a) = thread_ok E (h a)" "a \<noteq> t \<Longrightarrow> idle_state (h' a) = idle_state (h a)"
    "a \<noteq> t \<Longrightarrow> runs_on h' c p a = runs_on h c p a" "a \<noteq> t \<Longrightarrow> td_magic (h' a) = td_magic (h a)" for a c p
    using core_preds [of h' a h] other by simp_all
  show ?thesis
    unfolding heap_ok_def q
  proof (intro conjI ballI allI impI)
    fix a assume "a \<in> set (v_all (v_detach t v))"
    then have a: "a \<noteq> t" "a \<in> set (v_all v)" using dist(1) by (auto simp: v_detach_def)
    show "ptr_ok a" "thread_ok E (h' a)" "a \<in> set (v_inactive (v_detach t v)) \<longleftrightarrow> idle_state (h' a)"
      using a o dist(2) heap_okD(1-3) [OF ok] by (auto simp: v_detach_def)
    fix c p assume "c < m_cpus E" "p < CONFIG_SCHEDULER_PRIORITIES"
    with a o heap_okD(4) [OF ok] show "a \<in> qset v c p \<longleftrightarrow> runs_on h' c p a" by simp
  next
    fix a show "td_magic (h' a) = THREAD_MAGIC \<longleftrightarrow> a \<in> set (v_all (v_detach t v))"
      using ok t o dist(1) by (cases "a = t") (auto simp: v_detach_def heap_ok_def)
  qed
qed

lemma idle_in_inactive:
  "rep E s v \<Longrightarrow> t \<in> set (v_all v) \<Longrightarrow> idle_state (ks_thr s t) \<Longrightarrow> t \<in> set (v_inactive v)"
  using heap_okD(3) repD(3) by blast

lemma detach_thread_rep:
  assumes rep: "rep E s v" and q: "quiet E c s"
    and t: "find_thread i s = Inr t" "idle_state (ks_thr s t)"
  obtains s' where "detach_thread c i s = (ERR_NONE, Some t, s')" "rep E s' (v_detach t v)"
    "same_hw s s'" "td_magic (ks_thr s' t) = 0"
    "\<And>a. a \<noteq> t \<Longrightarrow> core (ks_thr s' a) = core (ks_thr s a)" "ks_ctx s' = ks_ctx s" "ks_mem s' = ks_mem s"
    "ks_stamp s' = ks_stamp s" "td_affinity (ks_thr s' t) = td_affinity (ks_thr s t)"
proof -
  note r = repD [OF rep]
  have ta: "t \<in> set (v_all v)" by (rule find_thread_rep(1) [OF rep t(1)])
  have ti: "t \<in> set (v_inactive v)" by (rule idle_in_inactive [OF rep ta t(2)])
  have dist: "distinct (v_all v)" "distinct (v_inactive v)"
    using structD(1,2) [OF r(2)] dlist_distinct by auto
  define s2 where "s2 = snd (acquire_spinlock c Lock_inactive 0 (snd (acquire_spinlock c Lock_all 0 s)))"
  have s2: "ks_thr s2 = ks_thr s" "ks_cpus s2 = ks_cpus s" "ks_all s2 = ks_all s"
    "ks_inactive s2 = ks_inactive s" "ks_stamp s2 = ks_stamp s" "ks_fs_base s2 = ks_fs_base s"
    "ks_ctx s2 = ks_ctx s" "ks_mem s2 = ks_mem s"
    by (simp_all add: s2_def acquire_kstate)
  define f :: "thread_data \<Rightarrow> thread_data" where "f = (\<lambda>td. td\<lparr>td_magic := 0, td_prev := NULL, td_next := NULL,
                         td_all_prev := NULL, td_all_next := NULL\<rparr>)"
  define s3 where "s3 = remove_inactive t s2"
  define s4 where "s4 = remove_all t s3"
  define s5 where "s5 = on_thread t f s4"
  define s6 where "s6 = release_spinlock c Lock_all (release_spinlock c Lock_inactive s5)"
  have k2: "kstruct (m_cpus E) s2 v" using r(2) by (simp add: s2)
  have k3: "kstruct (m_cpus E) s3 (v\<lparr>v_inactive := remove1 t (v_inactive v)\<rparr>)"
    "loose (m_cpus E) (v\<lparr>v_inactive := remove1 t (v_inactive v)\<rparr>) t"
    unfolding s3_def using struct_remove_inactive [OF k2 ti] by auto
  have k4: "kstruct (m_cpus E) s4 (v_detach t v)"
  proof -
    have "v_detach t v = v\<lparr>v_inactive := remove1 t (v_inactive v), v_all := remove1 t (v_all v)\<rparr>"
      by (cases v) (simp add: v_detach_def)
    then show ?thesis using struct_remove_all [OF k3(1) _ k3(2)] ta by (simp add: s4_def)
  qed
  have "t \<notin> set (v_all (v_detach t v))" using dist by (simp add: v_detach_def)
  then have k5: "kstruct (m_cpus E) s5 (v_detach t v)"
    using struct_outside [OF k4] by (simp add: s5_def)
  have c5: "a \<noteq> t \<Longrightarrow> core (ks_thr s5 a) = core (ks_thr s a)" "td_magic (ks_thr s5 t) = 0" for a
    by (simp_all add: s5_def s4_def s3_def upd_thread_def f_def s2)
  have aff: "td_affinity (ks_thr s5 t) = td_affinity (ks_thr s t)"
  proof -
    have "core (ks_thr s4 t) = core (ks_thr s t)" by (simp add: s4_def s3_def s2)
    from core_fields(5) [OF this] show ?thesis by (simp add: s5_def upd_thread_def f_def)
  qed
  have h5: "heap_ok E (ks_thr s5) (v_detach t v)"
    using c5 by (intro heap_ok_detach [OF r(3) dist]) auto
  have f5: "ks_stamp s5 = ks_stamp s" "ks_cpus s5 = ks_cpus s" "ks_fs_base s5 = ks_fs_base s"
    "ks_ctx s5 = ks_ctx s" "ks_mem s5 = ks_mem s"
    by (simp_all add: s5_def s4_def s3_def s2)
  have rep5: "rep E s5 (v_detach t v)"
    using r(1,4,6) k5 h5 by (simp add: rep_def f5) (simp add: v_detach_def)
  have s6: "s6 = hw_put (hw_busy s) (hw_outer s) (hw_if s) s5"
    unfolding s6_def by (rule two_locks [OF q _ _ _ s2_def]) (simp_all add: s5_def s4_def s3_def)
  have "find_thread i s2 = Inr t" using t(1) by (simp add: find_thread_def s2)
  then have "detach_thread c i s = (ERR_NONE, Some t, s6)"
    using t(2)
    by (simp add: detach_thread_def Let_def s2_def [symmetric] s2 idle_state_def s3_def [symmetric]
        s4_def [symmetric] s5_def [symmetric, unfolded f_def] s6_def [symmetric])
  moreover have "rep E s6 (v_detach t v)" "same_hw s s6" using rep5 by (simp_all add: s6 same_hw_def)
  ultimately show ?thesis using c5 f5 aff by (intro that [of s6]) (simp_all add: s6)
qed

lemma detach_thread_error:
  assumes rep: "rep E s v" and q: "quiet E c s"
    and err: "(case find_thread i s of Inl e \<Rightarrow> err = e
       | Inr t \<Rightarrow> \<not> idle_state (ks_thr s t) \<and> err = ERR_BAD_STATE)"
  shows "detach_thread c i s = (err, None, s)"
proof -
  define s2 where "s2 = snd (acquire_spinlock c Lock_inactive 0 (snd (acquire_spinlock c Lock_all 0 s)))"
  have s2: "find_thread i s2 = find_thread i s" "ks_thr s2 = ks_thr s"
    by (simp_all add: s2_def acquire_kstate find_thread_def)
  have rel: "release_spinlock c Lock_all (release_spinlock c Lock_inactive s2) = s"
  proof -
    have "release_spinlock c Lock_all (release_spinlock c Lock_inactive s2) =
        hw_put (hw_busy s) (hw_outer s) (hw_if s) s2"
      by (rule two_locks [OF q _ _ _ s2_def]) simp_all
    also have "\<dots> = s"
    proof -
      have "hw_busy s Lock_all = 0" "hw_busy (snd (acquire_spinlock c Lock_all 0 s)) Lock_inactive = 0"
        using quietD(1,2) [OF q] by (simp_all add: acquire_spinlock_free)
      then show ?thesis by (simp add: s2_def acquire_spinlock_free)
    qed
    finally show ?thesis .
  qed
  show ?thesis
    using err rel s2 by (cases "find_thread i s")
      (auto simp: detach_thread_def Let_def s2_def [symmetric] idle_state_def)
qed

end
