(* ===== verification/Sched_Resume.thy ===== *)
theory Sched_Resume
  imports Sched_Rep
begin

text \<open>
  Resuming a thread: the handler that queues it on a CPU, the request to that CPU, the choice
  of the CPU and the whole of \<open>resume_thread\<close>.
\<close>

section \<open>The handler\<close>

definition running_td :: "nat \<Rightarrow> thread_data \<Rightarrow> thread_data" where
  "running_td k td = td\<lparr>td_state := THREAD_STATE_RUNNING, td_cpu := word_of_nat k\<rparr>"

lemma core_upd:
  "core (running_td k td) = running_td k (core td)"
  by (simp add: core_def running_td_def)

lemma core_upq: "core (update_priority_quantum td) = update_priority_quantum (core td)"
  by (simp add: core_def update_priority_quantum_def)

lemma do_resume_task_eq:
  assumes st: "kstruct n s v" and k: "k < n"
    and t: "ct_thread (cd_task (ks_cpus s k)) = t" "t \<in> set (v_all v)" "loose n v t"
    and p: "unat (td_real_priority (ks_thr s t)) = p" "p < CONFIG_SCHEDULER_PRIORITIES"
  obtains h' d' where
    "do_resume_task k s = Ret (s\<lparr>ks_thr := h', ks_cpus := (ks_cpus s)(k := d')\<rparr>)"
    "struct n h' ((ks_cpus s)(k := d')) (ks_all s) (ks_inactive s) (v_queue_upd k p (q_add t) v)"
    "\<And>a. core (h' a) = core (if a = t then running_td k (ks_thr s t) else ks_thr s a)"
    "cd_current_priority d' = (if load (v_queue v k) = 0 then int p else cd_current_priority (ks_cpus s k))"
    "cd_load_context d' \<longleftrightarrow> load (v_queue v k) = 0 \<or> cd_load_context (ks_cpus s k)"
    "cd_task d' = (cd_task (ks_cpus s k))\<lparr>ct_error := ERR_NONE\<rparr>"
proof -
  define h1 where "h1 = upd_thread t (running_td k) (ks_thr s)"
  have st1: "struct n h1 (ks_cpus s) (ks_all s) (ks_inactive s) v"
    unfolding h1_def by (rule struct_upd_thread [OF st]) (simp add: keeps_links_def running_td_def)
  have p1: "unat (td_real_priority (h1 t)) = p" using p by (simp add: h1_def upd_thread_def running_td_def)
  obtain h' d where a: "add_expired h1 (ks_cpus s k) t = Ret (h', d)"
    "struct n h' ((ks_cpus s)(k := d\<lparr>cd_total_threads := cd_total_threads (ks_cpus s k) + 1\<rparr>))
       (ks_all s) (ks_inactive s) (v_queue_upd k p (q_add t) v)"
    "cd_total_threads d = cd_total_threads (ks_cpus s k)"
    "cd_current_priority d = cd_current_priority (ks_cpus s k)" "cd_task d = cd_task (ks_cpus s k)"
    "cd_load_context d = cd_load_context (ks_cpus s k)" "\<And>a. core (h' a) = core (h1 a)"
    using struct_add [OF st1 k p1 p(2) t(2,3)] by metis
  have rp: "unat (td_real_priority (h' t)) = p" using core_fields(9) [OF a(7) [of t]] p1 by simp
  have tot: "cd_total_threads (ks_cpus s k) = 0 \<longleftrightarrow> load (v_queue v k) = 0"
    by (rule struct_load(4) [OF st k])
  define d1 where "d1 = d\<lparr>cd_total_threads := cd_total_threads (ks_cpus s k) + 1\<rparr>"
  define d' where "d' = (if load (v_queue v k) = 0
      then d1\<lparr>cd_current_priority := int p, cd_load_context := True\<rparr> else d1)\<lparr>cd_task := (cd_task d)\<lparr>ct_error := ERR_NONE\<rparr>\<rparr>"
  show ?thesis
  proof (rule that [of d' h'])
    show "do_resume_task k s = Ret (s\<lparr>ks_thr := h', ks_cpus := (ks_cpus s)(k := d')\<rparr>)"
      using a tot rp t(1)
      by (cases "load (v_queue v k) = 0")
        (simp_all add: do_resume_task_def Let_def on_thread_def h1_def [unfolded running_td_def, symmetric]
          on_task_def on_cpu_def d'_def d1_def)
    show "struct n h' ((ks_cpus s)(k := d')) (ks_all s) (ks_inactive s) (v_queue_upd k p (q_add t) v)"
      using struct_cpu_fields [OF a(2), of d' k] by (simp add: d'_def d1_def)
  qed (use a in \<open>simp_all add: d'_def d1_def h1_def upd_thread_def\<close>)
qed

lemma cpu_ok_add:
  assumes ok: "cpu_ok d Q fs" and p: "p < CONFIG_SCHEDULER_PRIORITIES"
    and d': "cd_current_priority d' = (if load Q = 0 then int p else cd_current_priority d)"
      "cd_load_context d' \<longleftrightarrow> load Q = 0 \<or> cd_load_context d"
  shows "cpu_ok d' (Q(p := q_add t (Q p))) fs"
proof -
  have l: "load (Q(p := q_add t (Q p))) = load Q + 1"
    using load_upd [OF p, of Q "q_add t (Q p)"] by simp
  show ?thesis
  proof (cases "load Q = 0")
    case True
    with ok l p d' show ?thesis by (simp add: cpu_ok_def)
  next
    case False
    with ok l p d' show ?thesis by (auto simp: cpu_ok_def)
  qed
qed

section \<open>The request\<close>

text \<open>Asking CPU \<open>k\<close> (this one or another) while a lock taken earlier keeps interrupts off here.\<close>

lemma run_cpu_task_resume:
  assumes st: "kstruct (m_cpus E) s v" and n: "m_cpus E \<le> CONFIG_MAX_CPUS" and k: "k < m_cpus E"
    and t: "t \<in> set (v_all v)" "loose (m_cpus E) v t"
    and p: "unat (td_real_priority (ks_thr s t)) = p" "p < CONFIG_SCHEDULER_PRIORITIES"
    and hw: "hw_busy s (Lock_cpu k) = 0" "hw_outer s c \<noteq> Lock_null" "hw_outer s c \<noteq> Lock_cpu k"
      "k \<noteq> c \<Longrightarrow> hw_if s k \<and> bit (fr_rflags (ks_ctx s k)) 9"
    and task: "ct_type tsk = CPU_TASK_RESUME" "ct_thread tsk = t"
  obtains h' d' e where
    "run_cpu_task E c (int k) tsk s = Ret (cd_task d',
       s\<lparr>ks_thr := h', ks_cpus := (ks_cpus s)(k := d'), ks_eoi := e\<rparr>)"
    "struct (m_cpus E) h' ((ks_cpus s)(k := d')) (ks_all s) (ks_inactive s) (v_queue_upd k p (q_add t) v)"
    "\<And>a. core (h' a) = core (if a = t then running_td k (ks_thr s t) else ks_thr s a)"
    "cd_current_priority d' = (if load (v_queue v k) = 0 then int p else cd_current_priority (ks_cpus s k))"
    "cd_load_context d' \<longleftrightarrow> load (v_queue v k) = 0 \<or> cd_load_context (ks_cpus s k)"
proof -
  define tsk' where "tsk' = (if c = k then tsk else tsk\<lparr>ct_error := ERR_BUSY\<rparr>)"
  define d0 where "d0 = (ks_cpus s k)\<lparr>cd_task := tsk'\<rparr>"
  define s2 where "s2 = s\<lparr>hw_busy := (hw_busy s)(Lock_cpu k := 1),
      hw_if := (if c = k then hw_if s else (hw_if s)(k := False)), ks_cpus := (ks_cpus s)(k := d0)\<rparr>"
  have st2: "kstruct (m_cpus E) s2 v"
    unfolding s2_def using struct_cpu_fields [OF st, of d0 k] by (simp add: d0_def)
  have t2: "ct_thread (cd_task (ks_cpus s2 k)) = t" using task by (simp add: s2_def d0_def tsk'_def)
  have p2: "unat (td_real_priority (ks_thr s2 t)) = p" using p by (simp add: s2_def)
  obtain h' d' where a: "do_resume_task k s2 = Ret (s2\<lparr>ks_thr := h', ks_cpus := (ks_cpus s2)(k := d')\<rparr>)"
    "struct (m_cpus E) h' ((ks_cpus s2)(k := d')) (ks_all s2) (ks_inactive s2) (v_queue_upd k p (q_add t) v)"
    "\<And>a. core (h' a) = core (if a = t then running_td k (ks_thr s2 t) else ks_thr s2 a)"
    "cd_current_priority d' = (if load (v_queue v k) = 0 then int p else cd_current_priority (ks_cpus s2 k))"
    "cd_load_context d' \<longleftrightarrow> load (v_queue v k) = 0 \<or> cd_load_context (ks_cpus s2 k)"
    "cd_task d' = (cd_task (ks_cpus s2 k))\<lparr>ct_error := ERR_NONE\<rparr>"
    using do_resume_task_eq [OF st2 k t2 t p2 p(2)] by metis
  define e where "e = (ks_eoi s)(k := Suc (ks_eoi s k))"
  have h: "handle_task_int E k f s2 = Ret (f, s2\<lparr>ks_thr := h', ks_cpus := (ks_cpus s2)(k := d'), ks_eoi := e\<rparr>)" for f
  proof -
    have "ct_type (cd_task (ks_cpus s2 k)) = CPU_TASK_RESUME" "ks_eoi s2 = ks_eoi s"
      using task by (simp_all add: s2_def d0_def tsk'_def)
    then show ?thesis using a(1) by (simp add: handle_task_int_def set_eoi_def e_def)
  qed
  have tt: "ct_type (cd_task d') = CPU_TASK_RESUME" "ct_error (cd_task d') = ERR_NONE"
    using a(6) task by (simp_all add: s2_def d0_def tsk'_def)
  have acq: "snd (acquire_spinlock c (Lock_cpu k) 0 s) = s\<lparr>hw_busy := (hw_busy s)(Lock_cpu k := 1)\<rparr>"
    using hw(2) by (simp add: acquire_spinlock_free [OF hw(1)] hw_put_def)
  have busy: "(hw_busy s)(Lock_cpu k := 0) = hw_busy s" using hw(1) by auto
  define r where "r = s\<lparr>ks_thr := h', ks_cpus := (ks_cpus s)(k := d'), ks_eoi := e\<rparr>"
  have rel: "release_spinlock c (Lock_cpu k) (r\<lparr>hw_busy := (hw_busy s)(Lock_cpu k := 1)\<rparr>) = r"
    using hw(3) busy by (simp add: release_spinlock_eq hw_put_def r_def cong: if_cong) 
  have "run_cpu_task E c (int k) tsk s = Ret (cd_task d', r)"
  proof (cases "c = k")
    case True
    have "on_task k (\<lambda>_. tsk) (s\<lparr>hw_busy := (hw_busy s)(Lock_cpu k := 1)\<rparr>) = s2"
      using True by (simp add: s2_def d0_def tsk'_def on_task_def on_cpu_def)
    moreover have "s2\<lparr>ks_thr := h', ks_cpus := (ks_cpus s2)(k := d'), ks_eoi := e\<rparr> =
        r\<lparr>hw_busy := (hw_busy s)(Lock_cpu k := 1)\<rparr>"
      using True by (simp add: s2_def r_def)
    moreover have "ks_cpus r k = d'" by (simp add: r_def)
    ultimately show ?thesis
      using k n h [of None] tt rel True
      unfolding run_cpu_task_def Let_def nat_int acq by simp
  next
    case False
    note i = hw(4) [OF False [symmetric]]
    have s3: "cli k (on_task k (\<lambda>t. t\<lparr>ct_error := ERR_BUSY\<rparr>) (on_task k (\<lambda>_. tsk)
        (s\<lparr>hw_busy := (hw_busy s)(Lock_cpu k := 1)\<rparr>))) = s2"
      using False by (simp add: s2_def d0_def tsk'_def on_task_def on_cpu_def cli_def)
    have "(hw_if s)(k := True) = hw_if s" "(ks_ctx s)(k := ks_ctx s k) = ks_ctx s"
      using i by (simp_all add: fun_upd_idem)
    then have "run_isr k (handle_task_int E k) (on_task k (\<lambda>t. t\<lparr>ct_error := ERR_BUSY\<rparr>) (on_task k (\<lambda>_. tsk)
        (s\<lparr>hw_busy := (hw_busy s)(Lock_cpu k := 1)\<rparr>))) =
        Ret (r\<lparr>hw_busy := (hw_busy s)(Lock_cpu k := 1)\<rparr>)"
      using i False unfolding run_isr_def s3
      by (simp add: h on_task_def on_cpu_def) (simp add: s2_def r_def)
    moreover have "hw_if (on_task k (\<lambda>t. t\<lparr>ct_error := ERR_BUSY\<rparr>) (on_task k (\<lambda>_. tsk)
        (s\<lparr>hw_busy := (hw_busy s)(Lock_cpu k := 1)\<rparr>))) k" using i by simp
    moreover have "ks_cpus (r\<lparr>hw_busy := (hw_busy s)(Lock_cpu k := 1)\<rparr>) k = d'" by (simp add: r_def)
    ultimately show ?thesis
      using k n tt rel False
      unfolding run_cpu_task_def Let_def nat_int acq by simp
  qed
  moreover have "(ks_cpus s2)(k := d') = (ks_cpus s)(k := d')" by (simp add: s2_def)
  ultimately show ?thesis
    using a by (intro that [of d' e h']) (simp_all add: r_def, simp_all add: s2_def d0_def)
qed

section \<open>The choice of the CPU\<close>

definition least_loaded :: "(nat \<Rightarrow> nat) \<Rightarrow> (nat \<Rightarrow> bool) \<Rightarrow> nat set \<Rightarrow> nat \<Rightarrow> bool" where
  "least_loaded L ok A k \<longleftrightarrow> k \<in> A \<and> ok k \<and>
     (\<forall>j\<in>A. ok j \<longrightarrow> L k \<le> L j \<and> (j < k \<longrightarrow> L k < L j))"

lemma find_least_loaded_from_spec:
  assumes "\<forall>j\<in>set is. cd_total_threads (ks_cpus s j) = word_of_nat (L j) \<and> L j < 2 ^ 31"
    and "sorted_wrt (<) is"
  shows "(find_least_loaded_from s a is cpu T = cpu \<and>
        (\<forall>j\<in>set is. BIT_ARRAY_GET a j \<longrightarrow> sint T \<le> int (L j))) \<or>
      (\<exists>k. find_least_loaded_from s a is cpu T = int k \<and> int (L k) < sint T \<and>
        least_loaded L (BIT_ARRAY_GET a) (set is) k)"
  using assms
proof (induction "is" arbitrary: cpu T)
  case (Cons i "is")
  have ti: "cd_total_threads (ks_cpus s i) = word_of_nat (L i)" "L i < 2 ^ 31" using Cons.prems(1) by auto
  then have si: "sint (cd_total_threads (ks_cpus s i)) = int (L i)"
    by (simp add: sint_of_nat)
  have gt: "\<forall>j\<in>set is. i < j \<and> \<not> j < i" using Cons.prems(2) by auto
  show ?case
  proof (cases "BIT_ARRAY_GET a i \<and> int (L i) < sint T")
    case True
    then have step: "find_least_loaded_from s a (i # is) cpu T =
        find_least_loaded_from s a is (int i) (cd_total_threads (ks_cpus s i))"
      by (simp add: word_sless_alt si)
    show ?thesis
      unfolding step using Cons.IH [of "int i" "cd_total_threads (ks_cpus s i)"] Cons.prems True gt
      unfolding si
      by (auto simp: least_loaded_def dest: order.strict_trans intro: less_imp_le)
  next
    case False
    then have step: "find_least_loaded_from s a (i # is) cpu T = find_least_loaded_from s a is cpu T"
      by (auto simp: word_sless_alt si)
    show ?thesis
      unfolding step using Cons.IH [of cpu T] Cons.prems False
      by (auto simp: least_loaded_def)
  qed
qed simp

lemma find_least_loaded_cpu_spec:
  assumes st: "kstruct (m_cpus E) s v" and a: "affinity_ok E a"
  obtains k where "find_least_loaded_cpu E s a = int k" "k < m_cpus E"
    "least_loaded (\<lambda>c. load (v_queue v c)) (BIT_ARRAY_GET a) {..<m_cpus E} k"
proof -
  have l: "\<forall>j\<in>set [0..<m_cpus E]. cd_total_threads (ks_cpus s j) = word_of_nat (load (v_queue v j)) \<and>
      load (v_queue v j) < 2 ^ 31"
    using struct_load(2,3) [OF st] by (auto intro: order.strict_trans)
  obtain i where i: "i < m_cpus E" "BIT_ARRAY_GET a i" using a by (auto simp: affinity_ok_def)
  have "int (load (v_queue v i)) < sint (0x7FFFFFFF :: i32)"
    using struct_load(2) [OF st i(1)] by simp
  moreover have "set [0..<m_cpus E] = {..<m_cpus E}" by auto
  ultimately obtain k where "find_least_loaded_cpu E s a = int k"
    "least_loaded (\<lambda>c. load (v_queue v c)) (BIT_ARRAY_GET a) {..<m_cpus E} k"
    unfolding find_least_loaded_cpu_def
    using find_least_loaded_from_spec [OF l sorted_wrt_upt, of a "-1" "0x7FFFFFFF"] i by fastforce
  then show ?thesis by (intro that) (auto simp: least_loaded_def)
qed

section \<open>The whole operation\<close>

definition v_resume :: "nat \<Rightarrow> nat \<Rightarrow> ptr \<Rightarrow> view \<Rightarrow> view" where
  "v_resume c p t v = v_queue_upd c p (q_add t) (v\<lparr>v_inactive := remove1 t (v_inactive v)\<rparr>)"

lemma heap_ok_resume:
  assumes ok: "heap_ok E h v" and t: "t \<in> set (v_all v)" "t \<in> set (v_inactive v)"
    and p: "td_state (h t) = THREAD_STATE_PAUSED" "p = unat (td_priority (h t))"
    and c: "\<And>a. core (h' a) = core (if a = t then running_td k (update_priority_quantum (h t)) else h a)"
    and k: "k < m_cpus E" "m_cpus E \<le> CONFIG_MAX_CPUS" and dist: "distinct (v_inactive v)"
  shows "heap_ok E h' (v_resume k p t v)"
proof -
  have tok: "thread_ok E (h t)" "td_magic (h t) = THREAD_MAGIC"
    using heap_okD(2) [OF ok t(1)] ok t(1) by (auto simp: heap_ok_def)
  have k8: "unat (word_of_nat k :: u8) = k" using k by (simp add: unat_of_nat)
  have pl: "p < CONFIG_SCHEDULER_PRIORITIES" using tok p by (simp add: thread_ok_def)
  define td where "td = running_td k (update_priority_quantum (h t))"
  have td: "td_state td = THREAD_STATE_RUNNING" "unat (td_cpu td) = k" "unat (td_real_priority td) = p"
    "td_real_priority td = td_priority td" "td_priority td = td_priority (h t)"
    "td_stamp td = td_stamp (h t)" "td_affinity td = td_affinity (h t)" "td_magic td = td_magic (h t)"
    using k8 p by (simp_all add: td_def running_td_def update_priority_quantum_def)
  have "core (h' t) = core td" using c [of t] by (simp add: td_def)
  note ct = core_fields [OF this]
  have q: "qset (v_resume k p t v) j r = (if j = k \<and> r = p then insert t (qset v k p) else qset v j r)" for j r
    by (simp add: v_resume_def qset_def)
  have tq: "\<not> t \<in> qset v j r" if "j < m_cpus E" "r < CONFIG_SCHEDULER_PRIORITIES" for j r
    using heap_okD(4) [OF ok t(1) that] p(1) by (simp add: runs_on_def)
  show ?thesis
  proof (rule heap_ok_move [OF ok t(1)])
    show "a \<noteq> t \<Longrightarrow> core (h' a) = core (h a)" for a using c by simp
    show "v_all (v_resume k p t v) = v_all v" by (simp add: v_resume_def)
    show "a \<noteq> t \<Longrightarrow> a \<in> set (v_inactive (v_resume k p t v)) \<longleftrightarrow> a \<in> set (v_inactive v)" for a
      by (simp add: v_resume_def in_set_remove1)
    show "a \<noteq> t \<Longrightarrow> a \<in> qset (v_resume k p t v) j r \<longleftrightarrow> a \<in> qset v j r" for a j r
      by (simp add: q)
    show "td_magic (h' t) = THREAD_MAGIC" using ct td tok by simp
    show "thread_ok E (h' t)" using tok ct td k by (simp add: thread_ok_def)
    show "t \<in> set (v_inactive (v_resume k p t v)) \<longleftrightarrow> idle_state (h' t)"
      using dist ct td by (simp add: v_resume_def idle_state_def)
    show "t \<in> qset (v_resume k p t v) j r \<longleftrightarrow> runs_on h' j r t"
      if "j < m_cpus E" "r < CONFIG_SCHEDULER_PRIORITIES" for j r
      using tq [OF that] ct td by (auto simp: q runs_on_def)
  qed
qed

text \<open>A lock taken around an update that does not touch locks.\<close>

lemma one_lock:
  assumes q: "quiet E c s" and l: "l \<in> kernel_locks E"
    and s1: "s1 = snd (acquire_spinlock c l 0 s)"
    and body: "hw_busy s' = hw_busy s1" "hw_outer s' = hw_outer s1" "hw_if s' = hw_if s1"
  shows "release_spinlock c l s' = hw_put (hw_busy s) (hw_outer s) (hw_if s) s'"
    and "s1 = hw_put ((hw_busy s)(l := 1))
       ((hw_outer s)(c := (if hw_outer s c = Lock_null then l else hw_outer s c)))
       ((hw_if s)(c := (hw_outer s c \<noteq> Lock_null \<and> hw_if s c))) s"
proof -
  have b: "hw_busy s l = 0" and o: "hw_outer s c \<noteq> l" using q l by (auto simp: quiet_def)
  have ln: "l \<noteq> Lock_null" using l by (auto simp: kernel_locks_def)
  show s1': "s1 = hw_put ((hw_busy s)(l := 1))
       ((hw_outer s)(c := (if hw_outer s c = Lock_null then l else hw_outer s c)))
       ((hw_if s)(c := (hw_outer s c \<noteq> Lock_null \<and> hw_if s c))) s"
    unfolding s1 by (simp add: acquire_spinlock_free [OF b])
  show "release_spinlock c l s' = hw_put (hw_busy s) (hw_outer s) (hw_if s) s'"
    unfolding release_spinlock_eq body
    by (rule hw_put_cong; rule ext)
      (use b o ln quietD(7) [OF q] in \<open>auto simp: s1'\<close>)
qed

lemma resume_thread_rep:
  assumes rep: "rep E s v" and q: "quiet E c s"
    and t: "find_thread i s = Inr t" "td_state (ks_thr s t) = THREAD_STATE_PAUSED"
  obtains s' k where
    "resume_thread E c i s = Ret (ERR_NONE, s')" "k < m_cpus E"
    "least_loaded (\<lambda>c. load (v_queue v c)) (BIT_ARRAY_GET (td_affinity (ks_thr s t))) {..<m_cpus E} k"
    "rep E s' (v_resume k (unat (td_priority (ks_thr s t))) t v)" "same_hw s s'"
    "core (ks_thr s' t) = core (running_td k (update_priority_quantum (ks_thr s t)))"
    "\<And>a. a \<noteq> t \<Longrightarrow> core (ks_thr s' a) = core (ks_thr s a)" "ks_ctx s' = ks_ctx s" "ks_mem s' = ks_mem s"
    "ks_fs_base s' = ks_fs_base s" "\<And>j. j \<noteq> k \<Longrightarrow> ks_cpus s' j = ks_cpus s j"
    "cd_current_priority (ks_cpus s' k) = (if load (v_queue v k) = 0 then int (unat (td_priority (ks_thr s t)))
       else cd_current_priority (ks_cpus s k))"
    "cd_load_context (ks_cpus s' k) \<longleftrightarrow> load (v_queue v k) = 0 \<or> cd_load_context (ks_cpus s k)"
proof -
  note r = repD [OF rep]
  have ta: "t \<in> set (v_all v)" by (rule find_thread_rep(1) [OF rep t(1)])
  have ti: "t \<in> set (v_inactive v)" by (rule idle_in_inactive [OF rep ta]) (simp add: idle_state_def t(2))
  have tok: "thread_ok E (ks_thr s t)" using heap_okD(2) [OF r(3) ta] .
  define s1 where "s1 = snd (acquire_spinlock c Lock_inactive 0 s)"
  have l: "Lock_inactive \<in> kernel_locks E" by (simp add: kernel_locks_def)
  note s1 = one_lock(2) [OF q l s1_def refl refl refl]
  define f :: "thread_data \<Rightarrow> thread_data" where
    "f = (\<lambda>td. update_priority_quantum (td\<lparr>td_real_priority := td_priority td, td_quantum := 0\<rparr>))"
  have f: "f td = update_priority_quantum td" for td by (simp add: f_def update_priority_quantum_def)
  have kl: "keeps_links f" by (simp add: keeps_links_def f update_priority_quantum_def)
  define s2 where "s2 = remove_inactive t s1"
  define s3 where "s3 = on_thread t f s2"
  define v2 where "v2 = v\<lparr>v_inactive := remove1 t (v_inactive v)\<rparr>"
  have k1: "kstruct (m_cpus E) s1 v" using r(2) by (simp add: s1)
  have k2: "kstruct (m_cpus E) s2 v2" "loose (m_cpus E) v2 t"
    unfolding s2_def v2_def using struct_remove_inactive [OF k1 ti] by auto
  have k3: "kstruct (m_cpus E) s3 v2" using struct_upd_thread [OF k2(1) kl] by (simp add: s3_def)
  have c3: "core (ks_thr s3 a) = core (if a = t then update_priority_quantum (ks_thr s t) else ks_thr s a)" for a
  proof -
    have "core (ks_thr s2 a) = core (ks_thr s a)" for a by (simp add: s2_def s1)
    then show ?thesis by (simp add: s3_def upd_thread_apply f core_upq)
  qed
  note c3t = core_fields [OF c3 [of t]]
  define p where "p = unat (td_priority (ks_thr s t))"
  have p: "unat (td_real_priority (ks_thr s3 t)) = p" "p < CONFIG_SCHEDULER_PRIORITIES"
    using tok c3t by (simp_all add: p_def update_priority_quantum_def thread_ok_def)
  have aff: "td_affinity (ks_thr s3 t) = td_affinity (ks_thr s t)"
    using c3t by (simp add: update_priority_quantum_def)
  have "affinity_ok E (td_affinity (ks_thr s t))" using tok by (simp add: thread_ok_def)
  then obtain k where k: "find_least_loaded_cpu E s3 (td_affinity (ks_thr s t)) = int k" "k < m_cpus E"
    "least_loaded (\<lambda>c. load (v_queue v2 c)) (BIT_ARRAY_GET (td_affinity (ks_thr s t))) {..<m_cpus E} k"
    using find_least_loaded_cpu_spec [OF k3] by metis
  have hw: "hw_busy s3 (Lock_cpu k) = 0" "hw_outer s3 c \<noteq> Lock_null" "hw_outer s3 c \<noteq> Lock_cpu k"
      "k \<noteq> c \<Longrightarrow> hw_if s3 k \<and> bit (fr_rflags (ks_ctx s3 k)) 9"
    using quietD(3,6,8) [OF q k(2)] by (auto simp: s3_def s2_def s1)
  define tsk where "tsk = \<lparr>ct_type = CPU_TASK_RESUME, ct_error = ERR_NONE, ct_thread = t, ct_lock = Lock_null\<rparr>"
  have ta2: "t \<in> set (v_all v2)" using ta by (simp add: v2_def)
  obtain h' d' e where run: "run_cpu_task E c (int k) tsk s3 = Ret (cd_task d',
       s3\<lparr>ks_thr := h', ks_cpus := (ks_cpus s3)(k := d'), ks_eoi := e\<rparr>)"
    "struct (m_cpus E) h' ((ks_cpus s3)(k := d')) (ks_all s3) (ks_inactive s3) (v_queue_upd k p (q_add t) v2)"
    "\<And>a. core (h' a) = core (if a = t then running_td k (ks_thr s3 t) else ks_thr s3 a)"
    "cd_current_priority d' = (if load (v_queue v2 k) = 0 then int p else cd_current_priority (ks_cpus s3 k))"
    "cd_load_context d' \<longleftrightarrow> load (v_queue v2 k) = 0 \<or> cd_load_context (ks_cpus s3 k)"
  proof -
    have tk: "ct_type tsk = CPU_TASK_RESUME" "ct_thread tsk = t" by (simp_all add: tsk_def)
    show ?thesis by (rule run_cpu_task_resume [OF k3 r(1) k(2) ta2 k2(2) p hw tk]) (assumption, rule that)
  qed
  define s4 where "s4 = s3\<lparr>ks_thr := h', ks_cpus := (ks_cpus s3)(k := d'), ks_eoi := e\<rparr>"
  define s5 where "s5 = release_spinlock c Lock_inactive s4"
  have s5: "s5 = hw_put (hw_busy s) (hw_outer s) (hw_if s) s4"
    unfolding s5_def by (rule one_lock(1) [OF q l s1_def]) (simp_all add: s4_def s3_def s2_def)
  have ft: "find_thread i s1 = Inr t" "td_state (ks_thr s1 t) = THREAD_STATE_PAUSED"
    using t by (simp_all add: s1)
  have "resume_thread E c i s =
      obind (obind (run_cpu_task E c (find_least_loaded_cpu E s3 (td_affinity (ks_thr s3 t))) tsk s3)
        (\<lambda>(_, s4). Ret (ERR_NONE, s4))) (\<lambda>(err, s5). Ret (err, release_spinlock c Lock_inactive s5))"
    by (simp only: resume_thread_def Let_def s1_def [symmetric] ft sum.case simp_thms if_True
        s2_def [symmetric] f_def [symmetric] s3_def [symmetric] tsk_def [symmetric])
  also have "\<dots> = Ret (ERR_NONE, s5)"
    unfolding aff k(1) run(1) by (simp add: s5_def s4_def)
  finally have res: "resume_thread E c i s = Ret (ERR_NONE, s5)" .
  have v': "v_queue_upd k p (q_add t) v2 = v_resume k p t v" by (simp add: v_resume_def v2_def)
  have c5: "core (h' a) = core (if a = t then running_td k (update_priority_quantum (ks_thr s t)) else ks_thr s a)" for a
    using run(3) [of a] c3 [of a] by (cases "a = t") (simp_all add: core_upd)
  have h5: "heap_ok E h' (v_resume k p t v)"
    by (rule heap_ok_resume [OF r(3) ta ti t(2) _ c5 k(2) r(1) dlist_distinct [OF structD(2) [OF r(2)]]]) (simp add: p_def)
  have cpu5: "cpu_ok (((ks_cpus s)(k := d')) j) (v_queue (v_resume k p t v) j) (ks_fs_base s j)" if j: "j < m_cpus E" for j
  proof (cases "j = k")
    case True
    have "ks_cpus s3 k = ks_cpus s k" "v_queue v2 k = v_queue v k" by (simp_all add: s3_def s2_def s1 v2_def)
    with run(4,5) cpu_ok_add [OF r(6) [OF k(2)] p(2), of d'] True show ?thesis
      by (simp add: v_resume_def v_queue_upd_def)
  next
    case False
    with r(6) [OF j] show ?thesis by (simp add: v_resume_def v_queue_upd_def)
  qed
  have f5: "ks_cpus s3 = ks_cpus s" "ks_stamp s3 = ks_stamp s" "ks_fs_base s3 = ks_fs_base s"
    "ks_ctx s3 = ks_ctx s" "ks_mem s3 = ks_mem s"
    by (simp_all add: s3_def s2_def s1)
  have "rep E s5 (v_resume k p t v)"
    using r(1,4) run(2) h5 cpu5 unfolding s5 rep_hw_put by (simp add: rep_def s4_def f5 v')
  moreover have "least_loaded (\<lambda>c. load (v_queue v c)) (BIT_ARRAY_GET (td_affinity (ks_thr s t))) {..<m_cpus E} k"
    using k(3) by (simp add: v2_def)
  ultimately show ?thesis
    using res k(2) c5 f5 run(4,5) unfolding p_def
    by (intro that [of s5 k]) (simp_all add: s5 s4_def same_hw_def v2_def)
qed

lemma one_lock_id:
  assumes q: "quiet E c s" and l: "l \<in> kernel_locks E"
  shows "release_spinlock c l (snd (acquire_spinlock c l 0 s)) = s"
  using one_lock [OF q l refl refl refl refl] by simp

lemma resume_thread_error:
  assumes q: "quiet E c s"
    and err: "case find_thread i s of Inl e \<Rightarrow> err = e
       | Inr t \<Rightarrow> td_state (ks_thr s t) \<noteq> THREAD_STATE_PAUSED \<and> err = ERR_BAD_STATE"
  shows "resume_thread E c i s = Ret (err, s)"
proof -
  have l: "Lock_inactive \<in> kernel_locks E" by (simp add: kernel_locks_def)
  define s1 where "s1 = snd (acquire_spinlock c Lock_inactive 0 s)"
  have s1: "find_thread i s1 = find_thread i s" "ks_thr s1 = ks_thr s"
    by (simp_all add: s1_def acquire_kstate find_thread_def)
  show ?thesis
    using err one_lock_id [OF q l] unfolding resume_thread_def Let_def s1_def [symmetric]
    by (cases "find_thread i s") (auto simp: s1)
qed

end
