(* ===== verification/Sched_Pause.thy ===== *)
theory Sched_Pause
  imports Sched_Resume
begin

text \<open>
  Pausing and stopping threads: the handler that takes a thread off its CPU's queues, the
  request to that CPU, the halt of the own CPU, and the whole of \<open>deactivate_thread\<close>.
\<close>

section \<open>The handler\<close>

lemma active_front:
  assumes "struct n h cpus al inact v" "c < n" "p < CONFIG_SCHEDULER_PRIORITIES"
  shows "qlist (v_queue v c p) \<noteq> [] \<Longrightarrow> cp_active_tail (cd_priorities (cpus c) p) = hd (qlist (v_queue v c p))"
    and "qlist (v_queue v c p) \<noteq> [] \<Longrightarrow> fst (v_queue v c p) \<noteq> []"
    and "cp_active_tail (cd_priorities (cpus c) p) = t \<Longrightarrow> t \<noteq> NULL \<Longrightarrow> t \<in> qset v c p"
proof -
  note q = struct_queue(1,2) [OF assms]
  have d: "dlist (next_of h) (prev_of h) (cp_active_tail (cd_priorities (cpus c) p)) (fst (v_queue v c p))"
    using q(1) by (simp add: prio_rep_def)
  show ne: "fst (v_queue v c p) \<noteq> []" if "qlist (v_queue v c p) \<noteq> []"
    using q(2) that by (auto simp: q_ok_def qlist_def)
  show "cp_active_tail (cd_priorities (cpus c) p) = hd (qlist (v_queue v c p))" if "qlist (v_queue v c p) \<noteq> []"
    using d ne [OF that] by (cases "fst (v_queue v c p)") (auto simp: dlist_def qlist_def)
  show "t \<in> qset v c p" if "cp_active_tail (cd_priorities (cpus c) p) = t" "t \<noteq> NULL"
    using d that by (cases "fst (v_queue v c p)") (auto simp: dlist_def qlist_def qset_def)
qed

lemma find_mask_highest:
  assumes "mask_ok m Q" "load Q \<noteq> 0"
  obtains r where "find_mask_bsf m PRIORITY_MASK_SIZE = int r" "r < CONFIG_SCHEDULER_PRIORITIES"
    "qlist (Q r) \<noteq> []" "\<And>j. j < r \<Longrightarrow> qlist (Q j) = []"
proof -
  have m: "\<And>p. p < 64 \<Longrightarrow> arr_bit m p \<longleftrightarrow> p < 8 \<and> qlist (Q p) \<noteq> []" using assms(1) by (simp add: mask_ok_def)
  define P where "P = (\<lambda>r. r < 8 \<and> qlist (Q r) \<noteq> [])"
  have "\<exists>r. P r" using assms(2) by (auto simp: load_0_iff P_def)
  then have r: "P (LEAST r. P r)" "\<And>j. j < (LEAST r. P r) \<Longrightarrow> \<not> P j"
    by (auto intro: LeastI_ex dest: not_less_Least)
  define r where "r = (LEAST r. P r)"
  have lo: "qlist (Q j) = []" if "j < r" for j using r(2) [of j] r(1) that by (auto simp: r_def P_def)
  have r8: "r < 8" "qlist (Q r) \<noteq> []" using r(1) by (auto simp: r_def P_def)
  then have "find_mask_bsf m PRIORITY_MASK_SIZE = int r"
    using m lo by (intro find_mask_bsf_eqI) auto
  with r8 lo show ?thesis by (intro that)
qed

definition is_current :: "view \<Rightarrow> cpu_data \<Rightarrow> nat \<Rightarrow> nat \<Rightarrow> ptr \<Rightarrow> bool" where
  "is_current v d k p t \<longleftrightarrow> cd_current_priority d = int p \<and> hd (qlist (v_queue v k p)) = t"

lemma do_pause_task_eq:
  fixes s :: "'z kstate_scheme"
  assumes st: "kstruct n s v" and k: "k < n" "k < 256"
    and ok: "cpu_ok (ks_cpus s k) (v_queue v k) (ks_fs_base s k)"
    and t: "ct_thread (cd_task (ks_cpus s k)) = t" "t \<in> qset v k p" "t \<in> set (v_all v)"
    and p: "unat (td_real_priority (ks_thr s t)) = p" "p < CONFIG_SCHEDULER_PRIORITIES"
    and run: "td_state (ks_thr s t) = THREAD_STATE_RUNNING" "unat (td_cpu (ks_thr s t)) = k"
  defines "cur \<equiv> is_current v (ks_cpus s k) k p t"
  obtains h' d' where
    "do_pause_task E k frame s = Ret (if cur then map_option (store_halt E) frame else frame,
       s\<lparr>ks_thr := h', ks_cpus := (ks_cpus s)(k := d'),
         ks_fs_base := (if cur then (ks_fs_base s)(k := NULL) else ks_fs_base s)\<rparr>)"
    "struct n h' ((ks_cpus s)(k := d')) (ks_all s) (ks_inactive s) (v_queue_upd k p (q_remove t) v)"
    "loose n (v_queue_upd k p (q_remove t) v) t"
    "\<And>a. core (h' a) = core (case frame of Some f \<Rightarrow>
        if cur \<and> a = t then (ks_thr s t)\<lparr>td_context := f\<rparr> else ks_thr s a | None \<Rightarrow> ks_thr s a)"
    "cpu_ok d' ((v_queue v k)(p := q_remove t (v_queue v k p))) (if cur then NULL else ks_fs_base s k)"
    "cd_task d' = (cd_task (ks_cpus s k))\<lparr>
       ct_type := (if cur \<and> frame = None then CPU_TASK_SELF_HALT else ct_type (cd_task (ks_cpus s k))),
       ct_error := ERR_NONE\<rparr>"
proof -
  let ?d = "ks_cpus s k"
  let ?Q = "v_queue v k"
  have tq: "t \<in> set (qlist (?Q p))" using t(2) by (simp add: qset_def)
  have l0: "load ?Q \<noteq> 0" using tq p(2) by (auto simp: load_0_iff)
  with ok have c8: "0 \<le> cd_current_priority ?d" "cd_current_priority ?d < 8"
    "qlist (?Q (nat (cd_current_priority ?d))) \<noteq> []" by (auto simp: cpu_ok_def)
  then have n8: "nat (cd_current_priority ?d) < CONFIG_SCHEDULER_PRIORITIES" by linarith
  have t0: "t \<noteq> NULL" using structD(1) [OF st] t(3) dlist_nonnull by blast
  have cur: "cp_active_tail (cd_priorities ?d (nat (cd_current_priority ?d))) = t \<longleftrightarrow> cur"
  proof
    assume a: "cp_active_tail (cd_priorities ?d (nat (cd_current_priority ?d))) = t"
    have "t \<in> qset v k (nat (cd_current_priority ?d))" by (rule active_front(3) [OF st k(1) n8 a t0])
    then have "nat (cd_current_priority ?d) = p"
      using apartD(3) [OF structD(4) [OF st] k(1) n8 k(1) p(2)] t(2) by blast
    with a active_front(1) [OF st k(1) n8 c8(3)] c8(1) show cur by (auto simp: cur_def is_current_def)
  next
    assume cur
    with active_front(1) [OF st k(1) n8 c8(3)] show "cp_active_tail (cd_priorities ?d (nat (cd_current_priority ?d))) = t"
      by (simp add: cur_def is_current_def)
  qed
  obtain h1 d where a: "pause_dequeue (ks_thr s) ?d t = Ret (h1, d)"
    "struct n h1 ((ks_cpus s)(k := d)) (ks_all s) (ks_inactive s) (v_queue_upd k p (q_remove t) v)"
    "loose n (v_queue_upd k p (q_remove t) v) t"
    "cd_current_priority d = cd_current_priority ?d" "cd_task d = cd_task ?d"
    "cd_load_context d = cd_load_context ?d" "\<And>a. core (h1 a) = core (ks_thr s a)"
    using struct_dequeue [OF st k(1) p t(2)] by metis
  let ?Q' = "?Q(p := q_remove t (?Q p))"
  have Q': "v_queue (v_queue_upd k p (q_remove t) v) k = ?Q'" by (simp add: v_queue_upd_def)
  have tot: "cd_total_threads d = 0 \<longleftrightarrow> load ?Q' = 0"
    using struct_load(4) [OF a(2) k(1)] by (simp add: Q')
  have "cpu_struct h1 d ?Q'" using structD(3) [OF a(2) k(1)] Q' by simp
  then have mo: "mask_ok (cd_priority_mask d) ?Q'" by (simp add: cpu_struct_def)
  have rem: "qlist (q_remove t (?Q p)) = remove1 t (qlist (?Q p))"
    by (rule qlist_remove [OF struct_queue(2) [OF st k(1) p(2)]])
  define d2 where "d2 = (if cur \<and> cd_total_threads d \<noteq> 0 then
      d\<lparr>cd_current_priority := find_mask_bsf (cd_priority_mask d) PRIORITY_MASK_SIZE, cd_load_context := True\<rparr> else d)"
  define d' where "d' = d2\<lparr>cd_task := (cd_task ?d)
      \<lparr>ct_type := (if cur \<and> frame = None then CPU_TASK_SELF_HALT else ct_type (cd_task ?d)), ct_error := ERR_NONE\<rparr>\<rparr>"
  define h' where "h' = (case frame of Some f \<Rightarrow> if cur then upd_thread t (\<lambda>td. td\<lparr>td_context := f\<rparr>) h1 else h1 | None \<Rightarrow> h1)"
  have td2: "cd_task d2 = cd_task ?d" by (simp add: d2_def a(5))
  define s1 where "s1 = s\<lparr>ks_thr := h1, ks_cpus := (ks_cpus s)(k := d)\<rparr>"
  define s2 where "s2 = set_thread_ptr k NULL (s1\<lparr>ks_cpus := (ks_cpus s1)(k := d2)\<rparr>)"
  have g1: "(td_state (ks_thr s t) \<noteq> THREAD_STATE_RUNNING \<or> unat (td_cpu (ks_thr s t)) \<noteq> k) = False" using run by simp
  have g2: "(\<not> (0 \<le> cd_current_priority ?d \<and> cd_current_priority ?d < int CONFIG_SCHEDULER_PRIORITIES)) = False"
    using c8 by simp
  have dd: "cur \<Longrightarrow> (if cd_total_threads d \<noteq> 0 then d\<lparr>cd_current_priority := find_mask_bsf (cd_priority_mask d) PRIORITY_MASK_SIZE,
      cd_load_context := True\<rparr> else d) = d2" by (simp add: d2_def)
  have "do_pause_task E k frame s = (if \<not> cur then Ret (frame, on_task k (\<lambda>k. k\<lparr>ct_error := ERR_NONE\<rparr>) s1)
      else case frame of
            Some f \<Rightarrow> Ret (Some (store_halt E f), on_task k (\<lambda>k. k\<lparr>ct_error := ERR_NONE\<rparr>) (load_thread_context f t s2))
          | None \<Rightarrow> Ret (None, on_task k (\<lambda>k. k\<lparr>ct_type := CPU_TASK_SELF_HALT, ct_error := ERR_NONE\<rparr>) s2))"
    unfolding do_pause_task_def Let_def t(1) cur
    by (simp only: g1 g2 if_False a(1) obind_simps prod.case s1_def [symmetric])
      (cases cur; simp only: dd s2_def if_True if_False simp_thms)
  moreover have "on_task k (\<lambda>k. k\<lparr>ct_error := ERR_NONE\<rparr>) s1 = s\<lparr>ks_thr := h', ks_cpus := (ks_cpus s)(k := d'),
      ks_fs_base := ks_fs_base s\<rparr>" if "\<not> cur"
    using that by (simp add: s1_def on_task_def on_cpu_def h'_def d'_def d2_def a(5) split: option.split)
  moreover have "on_task k (\<lambda>k. k\<lparr>ct_type := CPU_TASK_SELF_HALT, ct_error := ERR_NONE\<rparr>) s2 =
      s\<lparr>ks_thr := h', ks_cpus := (ks_cpus s)(k := d'), ks_fs_base := (ks_fs_base s)(k := NULL)\<rparr>"
    if "cur" "frame = None"
    using that td2 by (intro kstate.equality)
      (simp_all add: s2_def s1_def set_thread_ptr_def on_task_def on_cpu_def h'_def d'_def)
  moreover have "on_task k (\<lambda>k. k\<lparr>ct_error := ERR_NONE\<rparr>) (load_thread_context f t s2) =
      s\<lparr>ks_thr := h', ks_cpus := (ks_cpus s)(k := d'), ks_fs_base := (ks_fs_base s)(k := NULL)\<rparr>"
    if "cur" "frame = Some f" for f
    using that td2 by (intro kstate.equality)
      (simp_all add: s2_def s1_def set_thread_ptr_def on_task_def on_cpu_def h'_def d'_def
        load_thread_context_def on_thread_def)
  ultimately have res: "do_pause_task E k frame s = Ret (if cur then map_option (store_halt E) frame else frame,
       s\<lparr>ks_thr := h', ks_cpus := (ks_cpus s)(k := d'),
         ks_fs_base := (if cur then (ks_fs_base s)(k := NULL) else ks_fs_base s)\<rparr>)"
    by (simp split: option.split)
  have cok: "cpu_ok d' ?Q' (if cur then NULL else ks_fs_base s k)"
  proof (cases cur)
    case True
    show ?thesis
    proof (cases "load ?Q' = 0")
      case False
      then obtain r where "find_mask_bsf (cd_priority_mask d) PRIORITY_MASK_SIZE = int r"
        "r < CONFIG_SCHEDULER_PRIORITIES" "qlist (?Q' r) \<noteq> []"
        using find_mask_highest [OF mo] by metis
      with True False tot show ?thesis by (simp add: cpu_ok_def d'_def d2_def)
    qed (use True in \<open>simp add: cpu_ok_def\<close>)
  next
    case False
    define c0 where "c0 = nat (cd_current_priority ?d)"
    have q0: "qlist (?Q' c0) \<noteq> [] \<and> hd (qlist (?Q' c0)) = hd (qlist (?Q c0))"
    proof (cases "c0 = p")
      case True
      with False c8(1) have "hd (qlist (?Q p)) \<noteq> t" by (auto simp: cur_def is_current_def c0_def)
      with tq True show ?thesis by (cases "qlist (?Q p)") (auto simp: rem)
    qed (use c8(3) in \<open>simp add: c0_def\<close>)
    have "load ?Q' \<noteq> 0" using q0 n8 unfolding load_0_iff c0_def by blast
    with False q0 ok l0 c8(1,2) show ?thesis
      by (simp add: cpu_ok_def d'_def d2_def a(4,6) c0_def)
  qed
  show ?thesis
  proof (rule that [of d' h'])
    show "struct n h' ((ks_cpus s)(k := d')) (ks_all s) (ks_inactive s) (v_queue_upd k p (q_remove t) v)"
    proof -
      have "struct n h' ((ks_cpus s)(k := d)) (ks_all s) (ks_inactive s) (v_queue_upd k p (q_remove t) v)"
        using a(2) by (auto simp: h'_def keeps_links_def intro: struct_upd_thread split: option.split)
      from struct_cpu_fields [OF this, of d' k] show ?thesis by (simp add: d'_def d2_def)
    qed
    show "core (h' x) = core (case frame of Some f \<Rightarrow>
        if cur \<and> x = t then (ks_thr s t)\<lparr>td_context := f\<rparr> else ks_thr s x | None \<Rightarrow> ks_thr s x)" for x
    proof -
      have "core (y\<lparr>td_context := f\<rparr>) = (core y)\<lparr>td_context := f\<rparr>" for y f by (simp add: core_def)
      then show ?thesis using a(7) by (simp add: h'_def upd_thread_apply split: option.split)
    qed
  qed (use res a(3) cok in \<open>simp_all add: d'_def\<close>)
qed

section \<open>The request\<close>

text \<open>
  The state after the request. When the thread is the current one, another CPU has saved the
  registers it was interrupted with and halts; the own CPU keeps its lock, to halt later.
\<close>

definition pause_result ::
  "machine \<Rightarrow> nat \<Rightarrow> nat \<Rightarrow> bool \<Rightarrow> theap \<Rightarrow> cpu_data \<Rightarrow> (nat \<Rightarrow> nat) \<Rightarrow> 'z kstate_scheme \<Rightarrow> 'z kstate_scheme" where
  "pause_result E c k cur h' d' e s =
     s\<lparr>hw_busy := (if cur \<and> c = k then (hw_busy s)(Lock_cpu k := 1) else hw_busy s),
       ks_thr := h', ks_cpus := (ks_cpus s)(k := d'),
       ks_ctx := (if cur \<and> c \<noteq> k then (ks_ctx s)(k := store_halt E (ks_ctx s k)) else ks_ctx s),
       ks_fs_base := (if cur then (ks_fs_base s)(k := NULL) else ks_fs_base s), ks_eoi := e\<rparr>"

lemma run_cpu_task_pause:
  fixes s :: "'z kstate_scheme"
  assumes st: "kstruct (m_cpus E) s v" and n: "m_cpus E \<le> CONFIG_MAX_CPUS" and k: "k < m_cpus E"
    and ok: "cpu_ok (ks_cpus s k) (v_queue v k) (ks_fs_base s k)"
    and t: "t \<in> qset v k p" "t \<in> set (v_all v)"
    and p: "unat (td_real_priority (ks_thr s t)) = p" "p < CONFIG_SCHEDULER_PRIORITIES"
    and run: "td_state (ks_thr s t) = THREAD_STATE_RUNNING" "unat (td_cpu (ks_thr s t)) = k"
    and hw: "hw_busy s (Lock_cpu k) = 0" "hw_outer s c \<noteq> Lock_null" "hw_outer s c \<noteq> Lock_cpu k"
      "k \<noteq> c \<Longrightarrow> hw_if s k \<and> bit (fr_rflags (ks_ctx s k)) 9"
    and task: "ct_type tsk = CPU_TASK_PAUSE" "ct_thread tsk = t"
  defines "cur \<equiv> is_current v (ks_cpus s k) k p t"
  obtains h' d' e where
    "run_cpu_task E c (int k) tsk s = Ret (cd_task d', pause_result E c k cur h' d' e s)"
    "struct (m_cpus E) h' ((ks_cpus s)(k := d')) (ks_all s) (ks_inactive s) (v_queue_upd k p (q_remove t) v)"
    "loose (m_cpus E) (v_queue_upd k p (q_remove t) v) t"
    "\<And>a. core (h' a) = core (if cur \<and> c \<noteq> k \<and> a = t then (ks_thr s t)\<lparr>td_context := ks_ctx s k\<rparr> else ks_thr s a)"
    "cpu_ok d' ((v_queue v k)(p := q_remove t (v_queue v k p))) (if cur then NULL else ks_fs_base s k)"
    "cd_task d' = tsk\<lparr>ct_type := (if cur \<and> c = k then CPU_TASK_SELF_HALT else CPU_TASK_PAUSE), ct_error := ERR_NONE\<rparr>"
proof -
  define tsk' where "tsk' = (if c = k then tsk else tsk\<lparr>ct_error := ERR_BUSY\<rparr>)"
  define frame where "frame = (if c = k then None else Some (ks_ctx s k))"
  define d0 where "d0 = (ks_cpus s k)\<lparr>cd_task := tsk'\<rparr>"
  define s2 where "s2 = s\<lparr>hw_busy := (hw_busy s)(Lock_cpu k := 1),
      hw_if := (if c = k then hw_if s else (hw_if s)(k := False)), ks_cpus := (ks_cpus s)(k := d0)\<rparr>"
  have st2: "kstruct (m_cpus E) s2 v"
    unfolding s2_def using struct_cpu_fields [OF st, of d0 k] by (simp add: d0_def)
  have s2f: "ks_thr s2 = ks_thr s" "ks_fs_base s2 = ks_fs_base s" "ks_cpus s2 k = d0" "ks_eoi s2 = ks_eoi s"
    "ks_ctx s2 = ks_ctx s" "(ks_cpus s2)(k := x) = (ks_cpus s)(k := x)" "ks_all s2 = ks_all s" "ks_inactive s2 = ks_inactive s" for x
    by (simp_all add: s2_def)
  have cur2: "is_current v (ks_cpus s2 k) k p t = cur" by (simp add: s2f cur_def is_current_def d0_def)
  have ok2: "cpu_ok (ks_cpus s2 k) (v_queue v k) (ks_fs_base s2 k)" using ok by (simp add: s2f d0_def cpu_ok_def)
  have t2: "ct_thread (cd_task (ks_cpus s2 k)) = t" using task by (simp add: s2f d0_def tsk'_def)
  have p2: "unat (td_real_priority (ks_thr s2 t)) = p" using p by (simp add: s2f)
  have run2: "td_state (ks_thr s2 t) = THREAD_STATE_RUNNING" "unat (td_cpu (ks_thr s2 t)) = k" using run by (simp_all add: s2f)
  have k256: "k < 256" using k n by simp
  obtain h' d' where a: "do_pause_task E k frame s2 = Ret (if cur then map_option (store_halt E) frame else frame,
       s2\<lparr>ks_thr := h', ks_cpus := (ks_cpus s)(k := d'),
         ks_fs_base := (if cur then (ks_fs_base s)(k := NULL) else ks_fs_base s)\<rparr>)"
    "struct (m_cpus E) h' ((ks_cpus s)(k := d')) (ks_all s) (ks_inactive s) (v_queue_upd k p (q_remove t) v)"
    "loose (m_cpus E) (v_queue_upd k p (q_remove t) v) t"
    "\<And>a. core (h' a) = core (case frame of Some f \<Rightarrow>
        if cur \<and> a = t then (ks_thr s t)\<lparr>td_context := f\<rparr> else ks_thr s a | None \<Rightarrow> ks_thr s a)"
    "cpu_ok d' ((v_queue v k)(p := q_remove t (v_queue v k p))) (if cur then NULL else ks_fs_base s k)"
    "cd_task d' = (cd_task d0)\<lparr>
       ct_type := (if cur \<and> frame = None then CPU_TASK_SELF_HALT else ct_type (cd_task d0)),
       ct_error := ERR_NONE\<rparr>"
    by (rule do_pause_task_eq [OF st2 k k256 ok2 t2 t p2 p(2) run2, where frame = frame and E = E, unfolded cur2, unfolded s2f])
      (rule that)
  define e where "e = (ks_eoi s)(k := Suc (ks_eoi s k))"
  define s3 where "s3 = s2\<lparr>ks_thr := h', ks_cpus := (ks_cpus s)(k := d'),
         ks_fs_base := (if cur then (ks_fs_base s)(k := NULL) else ks_fs_base s), ks_eoi := e\<rparr>"
  have h: "handle_task_int E k frame s2 = Ret (if cur then map_option (store_halt E) frame else frame, s3)"
  proof -
    have "ct_type (cd_task (ks_cpus s2 k)) = CPU_TASK_PAUSE" using task by (simp add: s2f d0_def tsk'_def)
    then show ?thesis using a(1) by (simp add: handle_task_int_def set_eoi_def e_def s3_def s2f)
  qed
  have tt: "cd_task d' = tsk\<lparr>ct_type := (if cur \<and> c = k then CPU_TASK_SELF_HALT else CPU_TASK_PAUSE), ct_error := ERR_NONE\<rparr>"
    using a(6) task by (auto simp: d0_def tsk'_def frame_def)
  then have ne: "ct_error (cd_task d') \<noteq> ERR_BUSY" by simp
  have acq: "snd (acquire_spinlock c (Lock_cpu k) 0 s) = s\<lparr>hw_busy := (hw_busy s)(Lock_cpu k := 1)\<rparr>"
    using hw(2) by (simp add: acquire_spinlock_free [OF hw(1)] hw_put_def)
  have busy: "(hw_busy s)(Lock_cpu k := 0) = hw_busy s" using hw(1) by auto
  have "run_cpu_task E c (int k) tsk s = Ret (cd_task d', pause_result E c k cur h' d' e s)"
  proof (cases "c = k")
    case True
    have s2': "on_task k (\<lambda>_. tsk) (s\<lparr>hw_busy := (hw_busy s)(Lock_cpu k := 1)\<rparr>) = s2"
      using True by (simp add: s2_def d0_def tsk'_def on_task_def on_cpu_def)
    have d3: "ks_cpus s3 k = d'" by (simp add: s3_def)
    have rel: "(if ct_type (cd_task d') \<noteq> CPU_TASK_SELF_HALT then release_spinlock c (Lock_cpu k) s3 else s3) =
        pause_result E c k cur h' d' e s"
      using True tt hw(3) busy
      by (intro kstate.equality) (auto simp: release_spinlock_eq hw_put_def pause_result_def s3_def s2_def)
    have hn: "handle_task_int E k None s2 = Ret (if cur then map_option (store_halt E) frame else frame, s3)"
      using h True by (simp add: frame_def)
    have kk: "(int k < 0 \<or> int CONFIG_MAX_CPUS \<le> int k) = False" using k n by simp
    show ?thesis
      unfolding run_cpu_task_def Let_def nat_int acq s2' kk
      by (simp only: if_False if_True hn True obind_simps prod.case simp_thms) (simp add: d3 ne rel [unfolded True])
  next
    case False
    have kk: "(int k < 0 \<or> int CONFIG_MAX_CPUS \<le> int k) = False" using k n by simp
    note i = hw(4) [OF False [symmetric]]
    define s1 where "s1 = on_task k (\<lambda>t. t\<lparr>ct_error := ERR_BUSY\<rparr>) (on_task k (\<lambda>_. tsk)
        (s\<lparr>hw_busy := (hw_busy s)(Lock_cpu k := 1)\<rparr>))"
    have s1: "cli k s1 = s2" "ks_ctx s1 k = ks_ctx s k" "hw_if s1 k"
      using False i by (simp_all add: s1_def s2_def d0_def tsk'_def on_task_def on_cpu_def cli_def)
    define fr where "fr = (if cur then store_halt E (ks_ctx s k) else ks_ctx s k)"
    define s4 where "s4 = s3\<lparr>ks_ctx := (ks_ctx s)(k := fr), hw_if := (hw_if s)(k := True)\<rparr>"
    have fr: "(if cur then map_option (store_halt E) frame else frame) = Some fr"
      using False by (simp add: fr_def frame_def)
    have f9: "bit (fr_rflags fr) 9" using i by (simp add: fr_def store_halt_def)
    have "handle_task_int E k (Some (ks_ctx s1 k)) (cli k s1) = Ret (Some fr, s3)"
      using h False unfolding s1 by (simp add: frame_def fr_def)
    then have isr: "run_isr k (handle_task_int E k) s1 = Ret s4"
      using f9 False unfolding run_isr_def by (simp add: s4_def s3_def s2_def)
    have d4: "ks_cpus s4 k = d'" by (simp add: s4_def s3_def)
    have "ct_type (cd_task d') \<noteq> CPU_TASK_SELF_HALT" using tt False by simp
    moreover have "release_spinlock c (Lock_cpu k) s4 = pause_result E c k cur h' d' e s"
      using False hw(3) busy i
      by (intro kstate.equality)
        (auto simp: release_spinlock_eq hw_put_def pause_result_def s4_def s3_def s2_def fr_def fun_upd_idem)
    moreover have "k < m_cpus E \<and> hw_if s1 k" using k s1 by simp
    ultimately show ?thesis
      using False ne unfolding run_cpu_task_def Let_def nat_int acq kk s1_def [symmetric]
      by (simp add: isr d4)
  qed
  then show ?thesis
    by (rule that [OF _ a(2,3) _ a(5) tt]) (use a(4) in \<open>auto simp: frame_def\<close>)
qed

section \<open>Taking a running thread off its CPU\<close>

definition v_pause :: "nat \<Rightarrow> nat \<Rightarrow> ptr \<Rightarrow> view \<Rightarrow> view" where
  "v_pause c p t v = (v_queue_upd c p (q_remove t) v)\<lparr>v_inactive := t # v_inactive v\<rparr>"

definition idle_td :: "bool \<Rightarrow> u64 \<Rightarrow> thread_data \<Rightarrow> thread_data" where
  "idle_td stop out td =
     (if stop then td\<lparr>td_state := THREAD_STATE_STOPPED, td_output := out\<rparr>
      else td\<lparr>td_state := THREAD_STATE_PAUSED\<rparr>)"

lemma core_idle_td: "core (idle_td stop out td) = idle_td stop out (core td)"
  by (simp add: core_def idle_td_def)

lemma core_context: "core (td\<lparr>td_context := f\<rparr>) = (core td)\<lparr>td_context := f\<rparr>"
  by (simp add: core_def)

text \<open>The heap and the inactive list after lines 221 to 229, from the state after the request.\<close>

definition deactivated :: "bool \<Rightarrow> u64 \<Rightarrow> ptr \<Rightarrow> 'z kstate_scheme \<Rightarrow> 'z kstate_scheme" where
  "deactivated stop out t s =
     (let s2 = on_thread t (\<lambda>td. td\<lparr>td_prev := NULL, td_state :=
                   (if stop then THREAD_STATE_STOPPED else THREAD_STATE_PAUSED)\<rparr>) s;
          s3 = push_inactive t s2 in
      if stop then on_thread t (\<lambda>td. td\<lparr>td_output := out\<rparr>) s3 else s3)"

lemma deactivated_simps [simp]:
  "ks_cpus (deactivated st out t s) = ks_cpus s" "ks_all (deactivated st out t s) = ks_all s"
  "ks_stamp (deactivated st out t s) = ks_stamp s" "ks_mem (deactivated st out t s) = ks_mem s"
  "ks_fs_base (deactivated st out t s) = ks_fs_base s" "ks_ctx (deactivated st out t s) = ks_ctx s"
  "hw_busy (deactivated st out t s) = hw_busy s" "hw_outer (deactivated st out t s) = hw_outer s"
  "hw_if (deactivated st out t s) = hw_if s"
  by (simp_all add: deactivated_def Let_def)

lemma core_deactivated:
  "core (ks_thr (deactivated stop out t s) a) = core (if a = t then idle_td stop out (ks_thr s t) else ks_thr s a)"
proof -
  have o: "core (x\<lparr>td_output := out\<rparr>) = (core x)\<lparr>td_output := out\<rparr>" for x by (simp add: core_def)
  have s: "core (x\<lparr>td_prev := NULL\<rparr>) = core x" for x by (simp add: core_def)
  have s': "core (x\<lparr>td_state := y\<rparr>) = (core x)\<lparr>td_state := y\<rparr>" for x y by (simp add: core_def)
  have p: "core (ks_thr (push_inactive t (on_thread t f s)) b) = core (if b = t then f (ks_thr s t) else ks_thr s b)" for f b
    by (simp add: upd_thread_apply)
  show ?thesis
    by (cases stop) (simp_all add: deactivated_def Let_def upd_thread_apply p o s s' core_idle_td idle_td_def)
qed

lemma struct_deactivated:
  assumes st: "kstruct n s v" and t: "t \<in> set (v_all v)" "loose n v t"
  shows "kstruct n (deactivated stop out t s) (v\<lparr>v_inactive := t # v_inactive v\<rparr>)"
proof -
  define f :: "thread_data \<Rightarrow> thread_data" where "f = (\<lambda>td. td\<lparr>td_prev := NULL, td_state :=
                   (if stop then THREAD_STATE_STOPPED else THREAD_STATE_PAUSED)\<rparr>)"
  have "same_outside {t} (ks_thr s) (upd_thread t f (ks_thr s))"
    by (auto simp: same_outside_def link_defs upd_thread_apply f_def fun_eq_iff)
  then have "kstruct n (on_thread t f s) v" using struct_loose_heap [OF st t(2)] by simp
  then have "kstruct n (push_inactive t (on_thread t f s)) (v\<lparr>v_inactive := t # v_inactive v\<rparr>)"
    using t by (intro struct_push_inactive) (simp_all add: link_defs upd_thread_apply f_def)
  moreover have "keeps_links (\<lambda>td. td\<lparr>td_output := out\<rparr>)" by (simp add: keeps_links_def)
  ultimately show ?thesis
    using struct_upd_thread by (simp add: deactivated_def Let_def f_def [symmetric])
qed

lemma deactivate_running_eq:
  fixes s :: "'z kstate_scheme"
  assumes st: "kstruct (m_cpus E) s v" and n: "m_cpus E \<le> CONFIG_MAX_CPUS" and k: "k < m_cpus E"
    and ok: "cpu_ok (ks_cpus s k) (v_queue v k) (ks_fs_base s k)"
    and t: "t \<in> qset v k p" "t \<in> set (v_all v)"
    and p: "unat (td_real_priority (ks_thr s t)) = p" "p < CONFIG_SCHEDULER_PRIORITIES"
    and run: "td_state (ks_thr s t) = THREAD_STATE_RUNNING" "unat (td_cpu (ks_thr s t)) = k"
    and hw: "hw_busy s (Lock_cpu k) = 0" "hw_outer s c \<noteq> Lock_null" "hw_outer s c \<noteq> Lock_cpu k"
      "k \<noteq> c \<Longrightarrow> hw_if s k \<and> bit (fr_rflags (ks_ctx s k)) 9"
  defines "cur \<equiv> is_current v (ks_cpus s k) k p t"
  obtains h' d' e s4 where
    "deactivate_running E c stop t out lk s =
       (if cur \<and> c = k then obind (run_isr c (handle_task_int E c) s4) (\<lambda>s5. Ret (ERR_NONE, True, s5))
        else Ret (ERR_NONE, False, s4))"
    "s4 = deactivated stop out t (pause_result E c k cur h' d' e s)"
    "kstruct (m_cpus E) s4 (v_pause k p t v)"
    "\<And>a. core (ks_thr s4 a) = core (if a = t then idle_td stop out
       (if cur \<and> c \<noteq> k then (ks_thr s t)\<lparr>td_context := ks_ctx s k\<rparr> else ks_thr s t) else ks_thr s a)"
    "\<And>j. cpu_ok (ks_cpus s j) (v_queue v j) (ks_fs_base s j) \<Longrightarrow>
       cpu_ok (ks_cpus s4 j) (v_queue (v_pause k p t v) j) (ks_fs_base s4 j)"
    "cd_task d' = \<lparr>ct_type = (if cur \<and> c = k then CPU_TASK_SELF_HALT else CPU_TASK_PAUSE),
       ct_error = ERR_NONE, ct_thread = t, ct_lock = lk\<rparr>"
proof -
  define tsk where "tsk = \<lparr>ct_type = CPU_TASK_PAUSE, ct_error = ERR_NONE, ct_thread = t, ct_lock = lk\<rparr>"
  have tk: "ct_type tsk = CPU_TASK_PAUSE" "ct_thread tsk = t" by (simp_all add: tsk_def)
  obtain h' d' e where a:
    "run_cpu_task E c (int k) tsk s = Ret (cd_task d', pause_result E c k cur h' d' e s)"
    "struct (m_cpus E) h' ((ks_cpus s)(k := d')) (ks_all s) (ks_inactive s) (v_queue_upd k p (q_remove t) v)"
    "loose (m_cpus E) (v_queue_upd k p (q_remove t) v) t"
    "\<And>a. core (h' a) = core (if cur \<and> c \<noteq> k \<and> a = t then (ks_thr s t)\<lparr>td_context := ks_ctx s k\<rparr> else ks_thr s a)"
    "cpu_ok d' ((v_queue v k)(p := q_remove t (v_queue v k p))) (if cur then NULL else ks_fs_base s k)"
    "cd_task d' = tsk\<lparr>ct_type := (if cur \<and> c = k then CPU_TASK_SELF_HALT else CPU_TASK_PAUSE), ct_error := ERR_NONE\<rparr>"
    by (rule run_cpu_task_pause [OF st n k ok t p run hw tk, folded cur_def]) (assumption, rule that)
  define s2 where "s2 = pause_result E c k cur h' d' e s"
  define s4 where "s4 = deactivated stop out t s2"
  have uk: "uint (td_cpu (ks_thr s t)) = int k" using run(2) by (simp add: uint_nat)
  have s2f: "ks_thr s2 = h'" "ks_cpus s2 = (ks_cpus s)(k := d')" "ks_all s2 = ks_all s" "ks_inactive s2 = ks_inactive s"
    "ks_fs_base s2 = (if cur then (ks_fs_base s)(k := NULL) else ks_fs_base s)"
    by (simp_all add: s2_def pause_result_def)
  have e0: "ct_error (cd_task d') = ERR_NONE" "ct_type (cd_task d') = CPU_TASK_SELF_HALT \<longleftrightarrow> cur \<and> c = k"
    using a(6) by simp_all
  show ?thesis
  proof (rule that [of s4 h' d' e])
    show "deactivate_running E c stop t out lk s =
       (if cur \<and> c = k then obind (run_isr c (handle_task_int E c) s4) (\<lambda>s5. Ret (ERR_NONE, True, s5))
        else Ret (ERR_NONE, False, s4))"
      unfolding deactivate_running_def Let_def uk tsk_def [symmetric] a(1) obind_simps prod.case e0(2)
        s2_def [symmetric]
      by (simp add: e0(1) s4_def deactivated_def Let_def)
    show "s4 = deactivated stop out t (pause_result E c k cur h' d' e s)" by (simp add: s4_def s2_def)
    have "kstruct (m_cpus E) s2 (v_queue_upd k p (q_remove t) v)" using a(2) by (simp add: s2f)
    from struct_deactivated [OF this _ a(3)] t(2) show "kstruct (m_cpus E) s4 (v_pause k p t v)"
      by (simp add: s4_def v_pause_def)
    show "core (ks_thr s4 x) = core (if x = t then idle_td stop out
       (if cur \<and> c \<noteq> k then (ks_thr s t)\<lparr>td_context := ks_ctx s k\<rparr> else ks_thr s t) else ks_thr s x)" for x
      using a(4) [of x] a(4) [of t]
      by (cases "x = t"; cases "cur \<and> c \<noteq> k") (auto simp: s4_def core_deactivated s2f core_idle_td core_context)
    show "cpu_ok (ks_cpus s4 j) (v_queue (v_pause k p t v) j) (ks_fs_base s4 j)"
      if "cpu_ok (ks_cpus s j) (v_queue v j) (ks_fs_base s j)" for j
      using a(5) that by (cases "j = k") (auto simp: s4_def s2f v_pause_def v_queue_upd_def split: if_splits)
  qed (use a(6) in \<open>simp add: tsk_def\<close>)
qed

section \<open>The whole operation\<close>

lemma idle_td_fields [simp]:
  "td_magic (idle_td b x td) = td_magic td" "td_stamp (idle_td b x td) = td_stamp td"
  "td_priority (idle_td b x td) = td_priority td" "td_affinity (idle_td b x td) = td_affinity td"
  "idle_state (idle_td b x td)" "td_state (idle_td b x td) \<noteq> THREAD_STATE_RUNNING"
  "td_state (idle_td b x td) \<noteq> THREAD_STATE_UNKNOWN"
  by (simp_all add: idle_td_def idle_state_def)

lemma heap_ok_pause:
  assumes ok: "heap_ok E h v" and t: "t \<in> set (v_all v)" "t \<in> qset v k p"
    and q: "k < m_cpus E" "p < CONFIG_SCHEDULER_PRIORITIES" "q_ok (v_queue v k p)"
    and run: "runs_on h k p t"
    and c: "\<And>a. a \<noteq> t \<Longrightarrow> core (h' a) = core (h a)"
      "core (h' t) = core (idle_td b x td)" "td_magic td = td_magic (h t)" "td_stamp td = td_stamp (h t)"
      "td_priority td = td_priority (h t)" "td_affinity td = td_affinity (h t)"
  shows "heap_ok E h' (v_pause k p t v)"
proof -
  have tok: "thread_ok E (h t)" "td_magic (h t) = THREAD_MAGIC"
    using heap_okD(2) [OF ok t(1)] ok t(1) by (auto simp: heap_ok_def)
  note ct = core_fields [OF c(2)]
  have qs: "qset (v_pause k p t v) j r = (if j = k \<and> r = p then qset v k p - {t} else qset v j r)" for j r
    using q(3) by (auto simp: v_pause_def qset_def qlist_remove q_ok_def)
  have tq: "t \<notin> qset v j r" if "j < m_cpus E" "r < CONFIG_SCHEDULER_PRIORITIES" "\<not> (j = k \<and> r = p)" for j r
    using heap_okD(4) [OF ok t(1) that(1,2)] run that(3) by (auto simp: runs_on_def)
  have st: "td_state (h' t) \<noteq> THREAD_STATE_RUNNING" "td_state (h' t) \<noteq> THREAD_STATE_UNKNOWN" "idle_state (h' t)"
    using ct by (simp_all add: idle_td_def idle_state_def)
  show ?thesis
  proof (rule heap_ok_move [OF ok t(1) c(1)])
    show "v_all (v_pause k p t v) = v_all v" by (simp add: v_pause_def)
    show "a \<noteq> t \<Longrightarrow> a \<in> set (v_inactive (v_pause k p t v)) \<longleftrightarrow> a \<in> set (v_inactive v)" for a
      by (simp add: v_pause_def)
    show "a \<noteq> t \<Longrightarrow> a \<in> qset (v_pause k p t v) j r \<longleftrightarrow> a \<in> qset v j r" for a j r by (simp add: qs)
    show "td_magic (h' t) = THREAD_MAGIC" using ct tok c by simp
    show "thread_ok E (h' t)" using tok ct c st by (simp add: thread_ok_def)
    show "t \<in> set (v_inactive (v_pause k p t v)) \<longleftrightarrow> idle_state (h' t)" using st by (simp add: v_pause_def)
    show "t \<in> qset (v_pause k p t v) j r \<longleftrightarrow> runs_on h' j r t"
      if "j < m_cpus E" "r < CONFIG_SCHEDULER_PRIORITIES" for j r
      using tq [OF that] st by (simp add: qs runs_on_def)
  qed
qed

text \<open>What the lock leaves a running thread's removal to start from.\<close>

lemma running_thread:
  assumes rep: "rep E s v" and t: "find_thread i s = Inr t" "td_state (ks_thr s t) = THREAD_STATE_RUNNING"
  defines "k \<equiv> unat (td_cpu (ks_thr s t))" and "p \<equiv> unat (td_priority (ks_thr s t))"
  shows "k < m_cpus E" "p < CONFIG_SCHEDULER_PRIORITIES" "t \<in> set (v_all v)" "t \<in> qset v k p"
    "unat (td_real_priority (ks_thr s t)) = p" "runs_on (ks_thr s) k p t"
proof -
  note r = repD [OF rep]
  show ta: "t \<in> set (v_all v)" by (rule find_thread_rep(1) [OF rep t(1)])
  have tok: "thread_ok E (ks_thr s t)" using heap_okD(2) [OF r(3) ta] .
  show kp: "k < m_cpus E" "p < CONFIG_SCHEDULER_PRIORITIES" "unat (td_real_priority (ks_thr s t)) = p"
    using tok t(2) by (simp_all add: thread_ok_def k_def p_def)
  show ro: "runs_on (ks_thr s) k p t" using t(2) kp by (simp add: runs_on_def k_def)
  show "t \<in> qset v k p" using heap_okD(4) [OF r(3) ta kp(1,2)] ro by simp
qed

lemma deactivate_loop_running:
  assumes "td_state (ks_thr s t) = THREAD_STATE_RUNNING"
    and "deactivate_running E c stop t out lk s = Ret (ERR_NONE, b, s')"
  shows "deactivate_loop TASK_RETRY_COUNT E c stop t out lk (ERR_NONE, False, s) = Ret (ERR_NONE, b, s')"
  using assms by (simp add: numeral_3_eq_3)

definition is_current_on :: "view \<Rightarrow> 'z kstate_scheme \<Rightarrow> ptr \<Rightarrow> bool" where
  "is_current_on v s t = (let k = unat (td_cpu (ks_thr s t)); p = unat (td_priority (ks_thr s t)) in
     is_current v (ks_cpus s k) k p t)"

lemma deactivate_start:
  assumes rep: "rep E s v" and q: "quiet E c s"
    and t: "find_thread i s = Inr t" "td_state (ks_thr s t) = THREAD_STATE_RUNNING"
  defines "k \<equiv> unat (td_cpu (ks_thr s t))" and "p \<equiv> unat (td_priority (ks_thr s t))"
    and "cur \<equiv> is_current_on v s t"
    and "s1 \<equiv> snd (acquire_spinlock c Lock_inactive 0 s)"
  obtains h' d' e s4 where
    "deactivate_running E c stop t out lk s1 =
       (if cur \<and> c = k then obind (run_isr c (handle_task_int E c) s4) (\<lambda>s5. Ret (ERR_NONE, True, s5))
        else Ret (ERR_NONE, False, s4))"
    "s4 = deactivated stop out t (pause_result E c k cur h' d' e s1)"
    "rep E s4 (v_pause k p t v)"
    "core (ks_thr s4 t) = core (idle_td stop out
       (if cur \<and> c \<noteq> k then (ks_thr s t)\<lparr>td_context := ks_ctx s k\<rparr> else ks_thr s t))"
    "\<And>a. a \<noteq> t \<Longrightarrow> core (ks_thr s4 a) = core (ks_thr s a)"
    "cd_task d' = \<lparr>ct_type = (if cur \<and> c = k then CPU_TASK_SELF_HALT else CPU_TASK_PAUSE),
       ct_error = ERR_NONE, ct_thread = t, ct_lock = lk\<rparr>"
proof -
  note r = repD [OF rep] and rt = running_thread [OF rep t, folded k_def p_def]
  have l: "Lock_inactive \<in> kernel_locks E" by (simp add: kernel_locks_def)
  have s1: "s1 = hw_put ((hw_busy s)(Lock_inactive := 1))
       ((hw_outer s)(c := (if hw_outer s c = Lock_null then Lock_inactive else hw_outer s c)))
       ((hw_if s)(c := (hw_outer s c \<noteq> Lock_null \<and> hw_if s c))) s"
    by (rule one_lock(2) [OF q l _ refl refl refl]) (simp add: s1_def)
  have s1f: "ks_thr s1 = ks_thr s" "ks_cpus s1 = ks_cpus s" "ks_ctx s1 = ks_ctx s" "ks_stamp s1 = ks_stamp s"
    "ks_fs_base s1 = ks_fs_base s" "ks_mem s1 = ks_mem s"
    by (simp_all add: s1)
  have cur: "is_current v (ks_cpus s1 k) k p t = cur"
    by (simp add: cur_def is_current_on_def k_def p_def Let_def s1f)
  have k1: "kstruct (m_cpus E) s1 v" using r(2) by (simp add: s1)
  have ok1: "cpu_ok (ks_cpus s1 k) (v_queue v k) (ks_fs_base s1 k)" using r(6) [OF rt(1)] by (simp add: s1f)
  have rp1: "unat (td_real_priority (ks_thr s1 t)) = p" using rt(5) by (simp add: s1f)
  have run1: "td_state (ks_thr s1 t) = THREAD_STATE_RUNNING" "unat (td_cpu (ks_thr s1 t)) = k"
    using t(2) by (simp_all add: s1f k_def)
  have hw: "hw_busy s1 (Lock_cpu k) = 0" "hw_outer s1 c \<noteq> Lock_null" "hw_outer s1 c \<noteq> Lock_cpu k"
      "k \<noteq> c \<Longrightarrow> hw_if s1 k \<and> bit (fr_rflags (ks_ctx s1 k)) 9"
    using quietD(3,6,8) [OF q rt(1)] by (auto simp: s1)
  obtain h' d' e s4 where a:
    "deactivate_running E c stop t out lk s1 =
       (if cur \<and> c = k then obind (run_isr c (handle_task_int E c) s4) (\<lambda>s5. Ret (ERR_NONE, True, s5))
        else Ret (ERR_NONE, False, s4))"
    "s4 = deactivated stop out t (pause_result E c k cur h' d' e s1)"
    "kstruct (m_cpus E) s4 (v_pause k p t v)"
    "\<And>a. core (ks_thr s4 a) = core (if a = t then idle_td stop out
       (if cur \<and> c \<noteq> k then (ks_thr s1 t)\<lparr>td_context := ks_ctx s1 k\<rparr> else ks_thr s1 t) else ks_thr s1 a)"
    "\<And>j. cpu_ok (ks_cpus s1 j) (v_queue v j) (ks_fs_base s1 j) \<Longrightarrow>
       cpu_ok (ks_cpus s4 j) (v_queue (v_pause k p t v) j) (ks_fs_base s4 j)"
    "cd_task d' = \<lparr>ct_type = (if cur \<and> c = k then CPU_TASK_SELF_HALT else CPU_TASK_PAUSE),
       ct_error = ERR_NONE, ct_thread = t, ct_lock = lk\<rparr>"
    by (rule deactivate_running_eq [OF k1 r(1) rt(1) ok1 rt(4,3) rp1 rt(2) run1 hw, unfolded cur])
      (assumption, rule that)
  have c4: "core (ks_thr s4 t) = core (idle_td stop out
       (if cur \<and> c \<noteq> k then (ks_thr s t)\<lparr>td_context := ks_ctx s k\<rparr> else ks_thr s t))"
    "\<And>a. a \<noteq> t \<Longrightarrow> core (ks_thr s4 a) = core (ks_thr s a)"
    using a(4) by (auto simp: s1f)
  have "ks_stamp s4 = ks_stamp s" by (simp add: a(2) pause_result_def s1f)
  moreover have "heap_ok E (ks_thr s4) (v_pause k p t v)"
    by (rule heap_ok_pause [OF r(3) rt(3,4,1,2) struct_queue(2) [OF r(2) rt(1,2)] rt(6) c4(2,1)]) auto
  ultimately have "rep E s4 (v_pause k p t v)"
    using r(1,4,6) a(3,5) by (simp add: rep_def s1f)
  with a(1,2,6) c4 show ?thesis by (intro that)
qed

lemma deactivate_thread_rep:
  assumes rep: "rep E s v" and q: "quiet E c s"
    and t: "find_thread i s = Inr t" "td_state (ks_thr s t) = THREAD_STATE_RUNNING"
  defines "k \<equiv> unat (td_cpu (ks_thr s t))" and "p \<equiv> unat (td_priority (ks_thr s t))"
    and "cur \<equiv> is_current_on v s t"
  assumes other: "\<not> (cur \<and> c = k)"
  obtains s' where
    "deactivate_thread E c stop i out lk s = Ret (ERR_NONE, s')"
    "rep E s' (v_pause k p t v)" "same_hw s s'"
    "core (ks_thr s' t) = core (idle_td stop out
       (if cur then (ks_thr s t)\<lparr>td_context := ks_ctx s k\<rparr> else ks_thr s t))"
    "\<And>a. a \<noteq> t \<Longrightarrow> core (ks_thr s' a) = core (ks_thr s a)" "ks_mem s' = ks_mem s"
    "ks_ctx s' = (if cur then (ks_ctx s)(k := store_halt E (ks_ctx s k)) else ks_ctx s)"
proof -
  define s1 where "s1 = snd (acquire_spinlock c Lock_inactive 0 s)"
  have l: "Lock_inactive \<in> kernel_locks E" by (simp add: kernel_locks_def)
  note s1 = one_lock(2) [OF q l s1_def refl refl refl]
  obtain h' d' e s4 where a:
    "deactivate_running E c stop t out lk s1 =
       (if cur \<and> c = k then obind (run_isr c (handle_task_int E c) s4) (\<lambda>s5. Ret (ERR_NONE, True, s5))
        else Ret (ERR_NONE, False, s4))"
    "s4 = deactivated stop out t (pause_result E c k cur h' d' e s1)"
    "rep E s4 (v_pause k p t v)"
    "core (ks_thr s4 t) = core (idle_td stop out
       (if cur \<and> c \<noteq> k then (ks_thr s t)\<lparr>td_context := ks_ctx s k\<rparr> else ks_thr s t))"
    "\<And>a. a \<noteq> t \<Longrightarrow> core (ks_thr s4 a) = core (ks_thr s a)"
    by (rule deactivate_start [OF rep q t, where stop = stop and out = out and lk = lk,
          folded k_def p_def cur_def s1_def]) (rule that)
  have s4f: "hw_busy s4 = hw_busy s1" "hw_outer s4 = hw_outer s1" "hw_if s4 = hw_if s1"
    "ks_mem s4 = ks_mem s" "ks_ctx s4 = (if cur then (ks_ctx s)(k := store_halt E (ks_ctx s k)) else ks_ctx s)"
    using other by (auto simp: a(2) pause_result_def s1)
  have run1: "td_state (ks_thr s1 t) = THREAD_STATE_RUNNING" "find_thread i s1 = Inr t"
    using t by (simp_all add: s1)
  have res1: "deactivate_running E c stop t out lk s1 = Ret (ERR_NONE, False, s4)"
    using a(1) other by auto
  define s5 where "s5 = release_spinlock c Lock_inactive s4"
  have s5: "s5 = hw_put (hw_busy s) (hw_outer s) (hw_if s) s4"
    unfolding s5_def by (rule one_lock(1) [OF q l s1_def s4f(1-3)])
  have "deactivate_thread E c stop i out lk s = Ret (ERR_NONE, s5)"
    unfolding deactivate_thread_def Let_def s1_def [symmetric] run1(2) sum.case
      deactivate_loop_running [OF run1(1) res1]
    by (simp add: s5_def)
  then show ?thesis
    using a(3-5) s4f other by (intro that [of s5]) (auto simp: s5 same_hw_def)
qed

section \<open>A thread that pauses itself\<close>

lemma rep_context:
  assumes "rep E s v"
  shows "rep E (on_thread t (\<lambda>td. td\<lparr>td_context := f\<rparr>) s) v"
proof -
  have "kstruct (m_cpus E) (on_thread t (\<lambda>td. td\<lparr>td_context := f\<rparr>) s) v"
    using struct_upd_thread [OF repD(2) [OF assms]] by (simp add: keeps_links_def)
  moreover have "heap_ok E (ks_thr (on_thread t (\<lambda>td. td\<lparr>td_context := f\<rparr>) s)) v"
    using repD(3) [OF assms] by (simp add: heap_ok_def thread_ok_def runs_on_def idle_state_def upd_thread_apply)
  ultimately show ?thesis using assms by (simp add: rep_def)
qed

lemma rep_only:
  assumes "rep E s v" "ks_thr s' = ks_thr s" "ks_cpus s' = ks_cpus s" "ks_all s' = ks_all s"
    "ks_inactive s' = ks_inactive s" "ks_stamp s' = ks_stamp s" "ks_fs_base s' = ks_fs_base s"
  shows "rep E s' v"
  using assms by (simp add: rep_def)

definition halt_hw :: "nat \<Rightarrow> lock_ref \<Rightarrow> 'z hw_scheme \<Rightarrow> 'y hw_scheme \<Rightarrow> bool" where
  "halt_hw c lk s s' \<longleftrightarrow>
     hw_busy s' = (if lk = Lock_null then hw_busy s else (hw_busy s)(lk := 0)) \<and>
     hw_outer s' = (hw_outer s)(c := Lock_null) \<and> hw_if s' = (hw_if s)(c := True)"

lemma deactivate_self_rep:
  assumes rep: "rep E s v" and q: "quiet E c s"
    and t: "find_thread i s = Inr t" "td_state (ks_thr s t) = THREAD_STATE_RUNNING"
    and self: "unat (td_cpu (ks_thr s t)) = c" "is_current_on v s t"
  defines "p \<equiv> unat (td_priority (ks_thr s t))"
  obtains s' where
    "deactivate_thread E c stop i out lk s = Ret (ERR_NONE, s')"
    "rep E s' (v_pause c p t v)" "halt_hw c lk s s'"
    "core (ks_thr s' t) = core (idle_td stop out
       ((ks_thr s t)\<lparr>td_context := store_int_enabled (ks_ctx s c)\<rparr>))"
    "\<And>a. a \<noteq> t \<Longrightarrow> core (ks_thr s' a) = core (ks_thr s a)" "ks_mem s' = ks_mem s"
    "ks_ctx s' = (ks_ctx s)(c := store_halt E (store_int_enabled (ks_ctx s c)))"
proof -
  define s1 where "s1 = snd (acquire_spinlock c Lock_inactive 0 s)"
  have l: "Lock_inactive \<in> kernel_locks E" by (simp add: kernel_locks_def)
  note s1 = one_lock(2) [OF q l s1_def refl refl refl]
  have cn: "c < m_cpus E" using running_thread(1) [OF rep t] self by simp
  have sT: "is_current_on v s t = True" using self(2) by simp
  obtain h' d' e s4 where a:
    "deactivate_running E c stop t out lk s1 = obind (run_isr c (handle_task_int E c) s4) (\<lambda>s5. Ret (ERR_NONE, True, s5))"
    "s4 = deactivated stop out t (pause_result E c c True h' d' e s1)"
    "rep E s4 (v_pause c p t v)"
    "core (ks_thr s4 t) = core (idle_td stop out (ks_thr s t))"
    "\<And>a. a \<noteq> t \<Longrightarrow> core (ks_thr s4 a) = core (ks_thr s a)"
    "cd_task d' = \<lparr>ct_type = CPU_TASK_SELF_HALT, ct_error = ERR_NONE, ct_thread = t, ct_lock = lk\<rparr>"
    by (rule deactivate_start [OF rep q t, where stop = stop and out = out and lk = lk,
          folded p_def s1_def, unfolded self(1) sT simp_thms if_True if_False]) (rule that)
  define f1 where "f1 = store_int_enabled (ks_ctx s c)"
  define f2 where "f2 = store_halt E f1"
  define s5 where "s5 = (on_thread t (\<lambda>td. td\<lparr>td_context := f1\<rparr>) s4)
     \<lparr>hw_busy := (if lk = Lock_null then hw_busy s else (hw_busy s)(lk := 0)),
      hw_outer := (hw_outer s)(c := Lock_null), hw_if := (hw_if s)(c := True),
      ks_ctx := (ks_ctx s)(c := f2), ks_eoi := (ks_eoi s4)(c := Suc (ks_eoi s4 c))\<rparr>"
  have s4f: "ks_cpus s4 c = d'" "ks_ctx s4 = ks_ctx s" "ks_mem s4 = ks_mem s"
    "hw_busy s4 = (hw_busy s)(Lock_inactive := 1, Lock_cpu c := 1)"
    "hw_outer s4 = hw_outer s1" "hw_if s4 = hw_if s1"
    by (simp_all add: a(2) pause_result_def s1)
  have busy: "(hw_busy s)(Lock_inactive := 0, Lock_cpu c := 0) = hw_busy s"
    using quietD(2,3) [OF q] cn by auto
  have f9: "bit (fr_rflags f2) 9"
    by (simp add: f2_def f1_def store_halt_def store_int_enabled_def RFLAGS_IF_def bit_or_iff bit_exp_iff)
  have isr: "run_isr c (handle_task_int E c) s4 = Ret s5"
  proof -
    define r where "r = set_eoi c ((if lk \<noteq> Lock_null then release_spinlock_int lk else id)
      (release_spinlock_int Lock_inactive (release_spinlock_int (Lock_cpu c)
        (set_outer_spinlock c False (load_thread_context f1 t (cli c s4))))))"
    have ct: "ks_cpus (cli c s4) c = d'" "ks_ctx (cli c s4) = ks_ctx s4" by (simp_all add: cli_def s4f)
    have "handle_task_int E c (Some (ks_ctx s4 c)) (cli c s4) = Ret (Some f2, r)"
      by (simp add: handle_task_int_def do_self_halt_task_def Let_def ct a(6) s4f(2) f1_def [symmetric]
          f2_def [symmetric] r_def)
    then have "run_isr c (handle_task_int E c) s4 =
        Ret (r\<lparr>ks_ctx := (ks_ctx r)(c := f2), hw_if := (hw_if r)(c := True)\<rparr>)"
      using f9 by (simp add: run_isr_def)
    also have "r\<lparr>ks_ctx := (ks_ctx r)(c := f2), hw_if := (hw_if r)(c := True)\<rparr> = s5"
      using busy
      by (intro kstate.equality)
        (auto simp: r_def s5_def set_eoi_def release_spinlock_int_def set_outer_spinlock_def set_outer_def
          load_thread_context_def on_thread_def cli_def s4f s1 fun_upd_twist)
    finally show ?thesis .
  qed
  have run1: "td_state (ks_thr s1 t) = THREAD_STATE_RUNNING" "find_thread i s1 = Inr t"
    using t by (simp_all add: s1)
  have res1: "deactivate_running E c stop t out lk s1 = Ret (ERR_NONE, True, s5)"
    using a(1) isr by simp
  have res: "deactivate_thread E c stop i out lk s = Ret (ERR_NONE, s5)"
    unfolding deactivate_thread_def Let_def s1_def [symmetric] run1(2) sum.case
      deactivate_loop_running [OF run1(1) res1]
    by simp
  have "rep E s5 (v_pause c p t v)"
    by (rule rep_only [OF rep_context [OF a(3)]]) (simp_all add: s5_def)
  moreover have "core (ks_thr s5 t) = core (idle_td stop out ((ks_thr s t)\<lparr>td_context := f1\<rparr>))"
  proof -
    have i: "idle_td stop out (x\<lparr>td_context := f1\<rparr>) = (idle_td stop out x)\<lparr>td_context := f1\<rparr>" for x
      by (simp add: idle_td_def)
    show ?thesis using a(4) by (simp add: s5_def upd_thread_apply core_context i)
  qed
  ultimately show ?thesis
    using res a(5) s4f(3)
    by (intro that [of s5]) (simp_all add: s5_def halt_hw_def upd_thread_apply f1_def f2_def)
qed

section \<open>Threads that do not run\<close>

lemma deactivate_thread_error:
  assumes q: "quiet E c s"
    and err: "case find_thread i s of Inl e \<Rightarrow> err = e
       | Inr t \<Rightarrow> (td_state (ks_thr s t) = THREAD_STATE_STOPPED \<or>
           td_state (ks_thr s t) = THREAD_STATE_PAUSED \<and> \<not> stop) \<and> err = ERR_BAD_STATE"
  shows "deactivate_thread E c stop i out lk s = Ret (err, s)"
proof -
  have l: "Lock_inactive \<in> kernel_locks E" by (simp add: kernel_locks_def)
  define s1 where "s1 = snd (acquire_spinlock c Lock_inactive 0 s)"
  have s1: "find_thread i s1 = find_thread i s" "ks_thr s1 = ks_thr s"
    by (simp_all add: s1_def acquire_kstate find_thread_def)
  have rel: "release_spinlock c Lock_inactive s1 = s" using one_lock_id [OF q l] by (simp add: s1_def)
  show ?thesis
  proof (cases "find_thread i s")
    case (Inl e)
    with err show ?thesis unfolding deactivate_thread_def Let_def s1_def [symmetric] by (simp add: s1 rel)
  next
    case (Inr t)
    then have "deactivate_loop TASK_RETRY_COUNT E c stop t out lk (ERR_NONE, False, s1) = Ret (ERR_BAD_STATE, False, s1)"
      using err by (auto simp: numeral_3_eq_3 s1)
    with Inr err show ?thesis unfolding deactivate_thread_def Let_def s1_def [symmetric] by (simp add: s1 rel)
  qed
qed

lemma heap_ok_stop:
  assumes ok: "heap_ok E h v" and t: "t \<in> set (v_all v)" "td_state (h t) = THREAD_STATE_PAUSED"
  shows "heap_ok E (upd_thread t (idle_td True out) h) v"
proof (rule heap_ok_move [OF ok t(1)])
  have tok: "thread_ok E (h t)" "td_magic (h t) = THREAD_MAGIC"
    using heap_okD(2) [OF ok t(1)] ok t(1) by (auto simp: heap_ok_def)
  show "thread_ok E (upd_thread t (idle_td True out) h t)" "td_magic (upd_thread t (idle_td True out) h t) = THREAD_MAGIC"
    using tok by (simp_all add: upd_thread_apply thread_ok_def)
  show "t \<in> set (v_inactive v) \<longleftrightarrow> idle_state (upd_thread t (idle_td True out) h t)"
    using heap_okD(3) [OF ok t(1)] t(2) by (simp add: upd_thread_apply idle_state_def [of "h t"])
  show "t \<in> qset v c p \<longleftrightarrow> runs_on (upd_thread t (idle_td True out) h) c p t"
    if "c < m_cpus E" "p < CONFIG_SCHEDULER_PRIORITIES" for c p
    using heap_okD(4) [OF ok t(1) that] t(2) by (simp add: upd_thread_apply runs_on_def)
qed (auto simp: upd_thread_apply)

lemma stop_paused_rep:
  assumes rep: "rep E s v" and q: "quiet E c s"
    and t: "find_thread i s = Inr t" "td_state (ks_thr s t) = THREAD_STATE_PAUSED"
  shows "deactivate_thread E c True i out lk s = Ret (ERR_NONE, on_thread t (idle_td True out) s)"
    and "rep E (on_thread t (idle_td True out) s) v"
proof -
  note r = repD [OF rep]
  have l: "Lock_inactive \<in> kernel_locks E" by (simp add: kernel_locks_def)
  define s1 where "s1 = snd (acquire_spinlock c Lock_inactive 0 s)"
  note s1 = one_lock(2) [OF q l s1_def refl refl refl]
  have i: "(\<lambda>td. td\<lparr>td_state := THREAD_STATE_STOPPED, td_output := out\<rparr>) = idle_td True out"
    by (auto simp: idle_td_def)
  have loop: "deactivate_loop TASK_RETRY_COUNT E c True t out lk (ERR_NONE, False, s1) =
      Ret (ERR_NONE, False, on_thread t (idle_td True out) s1)"
    using t(2) by (simp add: numeral_3_eq_3 s1 i)
  have rel: "release_spinlock c Lock_inactive (on_thread t (idle_td True out) s1) = on_thread t (idle_td True out) s"
  proof -
    have "release_spinlock c Lock_inactive (on_thread t (idle_td True out) s1) =
        hw_put (hw_busy s) (hw_outer s) (hw_if s) (on_thread t (idle_td True out) s1)"
      by (rule one_lock(1) [OF q l s1_def]) simp_all
    then show ?thesis by (simp add: s1 on_thread_def hw_put_def)
  qed
  have "find_thread i s1 = Inr t" using t(1) by (simp add: s1)
  with loop rel show "deactivate_thread E c True i out lk s = Ret (ERR_NONE, on_thread t (idle_td True out) s)"
    unfolding deactivate_thread_def Let_def s1_def [symmetric] by simp
  have kl: "keeps_links (idle_td True out)" by (simp add: keeps_links_def idle_td_def)
  have "t \<in> set (v_all v)" by (rule find_thread_rep(1) [OF rep t(1)])
  then show "rep E (on_thread t (idle_td True out) s) v"
    using r(1,4,6) struct_upd_thread [OF r(2) kl] heap_ok_stop [OF r(3) _ t(2)] by (simp add: rep_def)
qed

end
