(* ===== verification/Sched_Timer.thy ===== *)
theory Sched_Timer
  imports Sched_Pause
begin

text \<open>
  The scheduling part of the timer interrupt: what each branch of the handler does to the
  invariant and to the order of the run queues.
\<close>

section \<open>The front of the current queue\<close>

definition cur_prio :: "cpu_data \<Rightarrow> nat" where
  "cur_prio d = nat (cd_current_priority d)"

definition front :: "view \<Rightarrow> cpu_data \<Rightarrow> nat \<Rightarrow> ptr" where
  "front v d c = hd (qlist (v_queue v c (cur_prio d)))"

lemma busy_cpu:
  assumes rep: "rep E s v" and c: "c < m_cpus E" and l: "load (v_queue v c) \<noteq> 0"
  defines "d \<equiv> ks_cpus s c"
  defines "p \<equiv> cur_prio d" and "t \<equiv> front v d c"
  shows "cd_current_priority d = int p" "p < CONFIG_SCHEDULER_PRIORITIES" "qlist (v_queue v c p) \<noteq> []"
    "cp_active_tail (cd_priorities d p) = t" "t \<in> qset v c p" "t \<in> set (v_all v)"
    "runs_on (ks_thr s) c p t" "unat (td_priority (ks_thr s t)) = p" "fst (v_queue v c p) \<noteq> []"
    "hd (fst (v_queue v c p)) = t" "cd_total_threads d \<noteq> 0"
    "td_real_priority (ks_thr s t) = td_priority (ks_thr s t)"
proof -
  note r = repD [OF rep]
  have ok: "cpu_ok d (v_queue v c) (ks_fs_base s c)" using r(6) [OF c] by (simp add: d_def)
  then show p: "cd_current_priority d = int p" "p < CONFIG_SCHEDULER_PRIORITIES" "qlist (v_queue v c p) \<noteq> []"
    using l by (auto simp: cpu_ok_def p_def cur_prio_def)
  show "cp_active_tail (cd_priorities d p) = t"
    using active_front(1) [OF r(2) c p(2,3)] by (simp add: t_def front_def p_def d_def)
  show tq: "t \<in> qset v c p" using p(3) by (simp add: t_def front_def p_def qset_def)
  then show ta: "t \<in> set (v_all v)" using apartD(1) [OF r(5) c p(2)] by blast
  show ro: "runs_on (ks_thr s) c p t" using heap_okD(4) [OF r(3) ta c p(2)] tq by simp
  show "unat (td_priority (ks_thr s t)) = p"
    using heap_okD(2) [OF r(3) ta] ro by (auto simp: thread_ok_def runs_on_def)
  show "td_real_priority (ks_thr s t) = td_priority (ks_thr s t)"
    using heap_okD(2) [OF r(3) ta] ro by (auto simp: thread_ok_def runs_on_def)
  show ne: "fst (v_queue v c p) \<noteq> []" by (rule active_front(2) [OF r(2) c p(2,3)])
  then show "hd (fst (v_queue v c p)) = t" by (simp add: t_def front_def p_def qlist_def)
  show "cd_total_threads d \<noteq> 0" using struct_load(4) [OF r(2) c] l by (simp add: d_def)
qed

lemma guard_false: "(\<not> (0 \<le> int p \<and> int p < int n)) = (\<not> p < n)"
  by simp

section \<open>The branches\<close>

lemma timer_idle:
  assumes "rep E s v" "c < m_cpus E" "load (v_queue v c) = 0"
  shows "timer_schedule c frame s = Ret (frame, s)"
  using struct_load(4) [OF repD(2) [OF assms(1)] assms(2)] assms(3) by (simp add: timer_schedule_def Let_def)

lemma rep_change_cpu:
  assumes rep: "rep E s v" and c: "c < m_cpus E"
    and st: "kstruct (m_cpus E) s' v'" and h: "heap_ok E (ks_thr s') v'"
    and f: "ks_stamp s' = ks_stamp s" "\<And>j. j \<noteq> c \<Longrightarrow> ks_cpus s' j = ks_cpus s j"
      "\<And>j. j \<noteq> c \<Longrightarrow> ks_fs_base s' j = ks_fs_base s j" "\<And>j. j \<noteq> c \<Longrightarrow> v_queue v' j = v_queue v j"
    and ok: "cpu_ok (ks_cpus s' c) (v_queue v' c) (ks_fs_base s' c)"
  shows "rep E s' v'"
  unfolding rep_def
proof (intro conjI allI impI)
  fix j assume "j < m_cpus E"
  then show "cpu_ok (ks_cpus s' j) (v_queue v' j) (ks_fs_base s' j)"
    using ok f repD(6) [OF rep, of j] by (cases "j = c") auto
qed (use st h f(1) repD(1,4) [OF rep] in auto)

lemma timer_load:
  assumes rep: "rep E s v" and c: "c < m_cpus E" and l: "load (v_queue v c) \<noteq> 0"
    and lc: "cd_load_context (ks_cpus s c)"
  defines "t \<equiv> front v (ks_cpus s c) c"
  defines "s' \<equiv> s\<lparr>ks_fs_base := (ks_fs_base s)(c := t),
      ks_cpus := (ks_cpus s)(c := (ks_cpus s c)\<lparr>cd_load_context := False\<rparr>)\<rparr>"
  shows "timer_schedule c frame s = Ret (td_context (ks_thr s t), s')" and "rep E s' v"
proof -
  note b = busy_cpu [OF rep c l, folded t_def]
  define p where "p = cur_prio (ks_cpus s c)"
  note b = b [folded p_def]
  show "timer_schedule c frame s = Ret (td_context (ks_thr s t), s')"
    unfolding timer_schedule_def Let_def b(1) guard_false nat_int b(4)
    using b(2,11) lc by (simp add: s'_def set_thread_ptr_def on_cpu_def store_thread_context_def)
  show "rep E s' v"
  proof (rule rep_change_cpu [OF rep c])
    show "kstruct (m_cpus E) s' v"
      using struct_cpu_fields [OF repD(2) [OF rep], of _ c] by (simp add: s'_def)
    show "cpu_ok (ks_cpus s' c) (v_queue v c) (ks_fs_base s' c)"
      using repD(6) [OF rep c] l by (auto simp: cpu_ok_def s'_def t_def front_def cur_prio_def)
  qed (use repD(3) [OF rep] in \<open>simp_all add: s'_def\<close>)
qed

lemma timer_overrun:
  assumes rep: "rep E s v" and c: "c < m_cpus E" and l: "load (v_queue v c) \<noteq> 0"
    and lc: "\<not> cd_load_context (ks_cpus s c)"
    and m: "ks_mem s (td_stack (ks_thr s (front v (ks_cpus s c) c))) \<noteq> STACK_OVERRUN_MAGIC"
  shows "timer_schedule c frame s = Halted"
proof -
  note b = busy_cpu [OF rep c l]
  show ?thesis
    unfolding timer_schedule_def Let_def b(1) guard_false nat_int b(4)
    using b(2,11) lc m by simp
qed

text \<open>The accounting on the running thread.\<close>

definition ticked :: "thread_data \<Rightarrow> thread_data" where
  "ticked td = td\<lparr>td_run_time := td_run_time td + 1\<rparr>"

lemma heap_ok_same:
  assumes ok: "heap_ok E h v" and t: "t \<in> set (v_all v)"
    and o: "\<And>a. a \<noteq> t \<Longrightarrow> core (h' a) = core (h a)"
    and f: "core (h' t) = core td" "td_magic td = td_magic (h t)" "td_state td = td_state (h t)"
      "td_cpu td = td_cpu (h t)" "td_priority td = td_priority (h t)" "td_stamp td = td_stamp (h t)"
      "td_affinity td = td_affinity (h t)"
      "td_state (h t) = THREAD_STATE_RUNNING \<Longrightarrow> td_real_priority td = td_priority (h t)"
    and v': "v_all v' = v_all v" "v_inactive v' = v_inactive v"
      "\<And>c p. c < m_cpus E \<Longrightarrow> p < CONFIG_SCHEDULER_PRIORITIES \<Longrightarrow> qset v' c p = qset v c p"
  shows "heap_ok E h' v'"
proof -
  note ct = core_fields [OF f(1)]
  have tok: "thread_ok E (h t)" "td_magic (h t) = THREAD_MAGIC"
    using heap_okD(2) [OF ok t] ok t by (auto simp: heap_ok_def)
  show ?thesis
  proof (rule heap_ok_move [OF ok t o v'(1)])
    show "thread_ok E (h' t)" "td_magic (h' t) = THREAD_MAGIC"
      using tok ct f by (auto simp: thread_ok_def)
    show "t \<in> set (v_inactive v') \<longleftrightarrow> idle_state (h' t)"
      using heap_okD(3) [OF ok t] v'(2) ct f by (simp add: idle_state_def)
    show "t \<in> qset v' c p \<longleftrightarrow> runs_on h' c p t" if "c < m_cpus E" "p < CONFIG_SCHEDULER_PRIORITIES" for c p
      using heap_okD(4) [OF ok t that] v'(3) [OF that] ct f tok by (auto simp: runs_on_def thread_ok_def)
  qed (use v' in auto)
qed

lemma highest_prio:
  assumes rep: "rep E s v" and c: "c < m_cpus E" and l: "load (v_queue v c) \<noteq> 0"
  obtains r where "find_mask_bsf (cd_priority_mask (ks_cpus s c)) PRIORITY_MASK_SIZE = int r"
    "r \<le> cur_prio (ks_cpus s c)" "r < CONFIG_SCHEDULER_PRIORITIES" "qlist (v_queue v c r) \<noteq> []"
    "\<And>j. j < r \<Longrightarrow> qlist (v_queue v c j) = []"
proof -
  note b = busy_cpu [OF rep c l]
  have "cpu_struct (ks_thr s) (ks_cpus s c) (v_queue v c)" using structD(3) [OF repD(2) [OF rep] c] .
  then have m: "mask_ok (cd_priority_mask (ks_cpus s c)) (v_queue v c)" by (simp add: cpu_struct_def)
  show ?thesis
  proof (rule find_mask_highest [OF m l])
    fix r assume r: "find_mask_bsf (cd_priority_mask (ks_cpus s c)) PRIORITY_MASK_SIZE = int r"
      "r < CONFIG_SCHEDULER_PRIORITIES" "qlist (v_queue v c r) \<noteq> []" "\<And>j. j < r \<Longrightarrow> qlist (v_queue v c j) = []"
    show thesis
      by (rule that [OF r(1) _ r(2,3,4)]) (use r(4) [of "cur_prio (ks_cpus s c)"] b(3) in \<open>fastforce simp: not_le\<close>)
  qed
qed

text \<open>No higher priority waits and the quantum is not used up: the thread goes on.\<close>

definition preempted :: "view \<Rightarrow> cpu_data \<Rightarrow> nat \<Rightarrow> bool" where
  "preempted v d c \<longleftrightarrow> (\<exists>j < cur_prio d. qlist (v_queue v c j) \<noteq> [])"

lemma preempted_iff:
  assumes "r \<le> cur_prio d" "qlist (v_queue v c r) \<noteq> []" "\<And>j. j < r \<Longrightarrow> qlist (v_queue v c j) = []"
  shows "int (cur_prio d) \<le> int r \<longleftrightarrow> \<not> preempted v d c"
  using assms unfolding preempted_def by (metis le_antisym less_le_trans linorder_not_le nle_le of_nat_le_iff order_le_less)

lemma timer_tick:
  assumes rep: "rep E s v" and c: "c < m_cpus E" and l: "load (v_queue v c) \<noteq> 0"
    and lc: "\<not> cd_load_context (ks_cpus s c)"
  defines "t \<equiv> front v (ks_cpus s c) c"
  assumes m: "ks_mem s (td_stack (ks_thr s t)) = STACK_OVERRUN_MAGIC"
    and go: "\<not> preempted v (ks_cpus s c) c" "td_quantum (ks_thr s t) \<noteq> 0"
  defines "s' \<equiv> on_thread t (\<lambda>td. (ticked td)\<lparr>td_quantum := td_quantum td - 1\<rparr>) s"
  shows "timer_schedule c frame s = Ret (frame, s')" and "rep E s' v"
proof -
  note b = busy_cpu [OF rep c l, folded t_def]
  define p where "p = cur_prio (ks_cpus s c)"
  note b = b [folded p_def]
  obtain r where r: "find_mask_bsf (cd_priority_mask (ks_cpus s c)) PRIORITY_MASK_SIZE = int r"
    "r \<le> p" "qlist (v_queue v c r) \<noteq> []" "\<And>j. j < r \<Longrightarrow> qlist (v_queue v c j) = []"
    by (rule highest_prio [OF rep c l, folded p_def]) (rule that)
  have pr: "int p \<le> int r" using preempted_iff [OF r(2,3,4) [unfolded p_def]] go(1) by (simp add: p_def)
  have comp: "on_thread t (\<lambda>td. td\<lparr>td_quantum := td_quantum td - 1\<rparr>)
      (on_thread t (\<lambda>td. td\<lparr>td_run_time := td_run_time td + 1\<rparr>) s) = s'"
    by (simp add: s'_def on_thread_def ticked_def upd_thread_upd_thread comp_def)
  have q: "td_quantum (ks_thr (on_thread t (\<lambda>td. td\<lparr>td_run_time := td_run_time td + 1\<rparr>) s) t) = td_quantum (ks_thr s t)"
    by (simp add: upd_thread_apply)
  show "timer_schedule c frame s = Ret (frame, s')"
    unfolding timer_schedule_def Let_def b(1) guard_false nat_int b(4) r(1) q comp
    using b(2,11) lc m pr go(2) by simp
  show "rep E s' v"
  proof (rule rep_change_cpu [OF rep c])
    show "kstruct (m_cpus E) s' v"
      using struct_upd_thread [OF repD(2) [OF rep]] by (simp add: s'_def keeps_links_def ticked_def)
    show "heap_ok E (ks_thr s') v"
      by (rule heap_ok_same [OF repD(3) [OF rep] b(6), where td = "ks_thr s' t"])
        (use b(12) in \<open>auto simp: s'_def upd_thread_apply ticked_def\<close>)
    show "cpu_ok (ks_cpus s' c) (v_queue v c) (ks_fs_base s' c)"
      using repD(6) [OF rep c] by (simp add: s'_def)
  qed (simp_all add: s'_def)
qed

text \<open>Otherwise the thread goes to the rear of its queue and the highest queue's front runs.\<close>

definition v_rotate :: "nat \<Rightarrow> nat \<Rightarrow> view \<Rightarrow> view" where
  "v_rotate c p v = v_queue_upd c p q_rotate v"

definition highest :: "view \<Rightarrow> nat \<Rightarrow> nat \<Rightarrow> bool" where
  "highest v c r \<longleftrightarrow> r < CONFIG_SCHEDULER_PRIORITIES \<and> qlist (v_queue v c r) \<noteq> [] \<and>
     (\<forall>j<r. qlist (v_queue v c j) = [])"

definition switched :: "thread_context \<Rightarrow> thread_data \<Rightarrow> thread_data" where
  "switched frame td = update_priority_quantum ((ticked td)\<lparr>td_context := frame\<rparr>)"

lemma timer_switch:
  assumes rep: "rep E s v" and c: "c < m_cpus E" and l: "load (v_queue v c) \<noteq> 0"
    and lc: "\<not> cd_load_context (ks_cpus s c)"
  defines "t \<equiv> front v (ks_cpus s c) c" and "p \<equiv> cur_prio (ks_cpus s c)"
  assumes m: "ks_mem s (td_stack (ks_thr s t)) = STACK_OVERRUN_MAGIC"
    and go: "preempted v (ks_cpus s c) c \<or> td_quantum (ks_thr s t) = 0"
  obtains s' r t2 where
    "timer_schedule c frame s = Ret (if t2 = t then frame else td_context (ks_thr s t2), s')"
    "highest v c r" "cd_current_priority (ks_cpus s' c) = int r" "t2 = hd (qlist (v_queue (v_rotate c p v) c r))"
    "rep E s' (v_rotate c p v)" "ks_fs_base s' c = t2"
    "core (ks_thr s' t) = core (switched frame (ks_thr s t))"
    "\<And>a. a \<noteq> t \<Longrightarrow> core (ks_thr s' a) = core (ks_thr s a)"
    "same_hw s s'" "ks_mem s' = ks_mem s" "ks_ctx s' = ks_ctx s" "\<not> cd_load_context (ks_cpus s' c)"
proof -
  note b = busy_cpu [OF rep c l, folded t_def p_def] and rr = repD [OF rep]
  obtain r where r: "find_mask_bsf (cd_priority_mask (ks_cpus s c)) PRIORITY_MASK_SIZE = int r"
    "r \<le> p" "r < CONFIG_SCHEDULER_PRIORITIES" "qlist (v_queue v c r) \<noteq> []" "\<And>j. j < r \<Longrightarrow> qlist (v_queue v c j) = []"
    by (rule highest_prio [OF rep c l, folded p_def]) (rule that)
  define s1 where "s1 = on_thread t (\<lambda>td. td\<lparr>td_run_time := td_run_time td + 1\<rparr>) s"
  have s1f: "ks_cpus s1 = ks_cpus s" "ks_all s1 = ks_all s" "ks_inactive s1 = ks_inactive s" by (simp_all add: s1_def)
  have k1: "kstruct (m_cpus E) s1 v"
    using struct_upd_thread [OF rr(2)] by (simp add: s1_def keeps_links_def)
  have p1: "unat (td_priority (ks_thr s1 t)) = p" using b(8) by (simp add: s1_def upd_thread_apply)
  obtain ts where ts: "fst (v_queue v c p) = t # ts" using b(9,10) by (cases "fst (v_queue v c p)") auto
  obtain h' d where a: "timer_requeue p frame (ks_thr s1) (ks_cpus s1 c) t = Ret (h', d)"
    "struct (m_cpus E) h' ((ks_cpus s1)(c := d)) (ks_all s1) (ks_inactive s1) (v_queue_upd c p q_rotate v)"
    "cd_current_priority d = cd_current_priority (ks_cpus s1 c)" "cd_task d = cd_task (ks_cpus s1 c)"
    "cd_load_context d = cd_load_context (ks_cpus s1 c)"
    "\<And>a. core (h' a) = core (if a = t then update_priority_quantum ((ks_thr s1 t)\<lparr>td_context := frame\<rparr>) else ks_thr s1 a)"
    by (rule struct_rotate [OF k1 c p1 b(2) ts]) (rule that)
  note a2 = a(2) [unfolded s1f, folded v_rotate_def]
  define d2 where "d2 = d\<lparr>cd_current_priority := int r\<rparr>"
  define s2 where "s2 = s1\<lparr>ks_thr := h', ks_cpus := (ks_cpus s1)(c := d2)\<rparr>"
  have k2: "kstruct (m_cpus E) s2 (v_rotate c p v)"
    using struct_cpu_fields [OF a2, of d2 c] by (simp add: s2_def d2_def s1f)
  define t2 where "t2 = hd (qlist (v_queue (v_rotate c p v) c r))"
  have rot: "qlist (v_queue (v_rotate c p v) c j) = (if j = p then rotate1 (qlist (v_queue v c p)) else qlist (v_queue v c j))" for j
    using struct_queue(2) [OF rr(2) c b(2)] by (simp add: v_rotate_def qlist_rotate)
  have ne: "qlist (v_queue (v_rotate c p v) c r) \<noteq> []" using r(4) b(3) by (simp add: rot)
  have at: "cp_active_tail (cd_priorities d r) = t2" "cp_active_tail (cd_priorities d2 r) = t2"
    using active_front(1) [OF k2 c r(3) ne] by (simp_all add: t2_def s2_def d2_def)
  define s' where "s' = (if t2 = t then s2 else set_thread_ptr c t2 s2)"
  have core': "core (ks_thr s' a) = core (if a = t then switched frame (ks_thr s t) else ks_thr s a)" for a
    using a(6) [of a] by (auto simp: s'_def s2_def set_thread_ptr_def s1_def upd_thread_apply switched_def ticked_def)
  have t2c: "t2 \<noteq> t \<Longrightarrow> td_context (ks_thr s2 t2) = td_context (ks_thr s t2)"
    using core_fields(2) [OF core' [of t2]] by (simp add: s'_def set_thread_ptr_def)
  have guard: "(cd_current_priority (ks_cpus s c) \<le> int r \<and> td_quantum (ks_thr s1 t) \<noteq> 0) = False"
  proof -
    have "td_quantum (ks_thr s1 t) = td_quantum (ks_thr s t)" by (simp add: s1_def upd_thread_apply)
    then show ?thesis using go preempted_iff [OF r(2,4,5) [unfolded p_def]] b(1) by (auto simp: p_def)
  qed
  have res: "timer_schedule c frame s = Ret (if t2 = t then frame else td_context (ks_thr s t2), s')"
    unfolding timer_schedule_def Let_def b(1) guard_false nat_int b(4) r(1) s1_def [symmetric]
      guard [unfolded b(1)] a(1) [unfolded s1f]
    using b(2,11) lc m r(3) t2c at
    by (simp add: s'_def s2_def [symmetric] d2_def [symmetric] store_thread_context_def)
  have f': "ks_stamp s' = ks_stamp s" "ks_cpus s' = (ks_cpus s)(c := d2)" "ks_all s' = ks_all s"
    "ks_inactive s' = ks_inactive s" "ks_thr s' = h'" "hw_busy s' = hw_busy s" "hw_outer s' = hw_outer s"
    "hw_if s' = hw_if s" "ks_mem s' = ks_mem s" "ks_ctx s' = ks_ctx s"
    "ks_fs_base s' = (if t2 = t then ks_fs_base s else (ks_fs_base s)(c := t2))"
    by (simp_all add: s'_def s2_def s1_def set_thread_ptr_def)
  have fsc: "ks_fs_base s c = t" using rr(6) [OF c] l lc by (simp add: cpu_ok_def t_def front_def cur_prio_def)
  have "rep E s' (v_rotate c p v)"
  proof (rule rep_change_cpu [OF rep c])
    show "kstruct (m_cpus E) s' (v_rotate c p v)" using k2 by (simp add: f' s2_def s1f)
    have qs: "qset (v_rotate c p v) j k = qset v j k" for j k
      using struct_queue(2) [OF rr(2) c b(2)] by (auto simp: qset_def v_rotate_def qlist_rotate)
    show "heap_ok E (ks_thr s') (v_rotate c p v)"
      by (rule heap_ok_same [OF rr(3) b(6), where td = "switched frame (ks_thr s t)"])
        (use core' qs in \<open>auto simp: switched_def ticked_def update_priority_quantum_def v_rotate_def\<close>)
    have "load (v_queue (v_rotate c p v) c) \<noteq> 0" using ne r(3) by (auto simp: load_0_iff)
    then show "cpu_ok (ks_cpus s' c) (v_queue (v_rotate c p v) c) (ks_fs_base s' c)"
      using ne r(3) lc fsc a(5) by (simp add: cpu_ok_def f' d2_def s1f t2_def)
  qed (auto simp: f' v_rotate_def v_queue_upd_def)
  then show ?thesis
    using res r core' fsc lc a(5)
    by (intro that [of t2 s' r]) (auto simp: f' highest_def t2_def d2_def same_hw_def s1f)
qed

end
