(* ===== verification/Sched_Fair.thy ===== *)
theory Sched_Fair
  imports Sched_Timer
begin

text \<open>
  Fairness of the round robin: on a CPU whose current priority is its highest, every thread
  of that priority's queue is running after at most 11 timer interrupts for each thread ahead.
\<close>

section \<open>A run of timer interrupts\<close>

text \<open>Timer interrupts in a row on CPU \<open>c\<close>, each with the registers it finds.\<close>

fun run_ticks :: "nat \<Rightarrow> thread_context list \<Rightarrow> 'z kstate_scheme \<Rightarrow> 'z kstate_scheme outcome" where
  "run_ticks c [] s = Ret s"
| "run_ticks c (f # fs) s = obind (timer_schedule c f s) (\<lambda>(_, s1). run_ticks c fs s1)"

lemma run_ticks_append:
  "run_ticks c (fs @ gs) s = obind (run_ticks c fs s) (run_ticks c gs)"
  by (induction fs arbitrary: s) (auto simp: obind_def split: outcome.splits prod.splits)

definition sound_thread :: "'z kstate_scheme \<Rightarrow> ptr \<Rightarrow> bool" where
  "sound_thread s t \<longleftrightarrow> ks_mem s (td_stack (ks_thr s t)) = STACK_OVERRUN_MAGIC \<and>
     unat (td_quantum (ks_thr s t)) \<le> 10"

definition steady :: "machine \<Rightarrow> 'z kstate_scheme \<Rightarrow> view \<Rightarrow> nat \<Rightarrow> bool" where
  "steady E s v c \<longleftrightarrow> rep E s v \<and> c < m_cpus E \<and> load (v_queue v c) \<noteq> 0 \<and>
     \<not> cd_load_context (ks_cpus s c) \<and> \<not> preempted v (ks_cpus s c) c \<and>
     (\<forall>t\<in>qset v c (cur_prio (ks_cpus s c)). sound_thread s t)"

lemma sound_thread_core:
  assumes "core (ks_thr s' t) = core td" "ks_mem s' = ks_mem s" "td_stack td = td_stack (ks_thr s t)"
    "unat (td_quantum td) \<le> 10" "sound_thread s t"
  shows "sound_thread s' t"
  using core_fields [OF assms(1)] assms(2-) by (simp add: sound_thread_def)

lemma highest_current:
  assumes "highest v c r" "\<not> preempted v d c" "qlist (v_queue v c (cur_prio d)) \<noteq> []"
  shows "r = cur_prio d"
proof (rule ccontr)
  assume "r \<noteq> cur_prio d"
  then consider "r < cur_prio d" | "cur_prio d < r" by linarith
  then show False using assms by cases (auto simp: highest_def preempted_def)
qed

text \<open>One turn: the quantum runs out, the queue rotates, and the next thread runs.\<close>

lemma one_turn:
  assumes "steady E s v c" "p = cur_prio (ks_cpus s c)"
    and "unat (td_quantum (ks_thr s (front v (ks_cpus s c) c))) = n" "length fs = Suc n"
  shows "\<exists>s'. run_ticks c fs s = Ret s' \<and> steady E s' (v_rotate c p v) c \<and>
    cur_prio (ks_cpus s' c) = p \<and> ks_fs_base s' c = hd (rotate1 (qlist (v_queue v c p)))"
  using assms
proof (induction n arbitrary: s fs)
  case 0
  then obtain f where fs: "fs = [f]" by (cases fs) auto
  have st: "rep E s v" "c < m_cpus E" "load (v_queue v c) \<noteq> 0" "\<not> cd_load_context (ks_cpus s c)"
    "\<not> preempted v (ks_cpus s c) c"
    and snd: "\<And>t. t \<in> qset v c p \<Longrightarrow> sound_thread s t"
    using "0.prems" by (auto simp: steady_def)
  note b = busy_cpu [OF st(1-3), folded "0.prems"(2)]
  define t where "t = front v (ks_cpus s c) c"
  have m: "ks_mem s (td_stack (ks_thr s t)) = STACK_OVERRUN_MAGIC"
    using snd [OF b(5)] by (simp add: sound_thread_def t_def)
  have q0: "preempted v (ks_cpus s c) c \<or> td_quantum (ks_thr s t) = 0"
    using "0.prems"(3) by (simp add: t_def unat_eq_0)
  obtain s' r t2 where a:
    "timer_schedule c f s = Ret (if t2 = t then f else td_context (ks_thr s t2), s')"
    "highest v c r" "cd_current_priority (ks_cpus s' c) = int r" "t2 = hd (qlist (v_queue (v_rotate c p v) c r))"
    "rep E s' (v_rotate c p v)" "ks_fs_base s' c = t2"
    "core (ks_thr s' t) = core (switched f (ks_thr s t))"
    "\<And>a. a \<noteq> t \<Longrightarrow> core (ks_thr s' a) = core (ks_thr s a)"
    "same_hw s s'" "ks_mem s' = ks_mem s" "ks_ctx s' = ks_ctx s" "\<not> cd_load_context (ks_cpus s' c)"
    by (rule timer_switch [OF st(1-4) m [unfolded t_def] q0 [unfolded t_def], folded t_def "0.prems"(2)])
      (rule that)
  have rp: "r = p" using highest_current [OF a(2) st(5)] b(3) "0.prems"(2) by simp
  have qok: "q_ok (v_queue v c p)" using struct_queue(2) [OF repD(2) [OF st(1)] st(2) b(2)] .
  have rot: "qlist (v_queue (v_rotate c p v) c j) = (if j = p then rotate1 (qlist (v_queue v c p)) else qlist (v_queue v c j))" for j
    using tq.rot_law [OF qok] by (simp add: v_rotate_def)
  have cp: "cur_prio (ks_cpus s' c) = p" using a(3) rp by (simp add: cur_prio_def)
  have "load (v_queue (v_rotate c p v) c) \<noteq> 0" using b(2,3) rot [of p] unfolding load_0_iff by (metis rotate1_is_Nil_conv)
  moreover have "\<not> preempted (v_rotate c p v) (ks_cpus s' c) c"
    using st(5) rot unfolding preempted_def cp "0.prems"(2) [symmetric] by auto
  moreover have "sound_thread s' u" if "u \<in> qset (v_rotate c p v) c p" for u
  proof -
    have u: "sound_thread s u" using that snd rot [of p] by (simp add: qset_def)
    show ?thesis
    proof (cases "u = t")
      case True
      show ?thesis
        by (rule sound_thread_core [OF _ a(10) _ _ u, of "switched f (ks_thr s t)"])
          (use a(7) True in \<open>simp_all add: switched_def update_priority_quantum_def ticked_def\<close>)
    next
      case False
      show ?thesis
        by (rule sound_thread_core [OF a(8) [OF False] a(10) _ _ u]) (use u in \<open>simp_all add: sound_thread_def\<close>)
    qed
  qed
  ultimately show ?case
    using a st(2) rp rot [of p] by (auto simp: fs steady_def cp)
next
  case (Suc n)
  then obtain f gs where fs: "fs = f # gs" "length gs = Suc n" by (cases fs) auto
  have st: "rep E s v" "c < m_cpus E" "load (v_queue v c) \<noteq> 0" "\<not> cd_load_context (ks_cpus s c)"
    "\<not> preempted v (ks_cpus s c) c"
    and snd: "\<And>t. t \<in> qset v c p \<Longrightarrow> sound_thread s t"
    using Suc.prems by (auto simp: steady_def)
  note b = busy_cpu [OF st(1-3), folded Suc.prems(2)]
  define t where "t = front v (ks_cpus s c) c"
  have m: "ks_mem s (td_stack (ks_thr s t)) = STACK_OVERRUN_MAGIC"
    using snd [OF b(5)] by (simp add: sound_thread_def t_def)
  have qn: "unat (td_quantum (ks_thr s t)) = Suc n" using Suc.prems(3) by (simp add: t_def)
  then have q0: "td_quantum (ks_thr s t) \<noteq> 0" by auto
  define s1 where "s1 = on_thread t (\<lambda>td. (ticked td)\<lparr>td_quantum := td_quantum td - 1\<rparr>) s"
  note a = timer_tick [OF st(1-4) m [unfolded t_def] st(5) q0 [unfolded t_def], folded t_def, folded s1_def]
  have qn1: "unat (td_quantum (ks_thr s1 t)) = n"
    using qn q0 by (simp add: s1_def upd_thread_apply unat_minus_one)
  have f1: "ks_cpus s1 = ks_cpus s" by (simp add: s1_def)
  have "sound_thread s1 u" if "u \<in> qset v c p" for u
    using snd [OF that] qn1 snd [OF b(5)] qn
    by (cases "u = t") (simp_all add: sound_thread_def s1_def upd_thread_apply ticked_def t_def)
  then have "steady E s1 v c" using a(2) st Suc.prems(2) by (simp add: steady_def f1)
  moreover have "front v (ks_cpus s1 c) c = t" by (simp add: f1 t_def)
  ultimately obtain s' where "run_ticks c gs s1 = Ret s'" "steady E s' (v_rotate c p v) c"
      "cur_prio (ks_cpus s' c) = p" "ks_fs_base s' c = hd (rotate1 (qlist (v_queue v c p)))"
    using Suc.IH [of s1 gs] Suc.prems(2) qn1 fs(2) by (auto simp: f1)
  then show ?case using a(1) by (auto simp: fs)
qed

text \<open>\<open>i\<close> turns: the thread that was \<open>i\<close> places behind the running one runs.\<close>

lemma map_upt_add: "map F [0..<a + b] = map F [0..<a] @ map (\<lambda>j. F (a + j)) [0..<b]"
  by (rule nth_equalityI) (auto simp: nth_append)

lemma turns:
  assumes "steady E s v c" "p = cur_prio (ks_cpus s c)"
    and "order = qlist (v_queue v c p)" "i < length order"
  shows "\<exists>m \<le> 11 * i. \<exists>s' v'. run_ticks c (map F [0..<m]) s = Ret s' \<and> steady E s' v' c \<and>
    ks_fs_base s' c = order ! i"
  using assms
proof (induction i arbitrary: s v order F)
  case 0
  have st: "rep E s v" "c < m_cpus E" "load (v_queue v c) \<noteq> 0" "\<not> cd_load_context (ks_cpus s c)"
    using "0.prems" by (auto simp: steady_def)
  have "ks_fs_base s c = order ! 0"
    using repD(6) [OF st(1,2)] st(3,4) "0.prems"(2-4)
    by (simp add: cpu_ok_def cur_prio_def hd_conv_nth)
  with "0.prems" show ?case by auto
next
  case (Suc i)
  have st: "rep E s v" "c < m_cpus E" "load (v_queue v c) \<noteq> 0" using Suc.prems by (auto simp: steady_def)
  note b = busy_cpu [OF st, folded Suc.prems(2)]
  define n where "n = unat (td_quantum (ks_thr s (front v (ks_cpus s c) c)))"
  have n10: "n \<le> 10" using b(5) Suc.prems(1,2) by (auto simp: steady_def sound_thread_def n_def)
  have qok: "q_ok (v_queue v c p)" using struct_queue(2) [OF repD(2) [OF st(1)] st(2) b(2)] .
  have rot: "qlist (v_queue (v_rotate c p v) c p) = rotate1 order"
    using tq.rot_law [OF qok] Suc.prems(3) by (simp add: v_rotate_def)
  have nth: "rotate1 order ! i = order ! Suc i" using Suc.prems(4) by (simp add: nth_rotate1)
  have len: "length (map F [0..<Suc n]) = Suc n" by simp
  obtain s1 where s1: "run_ticks c (map F [0..<Suc n]) s = Ret s1" "steady E s1 (v_rotate c p v) c"
    "cur_prio (ks_cpus s1 c) = p"
    using one_turn [OF Suc.prems(1,2) n_def [symmetric] len] by blast
  have il: "i < length (rotate1 order)" using Suc.prems(4) by simp
  obtain m s' v' where m: "m \<le> 11 * i" "run_ticks c (map (\<lambda>j. F (Suc n + j)) [0..<m]) s1 = Ret s'"
    "steady E s' v' c" "ks_fs_base s' c = order ! Suc i"
    using Suc.IH [OF s1(2) s1(3) [symmetric] rot [symmetric] il, of "\<lambda>j. F (Suc n + j)"] nth by auto
  have "run_ticks c (map F [0..<Suc n + m]) s = Ret s'"
    unfolding map_upt_add run_ticks_append s1(1) obind_simps by (rule m(2))
  moreover have "Suc n + m \<le> 11 * Suc i" using n10 m(1) by simp
  ultimately show ?case using m(3,4) by blast
qed

end
