(* ===== verification/Sched_Spin.thy ===== *)
theory Sched_Spin
  imports Sched_Rep
begin

text \<open>
  Where the locks of the scheduler are free, none of its operations spins on a lock for ever:
  each lock an operation takes is free when it takes it, those it takes again included.
\<close>

section \<open>What the handlers do to the locks\<close>

definition cpus_free :: "machine \<Rightarrow> 'z hw_scheme \<Rightarrow> bool" where
  "cpus_free E s \<longleftrightarrow> (\<forall>k<m_cpus E. hw_busy s (Lock_cpu k) = 0)"

lemma acquire_free_locks:
  "hw_busy s l = 0 \<Longrightarrow> hw_spun (snd (acquire_spinlock c l n s)) = hw_spun s"
  "hw_busy s l = 0 \<Longrightarrow> hw_busy (snd (acquire_spinlock c l n s)) = (hw_busy s)(l := 1)"
  by (simp_all add: acquire_spinlock_free) (simp add: hw_put_def)

lemma release_locks:
  "hw_busy (release_spinlock c l s) = (hw_busy s)(l := 0)" "hw_spun (release_spinlock c l s) = hw_spun s"
  "hw_spun (release_spinlock_int l s) = hw_spun s" "hw_spun (set_outer_spinlock c b s) = hw_spun s"
  by (simp_all add: release_spinlock_eq release_spinlock_int_def set_outer_spinlock_def set_outer_def) (simp add: hw_put_def)

lemma ops_locks:
  "hw_spun (on_thread t f s) = hw_spun s" "hw_spun (on_cpu k g s) = hw_spun s" "hw_spun (on_task k h s) = hw_spun s"
  "hw_spun (set_thread_ptr c t s) = hw_spun s" "hw_spun (set_eoi c s) = hw_spun s" "hw_spun (cli c s) = hw_spun s"
  "hw_spun (load_thread_context fr t s) = hw_spun s" "hw_spun (remove_inactive t s) = hw_spun s"
  "hw_spun (push_inactive t s) = hw_spun s" "hw_spun (remove_all t s) = hw_spun s" "hw_spun (push_all t s) = hw_spun s"
  "hw_busy (on_thread t f s) = hw_busy s" "hw_busy (on_cpu k g s) = hw_busy s" "hw_busy (on_task k h s) = hw_busy s"
  "hw_busy (set_thread_ptr c t s) = hw_busy s" "hw_busy (set_eoi c s) = hw_busy s" "hw_busy (cli c s) = hw_busy s"
  "hw_busy (load_thread_context fr t s) = hw_busy s"
  by (simp_all add: on_thread_def on_cpu_def on_task_def set_thread_ptr_def set_eoi_def cli_def load_thread_context_def
      remove_inactive_def push_inactive_def remove_all_def push_all_def Let_def)

lemmas lock_simps = acquire_free_locks release_locks ops_locks

lemma on_task_task: "cd_task (ks_cpus (on_task k h s) k) = h (cd_task (ks_cpus s k))"
  "cd_task (ks_cpus (set_eoi c s) k) = cd_task (ks_cpus s k)"
  by (simp_all add: on_task_def on_cpu_def set_eoi_def)

text \<open>A pause request that fails is left as it was.\<close>

lemma do_pause_task_locks:
  assumes "do_pause_task E c f s = Ret (f', s')"
  shows "hw_busy s' = hw_busy s" "hw_spun s' = hw_spun s"
    "ct_error (cd_task (ks_cpus s' c)) \<noteq> ERR_NONE \<Longrightarrow> ct_type (cd_task (ks_cpus s' c)) = ct_type (cd_task (ks_cpus s c))"
  using assms
  by (auto simp: do_pause_task_def Let_def obind_Ret_iff lock_simps on_task_task split: if_splits option.splits)

lemma handle_task_int_spun: "handle_task_int E c f s = Ret (f', s') \<Longrightarrow> hw_spun s' = hw_spun s"
proof -
  have "do_resume_task c s = Ret s' \<Longrightarrow> hw_spun s' = hw_spun s" for s' :: "'a kstate_scheme"
    by (auto simp: do_resume_task_def Let_def obind_Ret_iff lock_simps)
  moreover have "do_self_halt_task E c f s = Ret (f', s') \<Longrightarrow> hw_spun s' = hw_spun s" for f' and s' :: "'a kstate_scheme"
    by (auto simp: do_self_halt_task_def Let_def lock_simps split: if_splits option.splits)
  moreover assume "handle_task_int E c f s = Ret (f', s')"
  ultimately show ?thesis
    by (auto simp: handle_task_int_def obind_Ret_iff lock_simps split: task_type.splits dest: do_pause_task_locks(2))
qed

lemma run_isr_task_spun: "run_isr c (handle_task_int E k) s = Ret s' \<Longrightarrow> hw_spun s' = hw_spun s"
  by (auto simp: run_isr_def obind_Ret_iff split: option.splits dest!: handle_task_int_spun) (simp add: cli_def)

lemma handle_pause_locks:
  assumes "handle_task_int E c f s = Ret (f', s')" "ct_type (cd_task (ks_cpus s c)) = CPU_TASK_PAUSE"
  shows "hw_busy s' = hw_busy s" "ct_error (cd_task (ks_cpus s' c)) \<noteq> ERR_NONE \<Longrightarrow> ct_type (cd_task (ks_cpus s' c)) = CPU_TASK_PAUSE"
  using assms by (auto simp: handle_task_int_def obind_Ret_iff lock_simps on_task_task dest: do_pause_task_locks(1,3))

section \<open>Requests\<close>

lemma run_cpu_task_spun:
  assumes "run_cpu_task E c cpu task s = Ret (task', s')" "c < m_cpus E" "cpus_free E s"
  shows "hw_spun s' = hw_spun s"
    "ct_type task = CPU_TASK_PAUSE \<Longrightarrow> ct_error task' \<noteq> ERR_NONE \<Longrightarrow> hw_busy s' = hw_busy s"
proof -
  let ?k = "nat cpu"
  define s1 where "s1 = snd (acquire_spinlock c (Lock_cpu ?k) 0 s)"
  define s2 where "s2 = (if c = ?k then on_task ?k (\<lambda>_. task) s1 else on_task ?k (\<lambda>t. t\<lparr>ct_error := ERR_BUSY\<rparr>) (on_task ?k (\<lambda>_. task) s1))"
  obtain s4 where s4: "if c = ?k then \<exists>f. handle_task_int E c None s2 = Ret (f, s4) else run_isr ?k (handle_task_int E ?k) s2 = Ret s4"
    and k: "?k < m_cpus E" and s': "task' = cd_task (ks_cpus s4 ?k)"
      "s' = (if ct_type task' \<noteq> CPU_TASK_SELF_HALT then release_spinlock c (Lock_cpu ?k) s4 else s4)"
  proof -
    define fin where "fin = (\<lambda>s4 :: 'a kstate_scheme. if ct_error (cd_task (ks_cpus s4 ?k)) = ERR_BUSY then Hang
      else Ret (cd_task (ks_cpus s4 ?k), if ct_type (cd_task (ks_cpus s4 ?k)) \<noteq> CPU_TASK_SELF_HALT
        then release_spinlock c (Lock_cpu ?k) s4 else s4))"
    have fin: "task' = cd_task (ks_cpus s4 ?k) \<and> s' = (if ct_type task' \<noteq> CPU_TASK_SELF_HALT then release_spinlock c (Lock_cpu ?k) s4 else s4)"
      if "fin s4 = Ret (task', s')" for s4
      using that by (auto simp: fin_def split: if_split_asm)
    have run: "obind (if c = ?k then obind (handle_task_int E c None s2) (\<lambda>(_, s3). Ret s3)
        else if ?k < m_cpus E \<and> hw_if s2 ?k then run_isr ?k (handle_task_int E ?k) s2 else Hang) fin = Ret (task', s')"
      using assms(1) unfolding run_cpu_task_def Let_def s1_def [symmetric] fin_def s2_def by (simp split: if_split_asm)
    then obtain s4 where s4: "(if c = ?k then obind (handle_task_int E c None s2) (\<lambda>(_, s3). Ret s3)
        else if ?k < m_cpus E \<and> hw_if s2 ?k then run_isr ?k (handle_task_int E ?k) s2 else Hang) = Ret s4" "fin s4 = Ret (task', s')"
      unfolding obind_Ret_iff by blast
    have "if c = ?k then \<exists>f. handle_task_int E c None s2 = Ret (f, s4) else run_isr ?k (handle_task_int E ?k) s2 = Ret s4"
      "?k < m_cpus E"
      using s4(1) assms(2) by (auto simp: obind_Ret_iff split: if_split_asm)
    with fin [OF s4(2)] show thesis using that by blast
  qed
  have free: "hw_busy s (Lock_cpu ?k) = 0" using k assms(3) by (simp add: cpus_free_def)
  have s2h: "hw_spun s2 = hw_spun s" "hw_busy s2 = (hw_busy s)(Lock_cpu ?k := 1)"
    by (simp_all add: s2_def lock_simps s1_def free)
  have "hw_spun s4 = hw_spun s2"
    using s4 by (auto split: if_splits dest: handle_task_int_spun run_isr_task_spun)
  then show "hw_spun s' = hw_spun s" using s2h(1) s'(2) by (simp add: lock_simps)
  assume p: "ct_type task = CPU_TASK_PAUSE" "ct_error task' \<noteq> ERR_NONE"
  have t2: "ct_type (cd_task (ks_cpus s2 ?k)) = CPU_TASK_PAUSE" by (simp add: s2_def on_task_task p(1))
  have "hw_busy s4 = hw_busy s2 \<and> ct_type task' = CPU_TASK_PAUSE"
  proof (cases "c = ?k")
    case True
    then show ?thesis using s4 handle_pause_locks [of E c None s2 _ s4] t2 p(2) s'(1) by auto
  next
    case False
    then obtain f s3 where "handle_task_int E ?k (Some (ks_ctx s2 ?k)) (cli ?k s2) = Ret (Some f, s3)"
      and r: "s4 = s3\<lparr>ks_ctx := (ks_ctx s3)(?k := f), hw_if := (hw_if s3)(?k := bit (fr_rflags f) 9)\<rparr>"
      using s4 by (auto simp: run_isr_def obind_Ret_iff split: option.splits)
    moreover have "ct_type (cd_task (ks_cpus (cli ?k s2) ?k)) = CPU_TASK_PAUSE" using t2 by (simp add: cli_def)
    ultimately have "hw_busy s3 = hw_busy (cli ?k s2)" "ct_error (cd_task (ks_cpus s3 ?k)) \<noteq> ERR_NONE \<Longrightarrow> ct_type (cd_task (ks_cpus s3 ?k)) = CPU_TASK_PAUSE"
      using handle_pause_locks by blast+
    then show ?thesis using p(2) by (simp add: s'(1) r ops_locks)
  qed
  then show "hw_busy s' = hw_busy s" using s'(2) s2h(2) free by (auto simp: lock_simps fun_eq_iff)
qed

lemma deactivate_running_spun:
  assumes "deactivate_running E c stop t out lk s = Ret (e, h, s')" "c < m_cpus E" "cpus_free E s"
  shows "hw_spun s' = hw_spun s" "e \<noteq> ERR_NONE \<Longrightarrow> hw_busy s' = hw_busy s"
proof -
  obtain task s1 where t: "run_cpu_task E c (uint (td_cpu (ks_thr s t)))
      \<lparr>ct_type = CPU_TASK_PAUSE, ct_error = ERR_NONE, ct_thread = t, ct_lock = lk\<rparr> s = Ret (task, s1)"
    using assms(1) by (auto simp: deactivate_running_def Let_def obind_Ret_iff)
  note r = run_cpu_task_spun [OF t assms(2,3)]
  show "hw_spun s' = hw_spun s"
    using assms(1) r(1)
    by (auto simp: deactivate_running_def Let_def obind_Ret_iff lock_simps t split: if_splits dest!: run_isr_task_spun)
  show "hw_busy s' = hw_busy s" if "e \<noteq> ERR_NONE"
    using assms(1) r(2) that
    by (auto simp: deactivate_running_def Let_def obind_Ret_iff t split: if_splits)
qed

lemma deactivate_loop_spun:
  assumes "deactivate_loop n E c stop t out lk (e, h, s) = Ret (e', h', s')" "c < m_cpus E" "cpus_free E s"
  shows "hw_spun s' = hw_spun s"
  using assms
proof (induction n arbitrary: e h s)
  case (Suc n)
  obtain e1 h1 s1 where r: "hw_spun s1 = hw_spun s" "e1 = ERR_NOT_FOUND \<Longrightarrow> hw_busy s1 = hw_busy s"
    and n: "(if e1 \<noteq> ERR_NOT_FOUND then Ret (e1, h1, s1) else deactivate_loop n E c stop t out lk (e1, h1, s1)) = Ret (e', h', s')"
  proof (cases "td_state (ks_thr s t) = THREAD_STATE_RUNNING")
    case True
    then obtain e1 h1 s1 where d: "deactivate_running E c stop t out lk s = Ret (e1, h1, s1)"
      and n: "(if e1 \<noteq> ERR_NOT_FOUND then Ret (e1, h \<or> h1, s1) else deactivate_loop n E c stop t out lk (e1, h \<or> h1, s1)) = Ret (e', h', s')"
      using Suc.prems(1) by (auto simp: obind_Ret_iff simp del: if_split)
    show thesis by (rule that [OF _ _ n]) (use deactivate_running_spun [OF d Suc.prems(2,3)] in auto)
  next
    case False
    let ?s1 = "on_thread t (\<lambda>td. td\<lparr>td_state := THREAD_STATE_STOPPED, td_output := out\<rparr>) s"
    have *: "hw_spun ?s1 = hw_spun s" by (simp add: lock_simps)
    show thesis
    proof (cases "td_state (ks_thr s t)")
      case THREAD_STATE_UNKNOWN
      show thesis by (rule that [of s e h]) (use Suc.prems(1) THREAD_STATE_UNKNOWN in simp_all)
    next
      case THREAD_STATE_PAUSED
      show thesis
      proof (cases stop)
        case True
        show thesis by (rule that [of ?s1 ERR_NONE h]) (use Suc.prems(1) THREAD_STATE_PAUSED True * in simp_all)
      next
        case False
        show thesis by (rule that [of s ERR_BAD_STATE h]) (use Suc.prems(1) THREAD_STATE_PAUSED False in simp_all)
      qed
    next
      case THREAD_STATE_STOPPED
      show thesis by (rule that [of s ERR_BAD_STATE h]) (use Suc.prems(1) THREAD_STATE_STOPPED in simp_all)
    qed (use False in simp)
  qed
  show ?case
  proof (cases "e1 = ERR_NOT_FOUND")
    case True
    then have "cpus_free E s1" using r(2) Suc.prems(3) by (simp add: cpus_free_def)
    then show ?thesis using Suc.IH [of e1 h1 s1] n True r(1) Suc.prems(2) by simp
  qed (use n r(1) in simp)
qed simp

section \<open>The operations\<close>

lemma quiet_locks:
  assumes "quiet E c s"
  shows "hw_busy s Lock_all = 0" "hw_busy s Lock_inactive = 0" "cpus_free E s"
    "cpus_free E (snd (acquire_spinlock c Lock_inactive 0 s))"
  using quietD(1-3) [OF assms] by (auto simp: cpus_free_def lock_simps)

lemma resume_thread_spun:
  "quiet E c s \<Longrightarrow> c < m_cpus E \<Longrightarrow> resume_thread E c i s = Ret (e, s') \<Longrightarrow> hw_spun s' = hw_spun s"
  using quiet_locks [of E c s]
  by (auto simp: resume_thread_def Let_def obind_Ret_iff lock_simps cpus_free_def split: sum.splits if_splits
      dest!: run_cpu_task_spun(1))

lemma deactivate_thread_spun:
  "quiet E c s \<Longrightarrow> c < m_cpus E \<Longrightarrow> deactivate_thread E c stop i out lk s = Ret (e, s') \<Longrightarrow> hw_spun s' = hw_spun s"
  using quiet_locks [of E c s]
  by (auto simp: deactivate_thread_def Let_def obind_Ret_iff lock_simps split: sum.splits if_splits
      dest!: deactivate_loop_spun)

lemma attach_thread_spun: "quiet E c s \<Longrightarrow> attach_thread E c t w s = (e, r, s') \<Longrightarrow> hw_spun s' = hw_spun s"
  using quiet_locks(1,2) [of E c s] by (auto simp: attach_thread_def Let_def lock_simps split: if_splits prod.splits)

lemma detach_thread_spun: "quiet E c s \<Longrightarrow> detach_thread c i s = (e, r, s') \<Longrightarrow> hw_spun s' = hw_spun s"
  using quiet_locks(1,2) [of E c s]
  by (auto simp: detach_thread_def Let_def lock_simps split: if_splits sum.splits prod.splits)

lemma timer_schedule_locks:
  assumes "timer_schedule c f s = Ret (f', s')"
  shows "hw_spun s' = hw_spun s" "ks_ctx s' = ks_ctx s"
  using assms by (auto simp: timer_schedule_def Let_def obind_Ret_iff on_cpu_def set_thread_ptr_def on_thread_def split: if_splits)

end
