(* ===== verification/Sched_Safety.thy ===== *)
theory Sched_Safety
  imports Sched_Fair Sched_Spin
begin

text \<open>
  Every operation of the scheduler, whatever its arguments, returns and keeps the invariant;
  the states reachable by any sequence of operations, interrupts and changes outside the
  scheduler therefore satisfy it.
\<close>

section \<open>The operations are total and keep the invariant\<close>

lemma find_cases:
  assumes rep: "rep E s v"
  obtains (err) e where "find_thread i s = Inl e" "e = ERR_NOT_FOUND \<or> e = ERR_EXPIRED"
  | (running) t where "find_thread i s = Inr t" "td_state (ks_thr s t) = THREAD_STATE_RUNNING"
  | (paused) t where "find_thread i s = Inr t" "td_state (ks_thr s t) = THREAD_STATE_PAUSED"
  | (stopped) t where "find_thread i s = Inr t" "td_state (ks_thr s t) = THREAD_STATE_STOPPED"
proof (cases "find_thread i s")
  case (Inl e)
  then show ?thesis using err by (auto simp: find_thread_def WITH_STAMP_ID_Inl)
next
  case (Inr t)
  have "thread_ok E (ks_thr s t)"
    using heap_okD(2) [OF repD(3) [OF rep] find_thread_rep(1) [OF rep Inr]] .
  then show ?thesis using Inr running paused stopped
    by (cases "td_state (ks_thr s t)") (auto simp: thread_ok_def)
qed

lemma attach_thread_total:
  assumes rep: "rep E s v" and q: "quiet E c s" and t: "t \<noteq> NULL" "ptr_ok t"
    and len: "length (v_all v) < 2 ^ 31 - 2" "length (td_affinity (ks_thr s t)) = THREAD_AFFINITY_SIZE"
  shows "\<exists>e o1 s' v'. attach_thread E c t w s = (e, o1, s') \<and> rep E s' v' \<and> same_hw s s'"
proof (cases "td_magic (ks_thr s t) = THREAD_MAGIC \<or> \<not> attachable E s t")
  case True
  with attach_thread_errors [OF repD(1) [OF rep] len(2), where c = c and w = w] rep
  show ?thesis by (auto simp: same_hw_def)
next
  case False
  then have f: "td_magic (ks_thr s t) \<noteq> THREAD_MAGIC" "attachable E s t" by auto
  show ?thesis by (rule attach_thread_rep [OF rep q t f len(1), where w = w]) blast
qed

lemma detach_thread_total:
  assumes rep: "rep E s v" and q: "quiet E c s"
  shows "\<exists>e o1 s' v'. detach_thread c i s = (e, o1, s') \<and> rep E s' v' \<and> same_hw s s'"
proof (cases "\<exists>t. find_thread i s = Inr t \<and> idle_state (ks_thr s t)")
  case True
  then obtain t where t: "find_thread i s = Inr t" "idle_state (ks_thr s t)" by blast
  show ?thesis by (rule detach_thread_rep [OF rep q t]) blast
next
  case False
  then have "case find_thread i s of Inl e \<Rightarrow> (case find_thread i s of Inl e \<Rightarrow> e | Inr _ \<Rightarrow> ERR_BAD_STATE) = e
       | Inr t \<Rightarrow> \<not> idle_state (ks_thr s t) \<and> (case find_thread i s of Inl e \<Rightarrow> e | Inr _ \<Rightarrow> ERR_BAD_STATE) = ERR_BAD_STATE"
    by (auto split: sum.split)
  from detach_thread_error [OF rep q this] rep show ?thesis by (auto simp: same_hw_def)
qed

lemma resume_thread_total:
  assumes rep: "rep E s v" and q: "quiet E c s"
  shows "\<exists>e s' v'. resume_thread E c i s = Ret (e, s') \<and> rep E s' v' \<and> same_hw s s'"
proof (cases rule: find_cases [OF rep, of i, case_names err running paused stopped])
  case (paused t)
  show ?thesis by (rule resume_thread_rep [OF rep q paused]) blast
next
  case (err e)
  then have "resume_thread E c i s = Ret (e, s)" by (intro resume_thread_error [OF q]) simp
  with rep show ?thesis by (auto simp: same_hw_def)
next
  case (running t)
  then have "resume_thread E c i s = Ret (ERR_BAD_STATE, s)" by (intro resume_thread_error [OF q]) simp
  with rep show ?thesis by (auto simp: same_hw_def)
next
  case (stopped t)
  then have "resume_thread E c i s = Ret (ERR_BAD_STATE, s)" by (intro resume_thread_error [OF q]) simp
  with rep show ?thesis by (auto simp: same_hw_def)
qed

lemma deactivate_thread_total:
  assumes rep: "rep E s v" and q: "quiet E c s"
  shows "\<exists>e s' v'. deactivate_thread E c stop i out lk s = Ret (e, s') \<and> rep E s' v' \<and>
    (same_hw s s' \<or> halt_hw c lk s s')"
proof (cases rule: find_cases [OF rep, of i, case_names err running paused stopped])
  case (running t)
  show ?thesis
  proof (cases "is_current_on v s t \<and> c = unat (td_cpu (ks_thr s t))")
    case True
    then have self: "unat (td_cpu (ks_thr s t)) = c" "is_current_on v s t" by auto
    show ?thesis by (rule deactivate_self_rep [OF rep q running self, where stop = stop and out = out and lk = lk]) blast
  next
    case False
    show ?thesis by (rule deactivate_thread_rep [OF rep q running False, where stop = stop and out = out and lk = lk]) blast
  qed
next
  case (paused t)
  show ?thesis
  proof (cases stop)
    case True
    have hw: "same_hw s (on_thread t (idle_td True out) s)" by (simp add: same_hw_def)
    show ?thesis using stop_paused_rep(1) [OF rep q paused, of out lk] stop_paused_rep(2) [OF rep q paused, of out] hw True by auto
  next
    case False
    then have "deactivate_thread E c stop i out lk s = Ret (ERR_BAD_STATE, s)"
      using paused by (intro deactivate_thread_error [OF q]) simp
    with rep show ?thesis by (auto simp: same_hw_def)
  qed
next
  case (err e)
  then have "deactivate_thread E c stop i out lk s = Ret (e, s)" by (intro deactivate_thread_error [OF q]) simp
  with rep show ?thesis by (auto simp: same_hw_def)
next
  case (stopped t)
  then have "deactivate_thread E c stop i out lk s = Ret (ERR_BAD_STATE, s)" by (intro deactivate_thread_error [OF q]) simp
  with rep show ?thesis by (auto simp: same_hw_def)
qed

lemma timer_schedule_total:
  assumes rep: "rep E s v" and c: "c < m_cpus E"
  shows "timer_schedule c f s = Halted \<or>
    (\<exists>f' s' v'. timer_schedule c f s = Ret (f', s') \<and> rep E s' v' \<and> same_hw s s')"
proof (cases "load (v_queue v c) = 0")
  case True
  with timer_idle [OF rep c] rep show ?thesis by (auto simp: same_hw_def)
next
  case l: False
  show ?thesis
  proof (cases "cd_load_context (ks_cpus s c)")
    case True
    from timer_load(1) [OF rep c l True, of f] timer_load(2) [OF rep c l True] show ?thesis by (auto simp: same_hw_def)
  next
    case lc: False
    let ?t = "front v (ks_cpus s c) c"
    consider "ks_mem s (td_stack (ks_thr s ?t)) \<noteq> STACK_OVERRUN_MAGIC"
      | "ks_mem s (td_stack (ks_thr s ?t)) = STACK_OVERRUN_MAGIC" "\<not> preempted v (ks_cpus s c) c" "td_quantum (ks_thr s ?t) \<noteq> 0"
      | "ks_mem s (td_stack (ks_thr s ?t)) = STACK_OVERRUN_MAGIC"
        "preempted v (ks_cpus s c) c \<or> td_quantum (ks_thr s ?t) = 0" by blast
    then show ?thesis
    proof cases
      case 1
      with timer_overrun [OF rep c l lc] show ?thesis by simp
    next
      case 2
      from timer_tick(1) [OF rep c l lc 2, of f] timer_tick(2) [OF rep c l lc 2] show ?thesis by (auto simp: same_hw_def)
    next
      case 3
      show ?thesis by (rule timer_switch [OF rep c l lc 3, where frame = f]) blast
    qed
  qed
qed

section \<open>Reachable states\<close>

definition zero_prio :: cpu_priority where
  "zero_prio = \<lparr>cp_expired_head = NULL, cp_expired_tail = NULL, cp_active_tail = NULL, cp_total_threads = 0\<rparr>"

text \<open>The statically allocated variables are zero at boot, and no thread is attached.\<close>

definition boot_state :: "machine \<Rightarrow> 'z kstate_scheme \<Rightarrow> bool" where
  "boot_state E s \<longleftrightarrow> m_cpus E \<le> CONFIG_MAX_CPUS \<and>
     ks_all s = \<lparr>tl_total_threads = 0, tl_tail = NULL\<rparr> \<and>
     ks_inactive s = \<lparr>tl_total_threads = 0, tl_tail = NULL\<rparr> \<and> ks_stamp s = 0 \<and>
     (\<forall>c<m_cpus E. cd_total_threads (ks_cpus s c) = 0 \<and> cd_priority_mask (ks_cpus s c) = [0] \<and>
        (\<forall>p<CONFIG_SCHEDULER_PRIORITIES. cd_priorities (ks_cpus s c) p = zero_prio) \<and> ks_fs_base s c = NULL) \<and>
     (\<forall>a. td_magic (ks_thr s a) \<noteq> THREAD_MAGIC)"

definition empty_view :: view where
  "empty_view = \<lparr>v_all = [], v_inactive = [], v_queue = \<lambda>_ _. ([], [])\<rparr>"

lemma boot_rep: "boot_state E s \<Longrightarrow> rep E s empty_view"
  by (auto simp: boot_state_def rep_def struct_def cpu_struct_def prio_rep_def zero_prio_def empty_view_def
      mask_ok_def load_def qlist_def q_ok_def apart_def qset_def heap_ok_def cpu_ok_def stamp_ok_def arr_bit_def)

text \<open>
  The steps. \<open>call\<close> is what calling the timer procedure does; it runs with the marker
  \<open>set_outer_spinlock\<close> sets as the outer lock. An interrupt comes between two operations. Outside the scheduler, code may
  write a descriptor that is not attached, and anything the scheduler's data is not part of.
\<close>

inductive sched_step ::
  "machine \<Rightarrow> (ptr \<Rightarrow> nat \<Rightarrow> u64 \<Rightarrow> 'z kstate_scheme \<Rightarrow> 'z kstate_scheme outcome) \<Rightarrow>
   'z kstate_scheme \<Rightarrow> 'z kstate_scheme \<Rightarrow> bool" for E call where
  attach: "quiet E c s \<Longrightarrow> attach_thread E c t w s = (e, r, s') \<Longrightarrow> t \<noteq> NULL \<Longrightarrow> ptr_ok t \<Longrightarrow>
     length (td_affinity (ks_thr s t)) = THREAD_AFFINITY_SIZE \<Longrightarrow>
     unat (tl_total_threads (ks_all s)) < 2 ^ 31 - 2 \<Longrightarrow> sched_step E call s s'"
| detach: "quiet E c s \<Longrightarrow> detach_thread c i s = (e, r, s') \<Longrightarrow> sched_step E call s s'"
| resume: "quiet E c s \<Longrightarrow> resume_thread E c i s = Ret (e, s') \<Longrightarrow> sched_step E call s s'"
| pause: "quiet E c s \<Longrightarrow> pause_thread E c i s = Ret (e, s') \<Longrightarrow> sched_step E call s s'"
| stop: "quiet E c s \<Longrightarrow> stop_thread E c i out s = Ret (e, s') \<Longrightarrow> sched_step E call s s'"
| pause_this: "quiet E c s \<Longrightarrow> pause_this_thread E c lk s = Ret (e, s') \<Longrightarrow> sched_step E call s s'"
| timer: "c < m_cpus E \<Longrightarrow> quiet E c (set_outer_spinlock c True s) \<Longrightarrow> run_isr c (handle_timer_int E call c) s = Ret s' \<Longrightarrow> sched_step E call s s'"
| prepare: "td_magic (ks_thr s a) \<noteq> THREAD_MAGIC \<Longrightarrow> td_magic (f (ks_thr s a)) \<noteq> THREAD_MAGIC \<Longrightarrow>
     sched_step E call s (on_thread a f s)"
| elsewhere: "ks_thr s' = ks_thr s \<Longrightarrow> ks_cpus s' = ks_cpus s \<Longrightarrow> ks_all s' = ks_all s \<Longrightarrow>
     ks_inactive s' = ks_inactive s \<Longrightarrow> ks_stamp s' = ks_stamp s \<Longrightarrow> ks_fs_base s' = ks_fs_base s \<Longrightarrow>
     sched_step E call s s'"

inductive reachable ::
  "machine \<Rightarrow> (ptr \<Rightarrow> nat \<Rightarrow> u64 \<Rightarrow> 'z kstate_scheme \<Rightarrow> 'z kstate_scheme outcome) \<Rightarrow> 'z kstate_scheme \<Rightarrow> bool"
  for E call where
  boot: "boot_state E s \<Longrightarrow> reachable E call s"
| step: "reachable E call s \<Longrightarrow> sched_step E call s s' \<Longrightarrow> reachable E call s'"

text \<open>The timer procedure may itself call the scheduler, and must then keep the invariant.\<close>

definition timer_proc_keeps ::
  "machine \<Rightarrow> (ptr \<Rightarrow> nat \<Rightarrow> u64 \<Rightarrow> 'z kstate_scheme \<Rightarrow> 'z kstate_scheme outcome) \<Rightarrow> bool" where
  "timer_proc_keeps E call \<longleftrightarrow> (\<forall>a c x s s' v. c < m_cpus E \<longrightarrow> rep E s v \<longrightarrow> quiet E c s \<longrightarrow>
     call a c x s = Ret s' \<longrightarrow> (\<exists>v'. rep E s' v'))"

lemma rep_set_outer [simp]: "rep E (set_outer c l s) v \<longleftrightarrow> rep E s v"
  by (simp add: rep_def set_outer_def)

text \<open>In the handler, when it calls the timer procedure.\<close>

lemma quiet_in_timer:
  assumes "quiet E c (set_outer_spinlock c True s)" "timer_schedule c f (cli c s) = Ret (f', s1)" "same_hw (cli c s) s1"
  shows "quiet E c (set_outer_spinlock c True s1)"
  using assms(1,3) timer_schedule_locks(2) [OF assms(2)]
  by (auto simp: quiet_def same_hw_def set_outer_spinlock_def set_outer_def cli_def)

lemma handle_timer_rep:
  assumes rep: "rep E s v" and c: "c < m_cpus E" and call: "timer_proc_keeps E call"
    and q: "quiet E c (set_outer_spinlock c True s)" and h: "handle_timer E call c s = Ret s'"
  shows "\<exists>v'. rep E s' v'"
proof -
  define s1 where "s1 = (if c = m_bsp_cpu E then s\<lparr>ks_ticks := ks_ticks s + 1\<rparr> else s)"
  have r1: "rep E s1 v" by (rule rep_only [OF rep]) (simp_all add: s1_def)
  show ?thesis
  proof (cases "ks_timer_ticks s1 c \<noteq> 0 \<and> ks_timer_ticks s1 c \<le> ks_ticks s1")
    case True
    define s2 where "s2 = set_outer_spinlock c True (set_timer_ticks c 0 s1)"
    have r2: "rep E s2 v"
      by (rule rep_only [OF r1]) (simp_all add: s2_def set_outer_spinlock_def set_outer_def set_timer_ticks_def)
    obtain s3 where s3: "call (ks_timer_proc s2) c (ks_timer_ticks s1 c) s2 = Ret s3" "s' = set_outer_spinlock c False s3"
      using h True unfolding handle_timer_def Let_def s1_def [symmetric] s2_def [symmetric]
      by (auto simp: obind_Ret_iff)
    have "quiet E c s2"
      using q by (simp add: s2_def s1_def quiet_def set_outer_spinlock_def set_outer_def set_timer_ticks_def)
    then obtain v' where "rep E s3 v'" using call c r2 s3(1) unfolding timer_proc_keeps_def by blast
    then show ?thesis using s3(2) by (auto simp: set_outer_spinlock_def)
  next
    case False
    then have "s' = s1" using h unfolding handle_timer_def Let_def s1_def [symmetric] by auto
    with r1 show ?thesis by blast
  qed
qed

lemma all_length:
  assumes "rep E s v"
  shows "unat (tl_total_threads (ks_all s)) = length (v_all v)"
proof -
  have "length (v_all v) < 2 ^ 32" using structD(5) [OF repD(2) [OF assms]] by simp
  then show ?thesis using repD(2) [OF assms] by (simp add: struct_def unat_of_nat)
qed

lemma heap_ok_outside:
  assumes ok: "heap_ok E h v" and m: "td_magic (h a) \<noteq> THREAD_MAGIC" "td_magic (f (h a)) \<noteq> THREAD_MAGIC"
  shows "heap_ok E (upd_thread a f h) v"
proof -
  have na: "a \<notin> set (v_all v)" using ok m(1) by (auto simp: heap_ok_def)
  have eq: "t \<in> set (v_all v) \<Longrightarrow> upd_thread a f h t = h t" for t using na by (auto simp: upd_thread_apply)
  have ro: "t \<in> set (v_all v) \<Longrightarrow> runs_on (upd_thread a f h) c p t = runs_on h c p t" for t c p
    using eq by (simp add: runs_on_def)
  have mg: "td_magic (upd_thread a f h t) = THREAD_MAGIC \<longleftrightarrow> td_magic (h t) = THREAD_MAGIC" for t
    using m by (auto simp: upd_thread_apply)
  show ?thesis using ok unfolding heap_ok_def by (simp add: eq ro mg)
qed

lemma sched_step_rep:
  assumes "sched_step E call s s'" "rep E s v" "timer_proc_keeps E call"
  shows "\<exists>v'. rep E s' v'"
  using assms
proof (cases rule: sched_step.cases)
  case (attach c t w e r)
  then show ?thesis
    using attach_thread_total [OF assms(2) attach(1,3,4), of w] all_length [OF assms(2)] by auto
next
  case (detach c i e r)
  then show ?thesis using detach_thread_total [OF assms(2) detach(1), of i] by auto
next
  case (resume c i e)
  then show ?thesis using resume_thread_total [OF assms(2) resume(1), of i] by auto
next
  case (pause c i e)
  then show ?thesis
    using deactivate_thread_total [OF assms(2) pause(1), of False i 0 Lock_null] by (auto simp: pause_thread_def)
next
  case (stop c i out e)
  then show ?thesis
    using deactivate_thread_total [OF assms(2) stop(1), of True i out Lock_null] by (auto simp: stop_thread_def)
next
  case (pause_this c lk e)
  then show ?thesis
    using deactivate_thread_total [OF assms(2) pause_this(1), of False "get_thread c s" 0 lk]
    by (auto simp: pause_this_thread_def)
next
  case (timer c)
  have cl: "rep E (cli c s) v" by (rule rep_only [OF assms(2)]) (simp_all add: cli_def)
  obtain f1 s1 s2 where r: "timer_schedule c (ks_ctx s c) (cli c s) = Ret (f1, s1)"
    "handle_timer E call c s1 = Ret s2"
    and s': "s' = (set_eoi c s2)\<lparr>ks_ctx := (ks_ctx (set_eoi c s2))(c := f1), hw_if := (hw_if (set_eoi c s2))(c := bit (fr_rflags f1) 9)\<rparr>"
    using timer(3) by (auto simp: run_isr_def handle_timer_int_def obind_Ret_iff)
  obtain v1 where v1: "rep E s1 v1" "same_hw (cli c s) s1"
    using timer_schedule_total [OF cl timer(1), of "ks_ctx s c"] r(1) by auto
  have "quiet E c (set_outer_spinlock c True s1)" by (rule quiet_in_timer [OF timer(2) r(1) v1(2)])
  then obtain v2 where "rep E s2 v2" using handle_timer_rep [OF v1(1) timer(1) assms(3) _ r(2)] by blast
  then have "rep E s' v2" by (rule rep_only) (simp_all add: s' set_eoi_def)
  then show ?thesis by blast
next
  case (prepare a f)
  have "a \<notin> set (v_all v)" using repD(3) [OF assms(2)] prepare(2) by (auto simp: heap_ok_def)
  then have "rep E s' v"
    using repD [OF assms(2)] struct_outside [of _ _ _ _ _ v a f] heap_ok_outside [of E _ v a f] prepare
    by (simp add: rep_def)
  then show ?thesis by blast
next
  case elsewhere
  then show ?thesis using rep_only [OF assms(2)] by blast
qed

lemma reachable_rep: "reachable E call s \<Longrightarrow> timer_proc_keeps E call \<Longrightarrow> \<exists>v. rep E s v"
proof (induction rule: reachable.induct)
  case (boot s)
  then show ?case using boot_rep by blast
next
  case (step s s')
  then show ?case using sched_step_rep by blast
qed

text \<open>The thread a CPU runs pauses itself.\<close>

lemma pause_this_thread_rep:
  assumes "rep E s v" "quiet E c s" "get_thread_ptr c s = t" "t \<noteq> NULL" "c < m_cpus E"
  shows "\<exists>s'. pause_this_thread E c lk s = Ret (ERR_NONE, s') \<and>
    rep E s' (v_pause c (unat (td_priority (ks_thr s t))) t v) \<and> halt_hw c lk s s' \<and> get_thread_ptr c s' \<noteq> t \<and>
    td_state (ks_thr s' t) = THREAD_STATE_PAUSED \<and>
    td_context (ks_thr s' t) = store_int_enabled (ks_ctx s c) \<and>
    ks_ctx s' = (ks_ctx s)(c := store_halt E (store_int_enabled (ks_ctx s c))) \<and>
    (\<forall>a. a \<noteq> t \<longrightarrow> core (ks_thr s' a) = core (ks_thr s a))"
proof -
  note r = repD [OF assms(1)]
  have fs: "cpu_ok (ks_cpus s c) (v_queue v c) t" using r(6) [OF assms(5)] assms(3) by (simp add: get_thread_ptr_def)
  then have l: "load (v_queue v c) \<noteq> 0" and t: "t = front v (ks_cpus s c) c"
    using assms(4) by (auto simp: cpu_ok_def front_def cur_prio_def split: if_splits)
  note b = busy_cpu [OF assms(1,5) l, folded t]
  have i: "get_thread c s = get_stamp_id t (td_stamp (ks_thr s t))"
    using assms(3,4) by (simp add: get_thread_def Let_def)
  have f: "find_thread (get_thread c s) s = Inr t" unfolding i by (rule find_thread_id [OF assms(1) b(6)])
  have run: "td_state (ks_thr s t) = THREAD_STATE_RUNNING" "unat (td_cpu (ks_thr s t)) = c"
    using b(7) by (simp_all add: runs_on_def)
  have cur: "is_current_on v s t"
    using b(1,8) run(2) by (simp add: is_current_on_def is_current_def t front_def)
  obtain s' where s': "deactivate_thread E c False (get_thread c s) 0 lk s = Ret (ERR_NONE, s')"
    "rep E s' (v_pause c (unat (td_priority (ks_thr s t))) t v)" "halt_hw c lk s s'"
    "core (ks_thr s' t) = core (idle_td False 0 ((ks_thr s t)\<lparr>td_context := store_int_enabled (ks_ctx s c)\<rparr>))"
    "\<And>a. a \<noteq> t \<Longrightarrow> core (ks_thr s' a) = core (ks_thr s a)"
    "ks_ctx s' = (ks_ctx s)(c := store_halt E (store_int_enabled (ks_ctx s c)))"
    by (rule deactivate_self_rep [OF assms(1,2) f run cur]) (rule that)
  have td: "td_state (ks_thr s' t) = THREAD_STATE_PAUSED" "td_context (ks_thr s' t) = store_int_enabled (ks_ctx s c)"
    using core_fields [OF s'(4)] by (simp_all add: idle_td_def)
  have "get_thread_ptr c s' \<noteq> t"
  proof
    assume e: "get_thread_ptr c s' = t"
    let ?v = "v_pause c (unat (td_priority (ks_thr s t))) t v"
    have "cpu_ok (ks_cpus s' c) (v_queue ?v c) t" using repD(6) [OF s'(2) assms(5)] e by (simp add: get_thread_ptr_def)
    then have "load (v_queue ?v c) \<noteq> 0" "t = front ?v (ks_cpus s' c) c"
      using assms(4) by (auto simp: cpu_ok_def front_def cur_prio_def split: if_splits)
    from busy_cpu(7) [OF s'(2) assms(5) this(1)] this(2) td(1) show False by (simp add: runs_on_def)
  qed
  with s' td show ?thesis unfolding pause_this_thread_def by blast
qed

end
