(* ===== verification/Sched_Example.thy ===== *)
theory Sched_Example
  imports Sched_Safety
begin

text \<open>
  A small run of the scheduler, from boot on: two threads that may run on CPU 0 of a machine
  with two CPUs are attached and resumed, and the first timer interrupt loads the first one.
  The states serve as concrete inputs for the theorems about the scheduler.
\<close>

definition xE :: machine where
  "xE = \<lparr>m_cpus = 2, m_bsp_cpu = 0, m_halt = 0x101000, m_exit_thread = 0x101100\<rparr>"

definition xframe :: thread_context where
  "xframe = \<lparr>fr_r15 = 0, fr_r14 = 0, fr_r13 = 0, fr_r12 = 0, fr_r11 = 0, fr_r10 = 0, fr_r9 = 0, fr_r8 = 0,
     fr_rdi = 0, fr_rsi = 0, fr_rbp = 0, fr_rdx = 0, fr_rcx = 0, fr_rbx = 0, fr_rax = 0, fr_fxdata = [],
     fr_error_code = 0, fr_rip = 0x101000, fr_cs = 8, fr_rflags = 0x200, fr_rsp = 0x90000, fr_ss = 16\<rparr>"

definition xtd :: "ptr \<Rightarrow> thread_data" where
  "xtd stack = \<lparr>td_magic = 0, td_prev = NULL, td_next = NULL, td_all_prev = NULL, td_all_next = NULL,
     td_context = xframe\<lparr>fr_rip := 0x400000\<rparr>, td_stack = stack, td_stack_size = 0x1000, td_affinity = [1], td_output = 0,
     td_run_time = 0, td_priority = 2, td_real_priority = 0, td_quantum = 0, td_stamp = 0, td_cpu = 0,
     td_state = THREAD_STATE_UNKNOWN, td_fixed_priority = False\<rparr>"

abbreviation tA :: ptr where "tA \<equiv> 0x200000"
abbreviation tB :: ptr where "tB \<equiv> 0x201000"

definition x0 :: kstate where
  "x0 = \<lparr>hw_busy = \<lambda>_. 0, hw_outer = \<lambda>_. Lock_null, hw_if = \<lambda>_. True, hw_spun = 0,
     ks_thr = \<lambda>a. if a = tA then xtd 0x300000 else if a = tB then xtd 0x301000 else xtd 0,
     ks_mem = \<lambda>a. if a = 0x300000 \<or> a = 0x301000 then STACK_OVERRUN_MAGIC else 0,
     ks_cpus = \<lambda>_. \<lparr>cd_total_threads = 0, cd_current_priority = 0, cd_priorities = \<lambda>_. zero_prio,
       cd_priority_mask = [0], cd_task = \<lparr>ct_type = CPU_TASK_RESUME, ct_error = ERR_NONE, ct_thread = NULL, ct_lock = Lock_null\<rparr>,
       cd_load_context = False\<rparr>,
     ks_all = \<lparr>tl_total_threads = 0, tl_tail = NULL\<rparr>, ks_inactive = \<lparr>tl_total_threads = 0, tl_tail = NULL\<rparr>,
     ks_stamp = 0, ks_ticks = 0, ks_timer_ticks = \<lambda>_. 0, ks_timer_proc = NULL, ks_ctx = \<lambda>_. xframe,
     ks_fs_base = \<lambda>_. NULL, ks_eoi = \<lambda>_. 0\<rparr>"

text \<open>The value of an operation that returned.\<close>

definition returned :: "'a \<Rightarrow> 'a outcome \<Rightarrow> 'a" where
  "returned x r = (case r of Ret y \<Rightarrow> y | _ \<Rightarrow> x)"

abbreviation idA :: stamp_id where "idA \<equiv> get_stamp_id tA 0"
abbreviation idB :: stamp_id where "idB \<equiv> get_stamp_id tB 1"

definition "x1 = snd (snd (attach_thread xE 1 tA True x0))"
definition "x2 = snd (snd (attach_thread xE 1 tB True x1))"
definition "x3 = snd (returned (ERR_NONE, x2) (resume_thread xE 1 idA x2))"
definition "x4 = snd (returned (ERR_NONE, x3) (resume_thread xE 1 idB x3))"
definition "x5 = snd (returned (xframe, x4) (timer_schedule 0 xframe x4))"

definition "v1 = v_attach tA empty_view"
definition "v2 = v_attach tB v1"
definition "v3 = v_resume 0 2 tA v2"
definition "v4 = v_resume 0 2 tB v3"

lemma returned_Ret [simp]: "returned x (Ret y) = y"
  by (simp add: returned_def)

lemma x_aff: "affinity_ok xE [1]" "k < 2 \<Longrightarrow> BIT_ARRAY_GET [1] k \<longleftrightarrow> k = 0"
proof -
  have g: "BIT_ARRAY_GET [1] k \<longleftrightarrow> k = 0" if "k < 2" for k
  proof -
    have "k = 0 \<or> k = 1" using that by auto
    moreover have "BIT_ARRAY_GET [1] 0" "\<not> BIT_ARRAY_GET [1] 1" by (simp_all add: BIT_ARRAY_GET_arr arr_bit_def)
    ultimately show ?thesis by auto
  qed
  then show "BIT_ARRAY_GET [1] k \<longleftrightarrow> k = 0" if "k < 2" using that .
  have "BIT_ARRAY_GET [1] 0" using g [of 0] by simp
  then show "affinity_ok xE [1]" unfolding affinity_ok_def xE_def by (auto intro!: exI [of _ 0])
qed

lemma quiet_same:
  assumes "quiet E c s" "same_hw s s'" "ks_ctx s' = ks_ctx s"
  shows "quiet E c s'"
  using assms by (simp add: quiet_def same_hw_def)

lemma x0_rep: "rep xE x0 empty_view"
  by (rule boot_rep) (simp add: boot_state_def x0_def xE_def xtd_def)

lemma x0_quiet: "quiet xE c x0"
proof -
  have "bit (2 ^ 9 :: u64) 9" by (simp only: bit_exp_iff) simp
  then have "bit (0x200 :: u64) 9" by simp
  then show ?thesis by (auto simp: quiet_def x0_def kernel_locks_def xframe_def)
qed

lemma x0_facts: "ks_thr x0 tA = xtd 0x300000" "ks_thr x0 tB = xtd 0x301000" "ks_stamp x0 = 0"
  "attachable xE x0 tA" "attachable xE x0 tB"
  using x_aff(1) by (simp_all add: x0_def xtd_def attachable_def)

definition "dA = attached_td 0 (xtd 0x300000)"
definition "dB = attached_td 1 (xtd 0x301000)"
definition "rA = running_td 0 (update_priority_quantum dA)"
definition "rB = running_td 0 (update_priority_quantum dB)"

lemmas td_defs = dA_def dB_def rA_def rB_def xtd_def attached_td_def running_td_def update_priority_quantum_def

lemma ids: "idA \<noteq> idB" "get_stamp_id_ptr idA = tA" "get_stamp_id_ptr idB = tB"
  "get_stamp_id_stamp idA = 0" "get_stamp_id_stamp idB = 1"
proof -
  have ok: "ptr_ok tA" "ptr_ok tB" "stamp_ok 0" "stamp_ok 1" by (simp_all add: ptr_ok_def stamp_ok_def)
  show "get_stamp_id_ptr idA = tA" "get_stamp_id_ptr idB = tB"
    "get_stamp_id_stamp idA = 0" "get_stamp_id_stamp idB = 1"
    using ok by simp_all
  then show "idA \<noteq> idB" by auto
qed

lemma find_by_core:
  assumes "core (ks_thr s (get_stamp_id_ptr i)) = core td" "td_magic td = THREAD_MAGIC" "td_stamp td = get_stamp_id_stamp i"
  shows "find_thread i s = Inr (get_stamp_id_ptr i)"
  using core_fields [OF assms(1)] assms(2,3) by (simp add: find_thread_def WITH_STAMP_ID_Inr)

lemma x1: "rep xE x1 v1" "same_hw x0 x1" "core (ks_thr x1 tA) = core dA" "core (ks_thr x1 tB) = core (xtd 0x301000)"
  "ks_mem x1 = ks_mem x0" "ks_ctx x1 = ks_ctx x0" "ks_stamp x1 = 1"
  "attach_thread xE 1 tA True x0 = (ERR_NONE, Some idA, x1)"
proof -
  have t: "tA \<noteq> NULL" "ptr_ok tA" "td_magic (ks_thr x0 tA) \<noteq> THREAD_MAGIC"
    by (simp_all add: ptr_ok_def x0_facts) (simp add: xtd_def)
  have len: "length (v_all empty_view) < 2 ^ 31 - 2" by (simp add: empty_view_def)
  obtain s' where s': "attach_thread xE 1 tA True x0 = (ERR_NONE, if True then Some (get_stamp_id tA (ks_stamp x0)) else None, s')"
    "rep xE s' (v_attach tA empty_view)" "same_hw x0 s'" "core (ks_thr s' tA) = core (attached_td (ks_stamp x0) (ks_thr x0 tA))"
    "\<And>a. a \<noteq> tA \<Longrightarrow> core (ks_thr s' a) = core (ks_thr x0 a)" "ks_ctx s' = ks_ctx x0" "ks_mem s' = ks_mem x0"
    "ks_stamp s' = snd (assign_stamp_id_stamp (ks_stamp x0))"
    by (rule attach_thread_rep [OF x0_rep x0_quiet t x0_facts(4) len]) (rule that)
  have "x1 = s'" by (simp only: x1_def s'(1) snd_conv)
  moreover have "snd (assign_stamp_id_stamp 0) = 1" by code_simp
  ultimately show "rep xE x1 v1" "same_hw x0 x1" "core (ks_thr x1 tA) = core dA" "core (ks_thr x1 tB) = core (xtd 0x301000)"
    "ks_mem x1 = ks_mem x0" "ks_ctx x1 = ks_ctx x0" "ks_stamp x1 = 1" "attach_thread xE 1 tA True x0 = (ERR_NONE, Some idA, x1)"
    using s' s'(5) [of tB] by (simp_all add: v1_def dA_def x0_facts)
qed

lemma x1_quiet: "quiet xE c x1"
  by (rule quiet_same [OF x0_quiet x1(2,6)])

lemma x2: "rep xE x2 v2" "same_hw x1 x2" "core (ks_thr x2 tA) = core dA" "core (ks_thr x2 tB) = core dB"
  "ks_mem x2 = ks_mem x0" "ks_ctx x2 = ks_ctx x0"
  "attach_thread xE 1 tB True x1 = (ERR_NONE, Some idB, x2)"
proof -
  have cB: "core (ks_thr x1 tB) = core (xtd 0x301000)" by (rule x1(4))
  note f = core_fields [OF cB]
  have t: "tB \<noteq> NULL" "ptr_ok tB" "td_magic (ks_thr x1 tB) \<noteq> THREAD_MAGIC" "attachable xE x1 tB"
    using f x_aff(1) by (simp_all add: ptr_ok_def attachable_def x1(5)) (simp_all add: xtd_def x0_def)
  have len: "length (v_all v1) < 2 ^ 31 - 2" by (simp add: v1_def v_attach_def empty_view_def)
  obtain s' where s': "attach_thread xE 1 tB True x1 = (ERR_NONE, if True then Some (get_stamp_id tB (ks_stamp x1)) else None, s')"
    "rep xE s' (v_attach tB v1)" "same_hw x1 s'" "core (ks_thr s' tB) = core (attached_td (ks_stamp x1) (ks_thr x1 tB))"
    "\<And>a. a \<noteq> tB \<Longrightarrow> core (ks_thr s' a) = core (ks_thr x1 a)" "ks_ctx s' = ks_ctx x1" "ks_mem s' = ks_mem x1"
    by (rule attach_thread_rep [OF x1(1) x1_quiet t len]) (rule that)
  have e: "x2 = s'" by (simp only: x2_def s'(1) snd_conv)
  have "core (attached_td st x) = core (attached_td st y)" if "core x = core y" for st x y
    using that by (cases x; cases y; simp add: core_def attached_td_def)
  from this [OF cB, of 1] show "rep xE x2 v2" "same_hw x1 x2" "core (ks_thr x2 tA) = core dA" "core (ks_thr x2 tB) = core dB"
    "ks_mem x2 = ks_mem x0" "ks_ctx x2 = ks_ctx x0" "attach_thread xE 1 tB True x1 = (ERR_NONE, Some idB, x2)"
    using s' s'(5) [of tA] x1(3,5-7) by (simp_all add: e v2_def dB_def)
qed

lemma x2_quiet: "quiet xE c x2"
  by (rule quiet_same [OF x1_quiet x2(2)]) (simp add: x2(6) x1(6))

lemma x2_find: "find_thread idA x2 = Inr tA" "find_thread idB x2 = Inr tB"
  using find_by_core [of x2 idA dA] find_by_core [of x2 idB dB] x2(3,4)
  by (simp_all add: ids) (simp_all add: td_defs)

lemma least_is_0: "least_loaded L (BIT_ARRAY_GET [1]) {..<m_cpus xE} k \<Longrightarrow> k = 0"
  using x_aff(2) [of k] by (auto simp: least_loaded_def xE_def)

lemma resume_example:
  assumes rep: "rep xE s v" and q: "\<And>c. quiet xE c s"
    and t: "find_thread i s = Inr t" "core (ks_thr s t) = core td" "td_state td = THREAD_STATE_PAUSED"
      "td_affinity td = [1]" "td_priority td = 2"
  obtains s' where "resume_thread xE 1 i s = Ret (ERR_NONE, s')" "rep xE s' (v_resume 0 2 t v)"
    "same_hw s s'" "core (ks_thr s' t) = core (running_td 0 (update_priority_quantum td))"
    "\<And>a. a \<noteq> t \<Longrightarrow> core (ks_thr s' a) = core (ks_thr s a)" "ks_ctx s' = ks_ctx s" "ks_mem s' = ks_mem s"
    "\<And>c. quiet xE c s'" "ks_fs_base s' = ks_fs_base s"
    "cd_current_priority (ks_cpus s' 0) = (if load (v_queue v 0) = 0 then 2 else cd_current_priority (ks_cpus s 0))"
    "cd_load_context (ks_cpus s' 0) \<longleftrightarrow> load (v_queue v 0) = 0 \<or> cd_load_context (ks_cpus s 0)"
proof -
  note f = core_fields [OF t(2)]
  have ts: "td_state (ks_thr s t) = THREAD_STATE_PAUSED" using f t(3) by simp
  obtain s' k where a: "resume_thread xE 1 i s = Ret (ERR_NONE, s')" "k < m_cpus xE"
    "least_loaded (\<lambda>c. load (v_queue v c)) (BIT_ARRAY_GET (td_affinity (ks_thr s t))) {..<m_cpus xE} k"
    "rep xE s' (v_resume k (unat (td_priority (ks_thr s t))) t v)" "same_hw s s'"
    "core (ks_thr s' t) = core (running_td k (update_priority_quantum (ks_thr s t)))"
    "\<And>a. a \<noteq> t \<Longrightarrow> core (ks_thr s' a) = core (ks_thr s a)" "ks_ctx s' = ks_ctx s" "ks_mem s' = ks_mem s"
    "ks_fs_base s' = ks_fs_base s"
    "cd_current_priority (ks_cpus s' k) = (if load (v_queue v k) = 0 then int (unat (td_priority (ks_thr s t)))
       else cd_current_priority (ks_cpus s k))"
    "cd_load_context (ks_cpus s' k) \<longleftrightarrow> load (v_queue v k) = 0 \<or> cd_load_context (ks_cpus s k)"
    by (rule resume_thread_rep [OF rep q t(1) ts]) (rule that)
  have k: "k = 0" using a(3) f t(4) least_is_0 by simp
  have "core (running_td 0 (update_priority_quantum (ks_thr s t))) = core (running_td 0 (update_priority_quantum td))"
    using t(2) by (simp add: core_upd core_upq)
  then show ?thesis
    using a f t(5) by (intro that [of s']) (auto simp: k intro: quiet_same [OF q])
qed

lemma queues: "qlist (v_queue v2 c p) = []"
  "qlist (v_queue v3 c p) = (if c = 0 \<and> p = 2 then [tA] else [])"
  "qlist (v_queue v4 c p) = (if c = 0 \<and> p = 2 then [tA, tB] else [])"
  by (simp_all add: v4_def v3_def v2_def v1_def v_resume_def v_attach_def empty_view_def)
    (simp_all add: qlist_def)

lemma loads: "load (v_queue v2 c) = 0" "load (v_queue v3 0) \<noteq> 0" "load (v_queue v4 0) \<noteq> 0"
  unfolding load_0_iff queues by auto

lemma x3: "rep xE x3 v3" "core (ks_thr x3 tA) = core rA" "core (ks_thr x3 tB) = core dB"
  "ks_mem x3 = ks_mem x0" "ks_ctx x3 = ks_ctx x0" "\<And>c. quiet xE c x3"
  "cd_current_priority (ks_cpus x3 0) = 2" "cd_load_context (ks_cpus x3 0)"
proof -
  have d: "td_state dA = THREAD_STATE_PAUSED" "td_affinity dA = [1]" "td_priority dA = 2" by (simp_all add: td_defs)
  obtain s' where s': "resume_thread xE 1 idA x2 = Ret (ERR_NONE, s')" "rep xE s' (v_resume 0 2 tA v2)"
    "same_hw x2 s'" "core (ks_thr s' tA) = core (running_td 0 (update_priority_quantum dA))"
    "\<And>a. a \<noteq> tA \<Longrightarrow> core (ks_thr s' a) = core (ks_thr x2 a)" "ks_ctx s' = ks_ctx x2" "ks_mem s' = ks_mem x2"
    "\<And>c. quiet xE c s'" "ks_fs_base s' = ks_fs_base x2"
    "cd_current_priority (ks_cpus s' 0) = (if load (v_queue v2 0) = 0 then 2 else cd_current_priority (ks_cpus x2 0))"
    "cd_load_context (ks_cpus s' 0) \<longleftrightarrow> load (v_queue v2 0) = 0 \<or> cd_load_context (ks_cpus x2 0)"
    by (rule resume_example [OF x2(1) x2_quiet x2_find(1) x2(3) d]) (rule that)
  have e: "x3 = s'" by (simp only: x3_def s'(1) returned_Ret snd_conv)
  show "rep xE x3 v3" "core (ks_thr x3 tA) = core rA" "core (ks_thr x3 tB) = core dB"
    "ks_mem x3 = ks_mem x0" "ks_ctx x3 = ks_ctx x0" "\<And>c. quiet xE c x3"
    "cd_current_priority (ks_cpus x3 0) = 2" "cd_load_context (ks_cpus x3 0)"
    using loads(1) s' s'(5) [of tB] x2 by (simp_all add: e v3_def rA_def)
qed

lemma x3_find: "find_thread idA x3 = Inr tA" "find_thread idB x3 = Inr tB"
  using find_by_core [of x3 idA rA] find_by_core [of x3 idB dB] x3(2,3)
  by (simp_all add: ids) (simp_all add: td_defs)

lemma x4: "rep xE x4 v4" "core (ks_thr x4 tA) = core rA" "core (ks_thr x4 tB) = core rB"
  "ks_mem x4 = ks_mem x0" "ks_ctx x4 = ks_ctx x0" "\<And>c. quiet xE c x4"
  "cd_current_priority (ks_cpus x4 0) = 2" "cd_load_context (ks_cpus x4 0)"
proof -
  have d: "td_state dB = THREAD_STATE_PAUSED" "td_affinity dB = [1]" "td_priority dB = 2" by (simp_all add: td_defs)
  obtain s' where s': "resume_thread xE 1 idB x3 = Ret (ERR_NONE, s')" "rep xE s' (v_resume 0 2 tB v3)"
    "same_hw x3 s'" "core (ks_thr s' tB) = core (running_td 0 (update_priority_quantum dB))"
    "\<And>a. a \<noteq> tB \<Longrightarrow> core (ks_thr s' a) = core (ks_thr x3 a)" "ks_ctx s' = ks_ctx x3" "ks_mem s' = ks_mem x3"
    "\<And>c. quiet xE c s'" "ks_fs_base s' = ks_fs_base x3"
    "cd_current_priority (ks_cpus s' 0) = (if load (v_queue v3 0) = 0 then 2 else cd_current_priority (ks_cpus x3 0))"
    "cd_load_context (ks_cpus s' 0) \<longleftrightarrow> load (v_queue v3 0) = 0 \<or> cd_load_context (ks_cpus x3 0)"
    by (rule resume_example [OF x3(1) x3(6) x3_find(2) x3(3) d]) (rule that)
  have e: "x4 = s'" by (simp only: x4_def s'(1) returned_Ret snd_conv)
  show "rep xE x4 v4" "core (ks_thr x4 tA) = core rA" "core (ks_thr x4 tB) = core rB"
    "ks_mem x4 = ks_mem x0" "ks_ctx x4 = ks_ctx x0" "\<And>c. quiet xE c x4"
    "cd_current_priority (ks_cpus x4 0) = 2" "cd_load_context (ks_cpus x4 0)"
    using loads(2) x3(7,8) s' s'(5) [of tA] x3 by (simp_all add: e v4_def rB_def)
qed

lemma x4_find: "find_thread idA x4 = Inr tA" "find_thread idB x4 = Inr tB"
  using find_by_core [of x4 idA rA] find_by_core [of x4 idB rB] x4(2,3)
  by (simp_all add: ids) (simp_all add: td_defs)

text \<open>The first timer interrupt on CPU 0.\<close>

lemma x4_cur: "cur_prio (ks_cpus x4 0) = 2" "front v4 (ks_cpus x4 0) 0 = tA" "0 < m_cpus xE"
  by (simp_all add: cur_prio_def x4(7) front_def queues xE_def)

lemma x5_eq: "timer_schedule 0 xframe x4 = Ret (xframe\<lparr>fr_rip := 0x400000\<rparr>, x5)"
  "x5 = x4\<lparr>ks_fs_base := (ks_fs_base x4)(0 := tA), ks_cpus := (ks_cpus x4)(0 := (ks_cpus x4 0)\<lparr>cd_load_context := False\<rparr>)\<rparr>"
  and x5_rep: "rep xE x5 v4"
proof -
  note l = timer_load [OF x4(1) x4_cur(3) loads(3) x4(8), unfolded x4_cur(2)]
  have ctx: "td_context (ks_thr x4 tA) = xframe\<lparr>fr_rip := 0x400000\<rparr>"
    using core_fields(2) [OF x4(2)] by (simp add: td_defs)
  show "x5 = x4\<lparr>ks_fs_base := (ks_fs_base x4)(0 := tA), ks_cpus := (ks_cpus x4)(0 := (ks_cpus x4 0)\<lparr>cd_load_context := False\<rparr>)\<rparr>"
    unfolding x5_def l(1) by simp
  with l ctx show "timer_schedule 0 xframe x4 = Ret (xframe\<lparr>fr_rip := 0x400000\<rparr>, x5)" "rep xE x5 v4" by simp_all
qed

lemma x5: "core (ks_thr x5 tA) = core rA" "core (ks_thr x5 tB) = core rB" "ks_mem x5 = ks_mem x0"
  "ks_ctx x5 = ks_ctx x0" "quiet xE c x5" "\<not> cd_load_context (ks_cpus x5 0)" "cur_prio (ks_cpus x5 0) = 2"
  "front v4 (ks_cpus x5 0) 0 = tA" "find_thread idA x5 = Inr tA" "find_thread idB x5 = Inr tB"
proof -
  have "quiet xE c x5"
    by (rule quiet_same [OF x4(6)]) (simp_all add: x5_eq(2) same_hw_def)
  then show "core (ks_thr x5 tA) = core rA" "core (ks_thr x5 tB) = core rB" "ks_mem x5 = ks_mem x0"
    "ks_ctx x5 = ks_ctx x0" "quiet xE c x5" "\<not> cd_load_context (ks_cpus x5 0)" "cur_prio (ks_cpus x5 0) = 2"
    "front v4 (ks_cpus x5 0) 0 = tA" "find_thread idA x5 = Inr tA" "find_thread idB x5 = Inr tB"
    using x4 x4_cur x4_find by (simp_all add: x5_eq(2) cur_prio_def front_def find_thread_def)
qed

lemma x5_steady: "steady xE x5 v4 0"
proof -
  note fA = core_fields [OF x5(1)] and fB = core_fields [OF x5(2)]
  have "sound_thread x5 tA" "sound_thread x5 tB"
    using fA fB by (simp_all add: sound_thread_def x5(3)) (simp_all add: td_defs x0_def)
  then show ?thesis
    using x5_rep x4_cur(3) loads(3) x5(6) by (simp add: steady_def preempted_def x5(7) queues qset_def)
qed

text \<open>The running thread's time slice used up.\<close>

definition x6 :: kstate where
  "x6 = on_thread tA (\<lambda>td. td\<lparr>td_quantum := 0\<rparr>) x5"

lemma x6: "rep xE x6 v4" "ks_mem x6 (td_stack (ks_thr x6 tA)) = STACK_OVERRUN_MAGIC" "td_quantum (ks_thr x6 tA) = 0"
  "\<not> cd_load_context (ks_cpus x6 0)" "front v4 (ks_cpus x6 0) 0 = tA" "cur_prio (ks_cpus x6 0) = 2"
proof -
  have ta: "tA \<in> set (v_all v4)" by (simp add: v4_def v3_def v2_def v1_def v_resume_def v_attach_def)
  note r = repD [OF x5_rep]
  have "kstruct (m_cpus xE) x6 v4"
    using struct_upd_thread [OF r(2)] by (simp add: x6_def keeps_links_def)
  moreover have "heap_ok xE (ks_thr x6) v4"
    by (rule heap_ok_same [OF r(3) ta, where td = "ks_thr x6 tA"])
      (use core_fields [OF x5(1)] in \<open>auto simp: x6_def upd_thread_apply td_defs\<close>)
  ultimately show "rep xE x6 v4" using r(1,4,6) by (simp add: rep_def x6_def)
  have "sound_thread x5 tA" using x5_steady by (simp add: steady_def x5(7) qset_def queues)
  then show "ks_mem x6 (td_stack (ks_thr x6 tA)) = STACK_OVERRUN_MAGIC" "td_quantum (ks_thr x6 tA) = 0"
    "\<not> cd_load_context (ks_cpus x6 0)" "front v4 (ks_cpus x6 0) 0 = tA" "cur_prio (ks_cpus x6 0) = 2"
    using x5(6,7,8) by (simp_all add: x6_def sound_thread_def upd_thread_apply)
qed

end
