(* ===== verification/Sync_Mutex.thy ===== *)
theory Sync_Mutex
  imports Sync Sched_Frame Sched_Example
begin

text \<open>
  Mutexes: the list of waiting threads is a queue, \<open>acquire_mutex\<close> joins it at its end and
  \<open>release_mutex\<close> wakes the first thread of it that can be resumed.
\<close>

section \<open>What the scheduler's operations leave alone\<close>

lemma sync_more_eq:
  fixes s s' :: "'z sync_scheme"
  assumes "others s' = others s"
  shows "km_next_free s' = km_next_free s" "sy_mutex s' = sy_mutex s" "sy_nodes s' = sy_nodes s"
    "sy_sleep_nodes s' = sy_sleep_nodes s" "sy_sleeping s' = sy_sleeping s"
  using assms by (cases s; cases s'; simp add: others_def)+

lemma sync_lock_simps [simp]:
  "sy_mutex (snd (acquire_spinlock c l n s)) = sy_mutex s" "sy_nodes (snd (acquire_spinlock c l n s)) = sy_nodes s"
  "sy_sleep_nodes (snd (acquire_spinlock c l n s)) = sy_sleep_nodes s"
  "sy_sleeping (snd (acquire_spinlock c l n s)) = sy_sleeping s"
  "km_next_free (snd (acquire_spinlock c l n s)) = km_next_free s"
  "sy_mutex (release_spinlock c l s) = sy_mutex s" "sy_nodes (release_spinlock c l s) = sy_nodes s"
  "sy_sleep_nodes (release_spinlock c l s) = sy_sleep_nodes s" "sy_sleeping (release_spinlock c l s) = sy_sleeping s"
  "sy_mutex (release_spinlock_int l s) = sy_mutex s" "sy_nodes (release_spinlock_int l s) = sy_nodes s"
  "sy_mutex (hw_put b r i s) = sy_mutex s" "sy_nodes (hw_put b r i s) = sy_nodes s"
  "sy_sleep_nodes (hw_put b r i s) = sy_sleep_nodes s" "sy_sleeping (hw_put b r i s) = sy_sleeping s"
  by (simp_all add: sync_more_eq [OF more_lock(1)] sync_more_eq [OF more_lock(2)] sync_more_eq [OF more_lock(3)] hw_put_def)

text \<open>The scheduler's state is the same, apart from the deadlines of the timers.\<close>

definition same_sched :: "'z kstate_scheme \<Rightarrow> 'z kstate_scheme \<Rightarrow> bool" where
  "same_sched s s' \<longleftrightarrow> kstate.truncate (s'\<lparr>ks_timer_ticks := ks_timer_ticks s\<rparr>) = kstate.truncate s"

lemma same_schedD:
  assumes "same_sched s s'"
  shows "hw_busy s' = hw_busy s" "hw_outer s' = hw_outer s" "hw_if s' = hw_if s" "ks_thr s' = ks_thr s" "ks_cpus s' = ks_cpus s"
    "ks_all s' = ks_all s" "ks_inactive s' = ks_inactive s" "ks_stamp s' = ks_stamp s" "ks_fs_base s' = ks_fs_base s"
    "ks_ctx s' = ks_ctx s" "ks_ticks s' = ks_ticks s" "ks_mem s' = ks_mem s"
  using assms by (cases s; cases s'; simp add: same_sched_def kstate.defs)+

lemma same_sched_keeps:
  assumes "same_sched s s'"
  shows "rep E s v \<Longrightarrow> rep E s' v" "quiet E c s \<Longrightarrow> quiet E c s'" "find_thread i s' = find_thread i s"
  using same_schedD [OF assms] by (auto simp: quiet_def find_thread_def intro: rep_only)

lemma same_sched_sync [simp]:
  "same_sched s s" "same_sched s (on_mutex a f s1) \<longleftrightarrow> same_sched s s1" "same_sched s (on_node b g s1) \<longleftrightarrow> same_sched s s1"
  "same_sched s (on_sleep_node b k s1) \<longleftrightarrow> same_sched s s1" "same_sched s (on_sleeping d j s1) \<longleftrightarrow> same_sched s s1"
  "same_sched s (set_timer_ticks d tm s1) \<longleftrightarrow> same_sched s s1"
  by (simp_all add: same_sched_def set_timer_ticks_def on_mutex_def on_node_def on_sleep_node_def on_sleeping_def kstate.defs)

lemma same_sched_trans: "same_sched s s1 \<Longrightarrow> same_sched s1 s2 \<Longrightarrow> same_sched s s2"
  by (cases s; cases s1; cases s2) (simp add: same_sched_def kstate.defs)

text \<open>With a lock of its own taken, an operation can still call into the scheduler.\<close>

lemma quiet_acquire:
  assumes "quiet E c s" "hw_busy s l = 0" "l \<notin> kernel_locks E" "l \<noteq> Lock_null"
  shows "quiet E c (snd (acquire_spinlock c l 0 s))"
  using assms by (auto simp: quiet_def acquire_spinlock_free)

section \<open>The waiting list\<close>

text \<open>Nodes from \<open>tail\<close> on, in the order of their links; \<open>head\<close> is the last.\<close>

fun chain :: "('n \<Rightarrow> ptr) \<Rightarrow> (ptr \<Rightarrow> 'n) \<Rightarrow> ptr \<Rightarrow> ptr list \<Rightarrow> bool" where
  "chain nxt h a [] \<longleftrightarrow> a = NULL"
| "chain nxt h a (n # ns) \<longleftrightarrow> a = n \<and> n \<noteq> NULL \<and> chain nxt h (nxt (h n)) ns"

lemma chain_cong: "(\<And>n. n \<in> set ns \<Longrightarrow> nxt (h' n) = nxt (h n)) \<Longrightarrow> chain nxt h' a ns \<longleftrightarrow> chain nxt h a ns"
  by (induction ns arbitrary: a) auto

lemma chain_null: "chain nxt h NULL ns \<longleftrightarrow> ns = []"
  by (cases ns) auto

lemma chain_nonnull: "chain nxt h a ns \<Longrightarrow> n \<in> set ns \<Longrightarrow> n \<noteq> NULL"
  by (induction ns arbitrary: a) auto

definition waiting :: "'z sync_scheme \<Rightarrow> ptr \<Rightarrow> ptr list \<Rightarrow> bool" where
  "waiting s a ns \<longleftrightarrow> chain mn_next (sy_nodes s) (mx_tail (sy_mutex s a)) ns \<and>
     mx_head (sy_mutex s a) = (if ns = [] then NULL else last ns) \<and> distinct ns"

lemma waiting_cong: "sy_mutex s' = sy_mutex s \<Longrightarrow> sy_nodes s' = sy_nodes s \<Longrightarrow> waiting s' a ns \<longleftrightarrow> waiting s a ns"
  by (simp add: waiting_def)

lemma waiting_empty: "waiting s a ns \<Longrightarrow> mx_tail (sy_mutex s a) = NULL \<longleftrightarrow> ns = []"
  by (cases ns) (auto simp: waiting_def)

lemma dequeue_waiting:
  assumes "waiting s a (n # ns)"
  obtains s1 where "dequeue_node a s = (n, s1)" "waiting s1 a ns" "same_sched s s1" "sy_nodes s1 = sy_nodes s"
    "sy_sleep_nodes s1 = sy_sleep_nodes s" "sy_sleeping s1 = sy_sleeping s" "km_next_free s1 = km_next_free s"
proof (rule that)
  let ?s1 = "snd (dequeue_node a s)"
  show "dequeue_node a s = (n, ?s1)" using assms by (simp add: dequeue_node_def Let_def waiting_def)
  show "waiting ?s1 a ns"
  proof (cases "ns = []")
    case False
    have "n \<notin> set ns" using assms by (simp add: waiting_def)
    then have "last ns \<noteq> n" using last_in_set [OF False] by metis
    then show ?thesis using assms False by (auto simp: dequeue_node_def Let_def waiting_def on_mutex_def)
  qed (use assms in \<open>auto simp: dequeue_node_def Let_def waiting_def on_mutex_def\<close>)
  show "same_sched s ?s1" by (simp add: dequeue_node_def Let_def)
qed (auto simp: dequeue_node_def Let_def on_mutex_def)

lemma enqueue_waiting:
  assumes "waiting s a ns" "node \<noteq> NULL" "node \<notin> set ns"
  shows "waiting (enqueue_node a node i s) a (ns @ [node])" "same_sched s (enqueue_node a node i s)"
    "mn_id (sy_nodes (enqueue_node a node i s) node) = i"
    "n \<noteq> node \<Longrightarrow> mn_id (sy_nodes (enqueue_node a node i s) n) = mn_id (sy_nodes s n)"
proof -
  let ?s = "enqueue_node a node i s"
  show "same_sched s ?s" by (simp add: enqueue_node_def Let_def)
  show "mn_id (sy_nodes ?s node) = i" "n \<noteq> node \<Longrightarrow> mn_id (sy_nodes ?s n) = mn_id (sy_nodes s n)"
    by (auto simp: enqueue_node_def Let_def on_mutex_def on_node_def)
  show "waiting ?s a (ns @ [node])"
  proof (cases ns rule: rev_cases)
    case Nil
    then show ?thesis using assms by (simp add: waiting_def enqueue_node_def Let_def on_mutex_def on_node_def)
  next
    case (snoc ms m)
    then have "m \<noteq> NULL" using assms(1) by (auto simp: waiting_def dest: chain_nonnull)
    note snoc = snoc this
    have nodes: "mn_next (sy_nodes ?s n) = (if n = m then node else if n = node then NULL else mn_next (sy_nodes s n))" for n
      using assms snoc by (auto simp: waiting_def enqueue_node_def Let_def on_mutex_def on_node_def)
    have mx: "mx_tail (sy_mutex ?s a) = mx_tail (sy_mutex s a)" "mx_head (sy_mutex ?s a) = node"
      using assms snoc by (auto simp: waiting_def enqueue_node_def Let_def on_mutex_def on_node_def chain_null)
    have "chain mn_next (sy_nodes ?s) x (ks @ [m, node])" if "chain mn_next (sy_nodes s) x (ks @ [m])" "node \<notin> set ks" "m \<notin> set ks" for x ks
      using that assms(2,3) snoc by (induction ks arbitrary: x) (auto simp: nodes)
    then show ?thesis using assms snoc mx by (auto simp: waiting_def)
  qed
qed

section \<open>Waking\<close>

definition resumable :: "'z kstate_scheme \<Rightarrow> stamp_id \<Rightarrow> bool" where
  "resumable s i \<longleftrightarrow> (case find_thread i s of Inl _ \<Rightarrow> False | Inr t \<Rightarrow> td_state (ks_thr s t) = THREAD_STATE_PAUSED)"

lemma resumable_same: "same_sched s s' \<Longrightarrow> resumable s' i \<longleftrightarrow> resumable s i"
  by (simp add: resumable_def same_sched_keeps(3) same_schedD split: sum.splits)

lemma resume_not_resumable:
  assumes "rep E s v" "quiet E c s" "\<not> resumable s i"
  shows "\<exists>err. resume_thread E c i s = Ret (err, s) \<and> err \<noteq> ERR_NONE"
proof (cases "find_thread i s")
  case (Inl e)
  have "e \<noteq> ERR_NONE" by (rule find_cases [OF assms(1), of i]) (use Inl in auto)
  then show ?thesis using Inl resume_thread_error [OF assms(2), where i = i and err = e] by auto
next
  case (Inr t)
  then show ?thesis using assms(3) resume_thread_error [OF assms(2), where i = i and err = ERR_BAD_STATE] by (auto simp: resumable_def)
qed

lemma awake_loop_skip:
  assumes "rep E s v" "quiet E c s" "waiting s a (n # ns)" "\<not> resumable s (mn_id (sy_nodes s n))"
  obtains s1 where "awake_loop E c a s = (if ns \<noteq> [] then awake_loop E c a s1 else Some (Ret s1))"
    "waiting s1 a ns" "same_sched s s1" "sy_nodes s1 = sy_nodes s" "sy_sleep_nodes s1 = sy_sleep_nodes s"
    "sy_sleeping s1 = sy_sleeping s"
proof -
  obtain s1 where s1: "dequeue_node a s = (n, s1)" "waiting s1 a ns" "same_sched s s1" "sy_nodes s1 = sy_nodes s"
    "sy_sleep_nodes s1 = sy_sleep_nodes s" "sy_sleeping s1 = sy_sleeping s"
    by (rule dequeue_waiting [OF assms(3)]) (rule that)
  obtain err where err: "resume_thread E c (mn_id (sy_nodes s1 n)) s1 = Ret (err, s1)" "err \<noteq> ERR_NONE"
    using resume_not_resumable [OF same_sched_keeps(1,2) [OF s1(3)], of E v c "mn_id (sy_nodes s1 n)"] assms s1
    by (auto simp: resumable_same)
  show thesis
    by (rule that [OF _ s1(2-6)])
      (subst awake_loop.simps, simp add: s1(1) err free_block_def waiting_empty [OF s1(2)])
qed

lemma awake_loop_none:
  assumes "rep E s v" "quiet E c s" "waiting s a ns" "ns \<noteq> []" "\<And>n. n \<in> set ns \<Longrightarrow> \<not> resumable s (mn_id (sy_nodes s n))"
  shows "\<exists>s1. awake_loop E c a s = Some (Ret s1) \<and> waiting s1 a [] \<and> same_sched s s1"
  using assms
proof (induction ns arbitrary: s)
  case (Cons n ns)
  obtain s1 where s1: "awake_loop E c a s = (if ns \<noteq> [] then awake_loop E c a s1 else Some (Ret s1))"
    "waiting s1 a ns" "same_sched s s1" "sy_nodes s1 = sy_nodes s"
    by (rule awake_loop_skip [OF Cons.prems(1-3)]) (use Cons.prems(5) that in auto)
  show ?case
  proof (cases "ns = []")
    case False
    then show ?thesis
      using Cons.IH [OF same_sched_keeps(1,2) [OF s1(3)] s1(2) False] Cons.prems s1 same_sched_trans [OF s1(3)]
      by (auto simp: resumable_same)
  qed (use s1 in auto)
qed simp

text \<open>The first waiter that can be resumed is; those before it are dropped.\<close>

definition woken :: "machine \<Rightarrow> view \<Rightarrow> 'z kstate_scheme \<Rightarrow> stamp_id \<Rightarrow> 'z kstate_scheme \<Rightarrow> bool" where
  "woken E v s i s' \<longleftrightarrow> (\<exists>t k. find_thread i s = Inr t \<and>
     least_loaded (\<lambda>c. load (v_queue v c)) (BIT_ARRAY_GET (td_affinity (ks_thr s t))) {..<m_cpus E} k \<and>
     rep E s' (v_resume k (unat (td_priority (ks_thr s t))) t v) \<and> td_state (ks_thr s' t) = THREAD_STATE_RUNNING \<and>
     (\<forall>u. u \<noteq> t \<longrightarrow> core (ks_thr s' u) = core (ks_thr s u)))"

lemma resume_woken:
  assumes "rep E s v" "quiet E c s" "resumable s i"
  obtains s' where "resume_thread E c i s = Ret (ERR_NONE, s')" "woken E v s i s'" "same_hw s s'"
    "others s' = others s" "ks_ctx s' = ks_ctx s"
proof -
  obtain t where t: "find_thread i s = Inr t" "td_state (ks_thr s t) = THREAD_STATE_PAUSED"
    using assms(3) by (auto simp: resumable_def split: sum.splits)
  obtain s' k where s': "resume_thread E c i s = Ret (ERR_NONE, s')"
    "least_loaded (\<lambda>c. load (v_queue v c)) (BIT_ARRAY_GET (td_affinity (ks_thr s t))) {..<m_cpus E} k"
    "rep E s' (v_resume k (unat (td_priority (ks_thr s t))) t v)" "same_hw s s'"
    "core (ks_thr s' t) = core (running_td k (update_priority_quantum (ks_thr s t)))"
    "\<And>a. a \<noteq> t \<Longrightarrow> core (ks_thr s' a) = core (ks_thr s a)" "ks_ctx s' = ks_ctx s"
    by (rule resume_thread_rep [OF assms(1,2) t]) (rule that)
  have "td_state (ks_thr s' t) = THREAD_STATE_RUNNING" using core_fields [OF s'(5)] by (simp add: running_td_def)
  then have "woken E v s i s'" using t(1) s'(2,3,6) by (auto simp: woken_def)
  then show thesis using that s'(1,4,7) resume_thread_more [OF s'(1)] by blast
qed

lemma woken_same: "same_sched s s1 \<Longrightarrow> woken E v s1 i s' \<Longrightarrow> woken E v s i s'"
  by (simp add: woken_def same_schedD same_sched_keeps(3))

lemma awake_loop_first:
  assumes "rep E s v" "quiet E c s" "waiting s a (pre @ n # ns)" "\<And>m. m \<in> set pre \<Longrightarrow> \<not> resumable s (mn_id (sy_nodes s m))"
    and "resumable s (mn_id (sy_nodes s n))"
  shows "\<exists>s'. awake_loop E c a s = Some (Ret s') \<and> waiting s' a ns \<and> woken E v s (mn_id (sy_nodes s n)) s' \<and>
    same_hw s s' \<and> sy_nodes s' = sy_nodes s"
  using assms
proof (induction pre arbitrary: s)
  case Nil
  obtain s1 where s1: "dequeue_node a s = (n, s1)" "waiting s1 a ns" "same_sched s s1" "sy_nodes s1 = sy_nodes s"
    by (rule dequeue_waiting [of s a n ns]) (use Nil.prems(3) that in auto)
  have "resumable s1 (mn_id (sy_nodes s1 n))" using Nil.prems(5) s1 by (simp add: resumable_same)
  then obtain s' where s': "resume_thread E c (mn_id (sy_nodes s1 n)) s1 = Ret (ERR_NONE, s')"
    "woken E v s1 (mn_id (sy_nodes s1 n)) s'" "same_hw s1 s'" "others s' = others s1"
    by (rule resume_woken [OF same_sched_keeps(1,2) [OF s1(3)], OF Nil.prems(1,2)]) (rule that)
  have w: "waiting s' a ns" using waiting_cong [OF sync_more_eq(2,3) [OF s'(4)]] s1(2) by simp
  have "same_hw s s'" using s'(3) same_schedD(1-3) [OF s1(3)] by (simp add: same_hw_def)
  moreover have "awake_loop E c a s = Some (Ret s')"
    by (subst awake_loop.simps) (simp add: s1(1) s'(1) free_block_def)
  moreover have "woken E v s (mn_id (sy_nodes s n)) s'" using woken_same [OF s1(3) s'(2)] s1(4) by simp
  ultimately show ?case using w sync_more_eq(3) [OF s'(4)] s1(4) by auto
next
  case (Cons m pre)
  obtain s1 where s1: "awake_loop E c a s = awake_loop E c a s1" "waiting s1 a (pre @ n # ns)" "same_sched s s1"
    "sy_nodes s1 = sy_nodes s"
    by (rule awake_loop_skip [OF Cons.prems(1,2), of a m "pre @ n # ns"]) (use Cons.prems(3,4) that in auto)
  have "\<exists>s'. awake_loop E c a s1 = Some (Ret s') \<and> waiting s' a ns \<and> woken E v s1 (mn_id (sy_nodes s1 n)) s' \<and>
      same_hw s1 s' \<and> sy_nodes s' = sy_nodes s1"
    by (rule Cons.IH [OF same_sched_keeps(1,2) [OF s1(3)] s1(2)])
      (use Cons.prems s1 in \<open>auto simp: resumable_same\<close>)
  then show ?case using woken_same [OF s1(3)] same_schedD(1-3) [OF s1(3)] s1 by (auto simp: same_hw_def)
qed

section \<open>Releasing and acquiring\<close>

definition mutex_ready :: "machine \<Rightarrow> nat \<Rightarrow> ptr \<Rightarrow> 'z sync_scheme \<Rightarrow> bool" where
  "mutex_ready E c a s \<longleftrightarrow> quiet E c s \<and> lock_free c (Lock_ilock a) s"

lemma mutex_locks: "Lock_ilock a \<notin> kernel_locks E" "Lock_mlock a \<notin> kernel_locks E" "Lock_sleep k \<notin> kernel_locks E"
  by (auto simp: kernel_locks_def)

lemma hw_put_sync [simp]:
  "find_thread i (hw_put b r f s) = find_thread i s" "resumable (hw_put b r f s) i \<longleftrightarrow> resumable s i"
  "woken E v (hw_put b r f s) i s' \<longleftrightarrow> woken E v s i s'" "woken E v s i (hw_put b r f s') \<longleftrightarrow> woken E v s i s'"
  "waiting (hw_put b r f s) a ns \<longleftrightarrow> waiting s a ns"
  by (simp_all add: find_thread_def resumable_def woken_def waiting_def cong: sum.case_cong)

lemma release_int_eq: "release_spinlock_int l s = hw_put ((hw_busy s)(l := 0)) (hw_outer s) (hw_if s) s"
  by (simp add: release_spinlock_int_def hw_put_def)

lemma release_after:
  assumes "lock_free c l s" "same_hw (snd (acquire_spinlock c l 0 s)) s'"
  shows "same_hw s (release_spinlock c l s')"
  using assms by (auto simp: lock_free_def same_hw_def acquire_spinlock_free release_spinlock_eq fun_eq_iff)

lemma release_mutex_wakes:
  assumes "rep E s v" "mutex_ready E c a s" "waiting s a (pre @ n # ns)"
    and "\<And>m. m \<in> set pre \<Longrightarrow> \<not> resumable s (mn_id (sy_nodes s m))" "resumable s (mn_id (sy_nodes s n))"
  shows "\<exists>s'. release_mutex E c a s = Ret s' \<and> waiting s' a ns \<and> woken E v s (mn_id (sy_nodes s n)) s' \<and>
    hw_outer s' = hw_outer s \<and> hw_if s' = hw_if s \<and>
    hw_busy s' = (if ns = [] then (hw_busy s)(Lock_mlock a := 0) else hw_busy s)"
proof -
  define s1 where "s1 = snd (acquire_spinlock c (Lock_ilock a) 0 s)"
  have q: "quiet E c s" and l: "lock_free c (Lock_ilock a) s" using assms(2) by (auto simp: mutex_ready_def)
  have e1: "s1 = hw_put (hw_busy s1) (hw_outer s1) (hw_if s1) s" using l by (simp add: s1_def acquire_spinlock_free lock_free_def)
  have s1: "rep E s1 v" "waiting s1 a (pre @ n # ns)" "\<And>i. resumable s1 i \<longleftrightarrow> resumable s i"
    "\<And>i s'. woken E v s1 i s' \<longleftrightarrow> woken E v s i s'" "sy_nodes s1 = sy_nodes s"
    by (subst e1, use assms(1,3) in simp)+
  have q1: "quiet E c s1" using quiet_acquire [OF q] l mutex_locks(1) by (simp add: s1_def lock_free_def)
  obtain s2 where s2: "awake_loop E c a s1 = Some (Ret s2)" "waiting s2 a ns" "woken E v s (mn_id (sy_nodes s n)) s2" "same_hw s1 s2"
    using awake_loop_first [OF s1(1) q1 s1(2)] s1(3-5) assms(4,5) by auto
  define s3 where "s3 = (if ns = [] then release_spinlock_int (Lock_mlock a) s2 else s2)"
  have r: "release_mutex E c a s = Ret (release_spinlock c (Lock_ilock a) s3)"
    using waiting_empty [OF s1(2)] waiting_empty [OF s2(2)] s2(1)
    by (simp add: release_mutex_def awake_in_mutex_def Let_def s1_def [symmetric] s3_def)
  have hw: "same_hw s (release_spinlock c (Lock_ilock a) s2)"
    by (rule release_after [OF l]) (use s2(4) in \<open>simp add: s1_def\<close>)
  have "release_spinlock c (Lock_ilock a) s3 = hw_put
      (if ns = [] then (hw_busy (release_spinlock c (Lock_ilock a) s2))(Lock_mlock a := 0)
       else hw_busy (release_spinlock c (Lock_ilock a) s2))
      (hw_outer (release_spinlock c (Lock_ilock a) s2)) (hw_if (release_spinlock c (Lock_ilock a) s2)) s2"
    by (simp add: s3_def release_spinlock_eq release_int_eq fun_upd_twist)
  then show ?thesis using r s2(2,3) hw by (auto simp: same_hw_def)
qed

text \<open>A waiter joins the end of the list, whatever the state of the others, and pauses.\<close>

definition queued :: "machine \<Rightarrow> view \<Rightarrow> nat \<Rightarrow> 'z kstate_scheme \<Rightarrow> 'z kstate_scheme \<Rightarrow> bool" where
  "queued E v c s s' \<longleftrightarrow> (let t = get_thread_ptr c s in
     rep E s' (v_pause c (unat (td_priority (ks_thr s t))) t v) \<and> td_state (ks_thr s' t) = THREAD_STATE_PAUSED \<and>
     td_context (ks_thr s' t) = store_int_enabled (ks_ctx s c) \<and>
     hw_busy s' = hw_busy s \<and> hw_outer s' = (hw_outer s)(c := Lock_null) \<and> hw_if s' = (hw_if s)(c := True) \<and>
     ks_ctx s' = (ks_ctx s)(c := store_halt E (store_int_enabled (ks_ctx s c))))"

text \<open>Pausing with a lock that was taken, on an allocated and initialised node.\<close>

lemma pause_queued:
  assumes "rep E s v" "quiet E c s" "get_thread_ptr c s \<noteq> NULL" "c < m_cpus E" "hw_busy s l = 0" "l \<notin> kernel_locks E" "l \<noteq> Lock_null"
    and "s1 = snd (acquire_spinlock c l 0 s)" "same_sched s1 s2"
  obtains s' where "pause_this_thread E c l s2 = Ret (ERR_NONE, s')" "queued E v c s s'" "others s' = others s2"
proof -
  have e1: "s1 = hw_put ((hw_busy s)(l := 1)) (hw_outer s1) (hw_if s1) s"
    "hw_outer s1 = (hw_outer s)(c := hw_outer s1 c)" "hw_if s1 = (hw_if s)(c := hw_if s1 c)"
    using assms(5,8) by (simp_all add: acquire_spinlock_free)
  have 1: "rep E s1 v" by (subst e1(1)) (use assms(1) in simp)
  have f1: "ks_thr s1 = ks_thr s" "ks_ctx s1 = ks_ctx s" "ks_fs_base s1 = ks_fs_base s" by (simp_all add: assms(8) acquire_kstate)
  have q1: "quiet E c s1" unfolding assms(8) by (rule quiet_acquire [OF assms(2,5-7)])
  let ?t = "get_thread_ptr c s"
  have t: "get_thread_ptr c s2 = ?t" using same_schedD(9) [OF assms(9)] f1 by (simp add: get_thread_ptr_def)
  obtain s' where s': "pause_this_thread E c l s2 = Ret (ERR_NONE, s')"
    "rep E s' (v_pause c (unat (td_priority (ks_thr s2 ?t))) ?t v)" "halt_hw c l s2 s'"
    "td_state (ks_thr s' ?t) = THREAD_STATE_PAUSED" "td_context (ks_thr s' ?t) = store_int_enabled (ks_ctx s2 c)"
    "ks_ctx s' = (ks_ctx s2)(c := store_halt E (store_int_enabled (ks_ctx s2 c)))"
    using pause_this_thread_rep [OF same_sched_keeps(1,2) [OF assms(9)], OF 1 q1 t assms(3,4), of l] by blast
  have m: "others s' = others s2" using deactivate_thread_more s'(1) unfolding pause_this_thread_def by blast
  have hw: "hw_busy s1 = (hw_busy s)(l := 1)" "hw_outer s1 = (hw_outer s)(c := hw_outer s1 c)" "hw_if s1 = (hw_if s)(c := hw_if s1 c)"
    using assms(5,8) by (simp_all add: acquire_spinlock_free)
  have "hw_busy s' = hw_busy s" "hw_outer s' = (hw_outer s)(c := Lock_null)" "hw_if s' = (hw_if s)(c := True)"
    using s'(3) same_schedD(1-3) [OF assms(9)] hw assms(5,7) by (auto simp: halt_hw_def fun_eq_iff)
  then have "queued E v c s s'"
    using s'(2,4-6) same_schedD [OF assms(9)] f1 by (simp add: queued_def Let_def)
  then show thesis using that s'(1) m by blast
qed

lemma kmalloc_locked:
  assumes "lock_free c Lock_mem s" "hw_busy s l = 0" "l \<noteq> Lock_mem" "l \<noteq> Lock_null" "s1 = snd (acquire_spinlock c l 0 s)"
    and "same_sched s1 s2"
  shows "kmalloc c n s2 = (km_next_free s2, s2\<lparr>km_next_free := km_next_free s2 + n\<rparr>)"
proof (rule kmalloc_eq)
  have "hw_busy s2 = (hw_busy s)(l := 1)" "hw_outer s2 c = (if hw_outer s c = Lock_null then l else hw_outer s c)"
    using same_schedD(1-3) [OF assms(6)] assms(2,5) by (simp_all add: acquire_spinlock_free)
  then show "lock_free c Lock_mem s2" using assms(1,3,4) by (auto simp: lock_free_def)
qed

lemma same_sched_alloc [simp]: "same_sched s (s1\<lparr>km_next_free := x\<rparr>) \<longleftrightarrow> same_sched s s1"
  by (simp add: same_sched_def kstate.defs)

lemma acquire_mutex_waits:
  assumes "rep E s v" "mutex_ready E c a s" "lock_free c Lock_mem s" "waiting s a ns" "hw_busy s (Lock_mlock a) = 1"
    and "get_thread_ptr c s \<noteq> NULL" "c < m_cpus E" "km_next_free s \<noteq> NULL" "km_next_free s \<notin> set ns"
  shows "\<exists>s'. acquire_mutex E c a s = Ret (ERR_NONE, s') \<and> waiting s' a (ns @ [km_next_free s]) \<and> queued E v c s s' \<and>
    mn_id (sy_nodes s' (km_next_free s)) = get_thread c s \<and>
    (\<forall>n. n \<noteq> km_next_free s \<longrightarrow> mn_id (sy_nodes s' n) = mn_id (sy_nodes s n))"
proof -
  define s1 where "s1 = snd (acquire_spinlock c (Lock_ilock a) 0 s)"
  have q: "quiet E c s" and l: "hw_busy s (Lock_ilock a) = 0" using assms(2) by (auto simp: mutex_ready_def lock_free_def)
  have m: "acquire_spinlock_int (Lock_mlock a) n s = (False, s)" "acquire_spinlock_int (Lock_mlock a) n s1 = (False, s1)" for n
    using assms(5) l by (simp_all add: acquire_spinlock_int_eq s1_def acquire_spinlock_free hw_put_def fun_upd_idem cong: if_cong)
  let ?n = "km_next_free s" and ?sz = "mp_block_size (mx_pool (sy_mutex s1 a))"
  define s2 where "s2 = s1\<lparr>km_next_free := ?n + ?sz\<rparr>"
  have al: "alloc_block c (mx_pool (sy_mutex s1 a)) s1 = (?n, s2)"
    unfolding alloc_block_def s2_def using kmalloc_locked [OF assms(3) l _ _ s1_def, of s1] by (simp add: s1_def)
  have w2: "waiting s2 a ns" "sy_nodes s2 = sy_nodes s" using assms(4) by (simp_all add: waiting_def s2_def s1_def)
  have i: "get_thread c s2 = get_thread c s" by (simp add: get_thread_def get_thread_ptr_def s2_def s1_def acquire_kstate Let_def)
  note e = enqueue_waiting [OF w2(1) assms(8,9), where i = "get_thread c s"]
  have ss: "same_sched s1 (enqueue_node a ?n (get_thread c s) s2)" by (rule same_sched_trans [OF _ e(2)]) (simp add: s2_def)
  obtain s' where s': "pause_this_thread E c (Lock_ilock a) (enqueue_node a ?n (get_thread c s) s2) = Ret (ERR_NONE, s')"
    "queued E v c s s'" "others s' = others (enqueue_node a ?n (get_thread c s) s2)"
    by (rule pause_queued [OF assms(1) q assms(6,7) l mutex_locks(1) _ s1_def ss]) (simp, rule that)
  have "acquire_mutex E c a s = Ret (ERR_NONE, s')"
    using assms(8) s'(1) by (simp add: acquire_mutex_def sleep_in_mutex_def m s1_def [symmetric] al i Let_def)
  moreover have "waiting s' a (ns @ [?n])" using waiting_cong [OF sync_more_eq(2,3) [OF s'(3)]] e(1) by simp
  ultimately show ?thesis using s'(2) e(3,4) w2(2) by (simp add: sync_more_eq(3) [OF s'(3)])
qed

section \<open>A concrete mutex\<close>

text \<open>A mutex at \<open>0x500\<close>, taken, with the given list, in a state of the scheduler.\<close>

definition with_mutex :: "kstate \<Rightarrow> ptr \<Rightarrow> ptr \<Rightarrow> (ptr \<Rightarrow> mutex_node) \<Rightarrow> sync" where
  "with_mutex k head tail nodes = \<lparr>hw_busy = (hw_busy x0)(Lock_mlock 0x500 := 1), hw_outer = hw_outer x0, hw_if = hw_if x0, hw_spun = hw_spun x0,
     ks_thr = ks_thr k, ks_mem = ks_mem k, ks_cpus = ks_cpus k, ks_all = ks_all k, ks_inactive = ks_inactive k,
     ks_stamp = ks_stamp k, ks_ticks = ks_ticks k, ks_timer_ticks = ks_timer_ticks k, ks_timer_proc = ks_timer_proc k,
     ks_ctx = ks_ctx k, ks_fs_base = ks_fs_base k, ks_eoi = ks_eoi k, km_next_free = 0x10000,
     sy_mutex = \<lambda>_. \<lparr>mx_head = head, mx_tail = tail, mx_pool = \<lparr>mp_block_size = 16\<rparr>\<rparr>, sy_nodes = nodes,
     sy_sleep_nodes = \<lambda>_. \<lparr>sn_next = NULL, sn_thread = 0, sn_ticks = 0\<rparr>,
     sy_sleeping = \<lambda>_. \<lparr>sd_tail = NULL, sd_pool = \<lparr>mp_block_size = 24\<rparr>\<rparr>\<rparr>"

lemma with_mutex:
  assumes "rep xE k v" "ks_ctx k = ks_ctx x0"
  shows "rep xE (with_mutex k head tail nodes) v" "mutex_ready xE c 0x500 (with_mutex k head tail nodes)"
    "lock_free c Lock_mem (with_mutex k head tail nodes)" "find_thread i (with_mutex k head tail nodes) = find_thread i k"
  using assms(2) x0_quiet [of c]
  by (auto simp: with_mutex_def mutex_ready_def quiet_def lock_free_def x0_def find_thread_def mutex_locks
      intro: rep_only [OF assms(1)])

definition xnodes :: "stamp_id \<Rightarrow> stamp_id \<Rightarrow> ptr \<Rightarrow> ptr \<Rightarrow> mutex_node" where
  "xnodes i j next1 = (\<lambda>a. if a = 0x600 then \<lparr>mn_next = next1, mn_id = i\<rparr> else \<lparr>mn_next = NULL, mn_id = j\<rparr>)"

lemma with_waiters:
  "waiting (with_mutex k NULL NULL nodes) 0x500 []"
  "waiting (with_mutex k 0x600 0x600 (xnodes i j NULL)) 0x500 [0x600]"
  "waiting (with_mutex k 0x700 0x600 (xnodes i j 0x700)) 0x500 [0x600, 0x700]"
  by (simp_all add: waiting_def with_mutex_def xnodes_def)

lemma x2_resumable: "resumable (with_mutex x2 head tail nodes) idA"
  using x2(1) x2(6) x2_find(1) core_fields [OF x2(3)]
  by (simp add: resumable_def with_mutex(4)) (simp add: with_mutex_def td_defs)

section \<open>Properties\<close>

text \<open>C14: Acquiring a free mutex takes it at once and changes nothing else. Acquiring a mutex
  that is taken puts the calling thread at the end of the list of waiters, with a new node that
  holds its identifier, and pauses it so that it continues behind the call when it is resumed;
  the CPU halts with the list's lock released, and the waiters before it stay as they are.\<close>

theorem acquire_mutex_correct:
  assumes "rep E s v" "mutex_ready E c a s" "lock_free c Lock_mem s" "waiting s a ns" "hw_busy s (Lock_mlock a) \<in> {0, 1}"
    and "get_thread_ptr c s \<noteq> NULL" "c < m_cpus E" "km_next_free s \<noteq> NULL" "km_next_free s \<notin> set ns"
  shows "if hw_busy s (Lock_mlock a) = 0 then
      acquire_mutex E c a s = Ret (ERR_NONE, s\<lparr>hw_busy := (hw_busy s)(Lock_mlock a := 1)\<rparr>)
    else \<exists>s'. acquire_mutex E c a s = Ret (ERR_NONE, s') \<and> waiting s' a (ns @ [km_next_free s]) \<and> queued E v c s s' \<and>
      mn_id (sy_nodes s' (km_next_free s)) = get_thread c s \<and>
      (\<forall>n. n \<noteq> km_next_free s \<longrightarrow> mn_id (sy_nodes s' n) = mn_id (sy_nodes s n))"
  using acquire_mutex_waits [OF assms(1-4) _ assms(6-9)] assms(5) by (auto simp: acquire_mutex_def acquire_spinlock_int_eq)

theorem acquire_mutex_correct_witness:
  "\<exists>s'. acquire_mutex xE 0 0x500 (with_mutex x5 NULL NULL (xnodes 0 0 NULL)) = Ret (ERR_NONE, s') \<and>
     waiting s' 0x500 [0x10000] \<and> mn_id (sy_nodes s' 0x10000) = idA"
proof -
  let ?s = "with_mutex x5 NULL NULL (xnodes 0 0 NULL)"
  have "get_thread_ptr 0 ?s = tA" "km_next_free ?s = 0x10000" "hw_busy ?s (Lock_mlock 0x500) = 1"
    "td_stamp (ks_thr ?s tA) = 0"
    using core_fields [OF x5(1)] by (simp_all add: with_mutex_def get_thread_ptr_def x5_eq(2)) (simp add: td_defs)
  then show ?thesis
    using acquire_mutex_correct [where s = ?s and c = 0, OF with_mutex(1-3) [OF x5_rep x5(4)] with_waiters(1)]
    by (auto simp: get_thread_def xE_def)
qed

text \<open>C15: Releasing a mutex wakes the first of its waiters that can be resumed; waiters before
  it (threads that were stopped or detached meanwhile) are dropped, the ones behind it stay in
  order, and the mutex stays taken, handed to the thread woken, while others still wait.\<close>

theorem release_mutex_hands_over:
  assumes "rep E s v" "mutex_ready E c a s" "waiting s a (pre @ n # ns)" "ns \<noteq> []"
    and "\<forall>m\<in>set pre. \<not> resumable s (mn_id (sy_nodes s m))" "resumable s (mn_id (sy_nodes s n))"
  shows "\<exists>s'. release_mutex E c a s = Ret s' \<and> waiting s' a ns \<and> woken E v s (mn_id (sy_nodes s n)) s' \<and> same_hw s s'"
  using release_mutex_wakes [OF assms(1-3), of] assms(4-6) by (auto simp: same_hw_def)

theorem release_mutex_hands_over_witness:
  "\<exists>s'. release_mutex xE 1 0x500 (with_mutex x2 0x700 0x600 (xnodes idA idB 0x700)) = Ret s' \<and>
     waiting s' 0x500 [0x700] \<and> hw_busy s' (Lock_mlock 0x500) = 1"
proof -
  have "mn_id (sy_nodes (with_mutex x2 0x700 0x600 (xnodes idA idB 0x700)) 0x600) = idA"
    "hw_busy (with_mutex x2 0x700 0x600 (xnodes idA idB 0x700)) (Lock_mlock 0x500) = 1"
    by (simp_all add: with_mutex_def xnodes_def)
  then show ?thesis
    using release_mutex_hands_over [where c = 1 and pre = "[]", unfolded append_Nil, OF with_mutex(1,2) [OF x2(1,6)] with_waiters(3) [of x2 idA idB]]
      x2_resumable by (auto simp: same_hw_def)
qed

text \<open>C39: With a single waiter the mutex is not handed over: releasing it resumes the waiter,
  whose call returns as if it owned the mutex, and also marks the mutex free, so that any other
  thread that acquires it owns it at the same time.\<close>

theorem mutex_single_waiter_two_owners:
  assumes "rep E s v" "mutex_ready E c a s" "waiting s a [n]" "resumable s (mn_id (sy_nodes s n))"
  shows "\<exists>s' t. release_mutex E c a s = Ret s' \<and> find_thread (mn_id (sy_nodes s n)) s = Inr t \<and>
    td_state (ks_thr s' t) = THREAD_STATE_RUNNING \<and>
    (\<forall>k. acquire_mutex E k a s' = Ret (ERR_NONE, s'\<lparr>hw_busy := (hw_busy s')(Lock_mlock a := 1)\<rparr>))"
proof -
  obtain s' where "release_mutex E c a s = Ret s'" "woken E v s (mn_id (sy_nodes s n)) s'" "hw_busy s' (Lock_mlock a) = 0"
    using release_mutex_wakes [OF assms(1,2), of "[]" n "[]"] assms(3,4) by auto
  then show ?thesis by (auto simp: woken_def acquire_mutex_def acquire_spinlock_int_eq)
qed

theorem mutex_single_waiter_two_owners_witness:
  "\<exists>s'. release_mutex xE 1 0x500 (with_mutex x2 0x600 0x600 (xnodes idA idB NULL)) = Ret s' \<and>
     td_state (ks_thr s' tA) = THREAD_STATE_RUNNING \<and>
     acquire_mutex xE 1 0x500 s' = Ret (ERR_NONE, s'\<lparr>hw_busy := (hw_busy s')(Lock_mlock 0x500 := 1)\<rparr>)"
proof -
  have "mn_id (sy_nodes (with_mutex x2 0x600 0x600 (xnodes idA idB NULL)) 0x600) = idA"
    by (simp_all add: with_mutex_def xnodes_def)
  then show ?thesis
    using mutex_single_waiter_two_owners [where c = 1, OF with_mutex(1,2) [OF x2(1,6)] with_waiters(2) [of x2 idA idB]]
      x2_resumable by (auto simp: with_mutex(4) [OF x2(1,6)] x2_find)
qed

end
