(* ===== verification/Sync_Sleep.thy ===== *)
theory Sync_Sleep
  imports Sync_Mutex
begin

text \<open>
  Sleeping: the list of a CPU's sleepers is sorted by deadline, the CPU's timer is set to the
  first of them, and the timer procedure wakes that one.
\<close>

section \<open>The list\<close>

abbreviation ticks_of :: "'z sync_scheme \<Rightarrow> ptr \<Rightarrow> u64" where
  "ticks_of s n \<equiv> sn_ticks (sy_sleep_nodes s n)"

definition sleepers :: "'z sync_scheme \<Rightarrow> nat \<Rightarrow> ptr list \<Rightarrow> bool" where
  "sleepers s c ns \<longleftrightarrow> chain sn_next (sy_sleep_nodes s) (sd_tail (sy_sleeping s c)) ns \<and> distinct ns \<and>
     sorted (map (ticks_of s) ns) \<and> get_timer_ticks c s = (if ns = [] then 0 else ticks_of s (hd ns))"

text \<open>Where a new deadline goes: behind the ones that are not later.\<close>

definition insert_by :: "(ptr \<Rightarrow> u64) \<Rightarrow> ptr \<Rightarrow> ptr list \<Rightarrow> ptr list" where
  "insert_by f n ns = takeWhile (\<lambda>m. f m \<le> f n) ns @ n # dropWhile (\<lambda>m. f m \<le> f n) ns"

lemma insert_by_simps [simp]:
  "insert_by f n [] = [n]"
  "insert_by f n (m # ms) = (if f m \<le> f n then m # insert_by f n ms else n # m # ms)"
  by (simp_all add: insert_by_def)

lemma set_insert_by [simp]: "set (insert_by f n ns) = insert n (set ns)"
  by (induction ns) auto

lemma insert_by_sorted: "sorted (map f ns) \<Longrightarrow> sorted (map f (insert_by f n ns))"
  by (induction ns) auto

lemma insert_by_distinct: "distinct ns \<Longrightarrow> n \<notin> set ns \<Longrightarrow> distinct (insert_by f n ns)"
  by (induction ns) auto

lemma insert_by_cong: "(\<And>m. m \<in> insert n (set ns) \<Longrightarrow> f m = g m) \<Longrightarrow> insert_by f n ns = insert_by g n ns"
  by (induction ns) auto

text \<open>The search stops at the last node whose deadline is not later.\<close>

lemma find_prev_insert:
  assumes "chain sn_next h p (p # ns)" "distinct (p # ns)" "n \<notin> set (p # ns)" "n \<noteq> NULL" "sn_ticks (h p) \<le> sn_ticks (h n)"
  obtains q where "find_prev h (sn_ticks (h n)) p = Some q" "q \<in> set (p # ns)"
    "chain sn_next (h(n := (h n)\<lparr>sn_next := sn_next (h q)\<rparr>, q := (h q)\<lparr>sn_next := n\<rparr>)) p
       (insert_by (\<lambda>m. sn_ticks (h m)) n (p # ns))"
proof -
  have "\<exists>q. find_prev h (sn_ticks (h n)) p = Some q \<and> q \<in> set (p # ns) \<and>
    chain sn_next (h(n := (h n)\<lparr>sn_next := sn_next (h q)\<rparr>, q := (h q)\<lparr>sn_next := n\<rparr>)) p
       (insert_by (\<lambda>m. sn_ticks (h m)) n (p # ns))"
    using assms
  proof (induction ns arbitrary: p)
    case Nil
    then show ?case by (subst find_prev.simps) auto
  next
    case (Cons m ns)
    have m: "sn_next (h p) = m" "m \<noteq> NULL" "chain sn_next h m (m # ns)" using Cons.prems(1) by auto
    show ?case
    proof (cases "sn_ticks (h m) \<le> sn_ticks (h n)")
      case True
      have "distinct (m # ns)" "n \<notin> set (m # ns)" using Cons.prems(2,3) by auto
      from Cons.IH [OF m(3) this Cons.prems(4) True]
      obtain q where q: "find_prev h (sn_ticks (h n)) m = Some q" "q \<in> set (m # ns)"
        "chain sn_next (h(n := (h n)\<lparr>sn_next := sn_next (h q)\<rparr>, q := (h q)\<lparr>sn_next := n\<rparr>)) m
           (insert_by (\<lambda>m. sn_ticks (h m)) n (m # ns))"
        by blast
      have "find_prev h (sn_ticks (h n)) p = Some q" using m(1,2) True q(1) by (subst find_prev.simps) simp
      moreover have "chain sn_next (h(n := (h n)\<lparr>sn_next := sn_next (h q)\<rparr>, q := (h q)\<lparr>sn_next := n\<rparr>)) p
          (p # insert_by (\<lambda>m. sn_ticks (h m)) n (m # ns))"
      proof -
        have "p \<noteq> q" "p \<noteq> n" "p \<noteq> NULL" using q(2) Cons.prems(1-3) by auto
        then show ?thesis using q(3) m(1) by (simp only: chain.simps fun_upd_other simp_thms)
      qed
      moreover have "insert_by (\<lambda>m. sn_ticks (h m)) n (p # m # ns) = p # insert_by (\<lambda>m. sn_ticks (h m)) n (m # ns)"
        using Cons.prems(5) by simp
      ultimately show ?thesis using q(2) by (metis list.set_intros(2))
    next
      case False
      have "find_prev h (sn_ticks (h n)) p = Some p" using m(1) False by (subst find_prev.simps) simp
      moreover have "chain sn_next (h(n := (h n)\<lparr>sn_next := m\<rparr>, p := (h p)\<lparr>sn_next := n\<rparr>)) (sn_next (h m)) ns"
        using m(3) Cons.prems(2,3) by (subst chain_cong [where h = h]) auto
      ultimately show ?thesis using m Cons.prems False by (intro exI [of _ p]) (auto simp: fun_upd_def)
    qed
  qed
  then show thesis using that by blast
qed

lemma insert_sleeper_correct:
  assumes "sleepers s c ns" "n \<noteq> NULL" "n \<notin> set ns"
  obtains s' where "insert_sleeper c n s = Ret s'" "sleepers s' c (insert_by (ticks_of s) n ns)" "same_sched s s'"
    "ks_ticks s' = ks_ticks s" "\<And>m. ticks_of s' m = ticks_of s m"
    "\<And>m. sn_thread (sy_sleep_nodes s' m) = sn_thread (sy_sleep_nodes s m)"
proof (cases "sd_tail (sy_sleeping s c) = NULL \<or> ticks_of s n < ticks_of s (sd_tail (sy_sleeping s c))")
  case True
  let ?t = "sd_tail (sy_sleeping s c)"
  let ?s = "set_timer_ticks c (ticks_of s n) (on_sleeping c (\<lambda>d. d\<lparr>sd_tail := n\<rparr>) (on_sleep_node n (\<lambda>m. m\<lparr>sn_next := ?t\<rparr>) s))"
  have i: "insert_by (ticks_of s) n ns = n # ns"
    using True assms(1) by (cases ns) (auto simp: sleepers_def)
  have nd: "sy_sleep_nodes ?s = (sy_sleep_nodes s)(n := (sy_sleep_nodes s n)\<lparr>sn_next := ?t\<rparr>)"
    "sd_tail (sy_sleeping ?s c) = n" "get_timer_ticks c ?s = ticks_of s n"
    by (simp_all add: set_timer_ticks_def on_sleeping_def on_sleep_node_def get_timer_ticks_def)
  have tk: "ticks_of ?s = ticks_of s" by (simp add: nd fun_eq_iff)
  have "chain sn_next (sy_sleep_nodes ?s) ?t ns"
    using assms(1,3) by (subst chain_cong [where h = "sy_sleep_nodes s"]) (auto simp: nd sleepers_def)
  moreover have "sorted (map (ticks_of s) (n # ns))"
    unfolding i [symmetric] by (rule insert_by_sorted) (use assms(1) in \<open>simp add: sleepers_def\<close>)
  ultimately have "sleepers ?s c (n # ns)"
    unfolding sleepers_def tk using assms by (auto simp: nd sleepers_def)
  moreover have "same_sched s ?s" "ks_ticks ?s = ks_ticks s"
    "\<And>m. sn_thread (sy_sleep_nodes ?s m) = sn_thread (sy_sleep_nodes s m)"
    by (simp, simp add: set_timer_ticks_def on_sleeping_def on_sleep_node_def, simp add: nd)
  moreover have "insert_sleeper c n s = Ret ?s"
    using True by (simp add: insert_sleeper_def Let_def)
  ultimately show thesis using tk i by (intro that [of ?s]) (simp_all add: fun_eq_iff)
next
  case False
  let ?t = "sd_tail (sy_sleeping s c)"
  obtain ms where ns: "ns = ?t # ms" using False assms(1) by (cases ns) (auto simp: sleepers_def)
  obtain q where q: "find_prev (sy_sleep_nodes s) (ticks_of s n) ?t = Some q" "q \<in> set ns"
    "chain sn_next ((sy_sleep_nodes s)(n := (sy_sleep_nodes s n)\<lparr>sn_next := sn_next (sy_sleep_nodes s q)\<rparr>,
        q := (sy_sleep_nodes s q)\<lparr>sn_next := n\<rparr>)) ?t (insert_by (ticks_of s) n ns)"
    using find_prev_insert [of "sy_sleep_nodes s" ?t ms n] assms ns False by (metis linorder_not_less sleepers_def)
  let ?s = "on_sleep_node q (\<lambda>m. m\<lparr>sn_next := n\<rparr>) (on_sleep_node n (\<lambda>m. m\<lparr>sn_next := sn_next (sy_sleep_nodes s q)\<rparr>) s)"
  have qn: "q \<noteq> n" using q(2) assms(3) by auto
  have nd: "sy_sleep_nodes ?s = (sy_sleep_nodes s)(n := (sy_sleep_nodes s n)\<lparr>sn_next := sn_next (sy_sleep_nodes s q)\<rparr>,
        q := (sy_sleep_nodes s q)\<lparr>sn_next := n\<rparr>)" "sy_sleeping ?s = sy_sleeping s" "get_timer_ticks c ?s = get_timer_ticks c s"
    using qn by (simp_all add: on_sleep_node_def get_timer_ticks_def)
  have tk: "ticks_of ?s = ticks_of s" by (simp add: nd fun_eq_iff)
  have "sorted (map (ticks_of s) (insert_by (ticks_of s) n ns))" "distinct (insert_by (ticks_of s) n ns)"
    by (rule insert_by_sorted insert_by_distinct, use assms in \<open>simp_all add: sleepers_def\<close>)+
  moreover have "hd (insert_by (ticks_of s) n ns) = ?t" "insert_by (ticks_of s) n ns \<noteq> []"
    using False unfolding ns by (simp_all add: not_less)
  ultimately have "sleepers ?s c (insert_by (ticks_of s) n ns)"
    unfolding sleepers_def tk using q(3) assms(1) by (simp add: nd sleepers_def ns)
  moreover have "same_sched s ?s" "ks_ticks ?s = ks_ticks s"
    "\<And>m. sn_thread (sy_sleep_nodes ?s m) = sn_thread (sy_sleep_nodes s m)"
    by (simp, simp add: set_timer_ticks_def on_sleeping_def on_sleep_node_def, simp add: nd)
  moreover have "insert_sleeper c n s = Ret ?s"
    using False q(1) by (simp add: insert_sleeper_def Let_def)
  ultimately show thesis using tk by (intro that [of ?s]) (simp_all add: fun_eq_iff)
qed

section \<open>Waking\<close>

lemma sleepers_cong:
  "sy_sleep_nodes s' = sy_sleep_nodes s \<Longrightarrow> sy_sleeping s' = sy_sleeping s \<Longrightarrow> ks_timer_ticks s' = ks_timer_ticks s \<Longrightarrow>
    sleepers s' c ns \<longleftrightarrow> sleepers s c ns"
  by (simp add: sleepers_def get_timer_ticks_def)

lemma others_timer: "others s' = others s \<Longrightarrow> ks_timer_ticks s' = ks_timer_ticks s \<and> ks_ticks s' = ks_ticks s"
  by (simp add: others_def)

lemma timers_acquire [simp]:
  "ks_timer_ticks (snd (acquire_spinlock c l n s)) = ks_timer_ticks s" "ks_ticks (snd (acquire_spinlock c l n s)) = ks_ticks s"
  using others_timer [OF more_lock(1)] by blast+

lemma set_outer_spinlock_sched [simp]:
  "ks_thr (set_outer_spinlock c b s) = ks_thr s" "rep E (set_outer_spinlock c b s) v \<longleftrightarrow> rep E s v"
  by (simp_all add: set_outer_spinlock_def) (simp add: set_outer_def)

text \<open>What the timer procedure does with the front of the list, the timer being switched off.\<close>

lemma sleep_timer_proc_wakes:
  assumes "rep E s v" "quiet E c s" "sleepers s0 c (n # ns)" "s = set_outer_spinlock c True (set_timer_ticks c 0 s0)"
  obtains s' where "sleep_timer_proc E c t s = Ret s'" "sleepers s' c ns" "ks_ticks s' = ks_ticks s" "same_hw s s'" "sy_sleep_nodes s' = sy_sleep_nodes s"
    "if resumable s (sn_thread (sy_sleep_nodes s n)) then woken E v s (sn_thread (sy_sleep_nodes s n)) s'
     else rep E s' v \<and> ks_thr s' = ks_thr s"
proof -
  let ?s1 = "on_sleeping c (\<lambda>d. d\<lparr>sd_tail := sn_next (sy_sleep_nodes s n)\<rparr>) s"
  let ?s2 = "if ns \<noteq> [] then set_timer_ticks c (ticks_of s (hd ns)) ?s1 else ?s1"
  have f: "sy_sleep_nodes s = sy_sleep_nodes s0" "sy_sleeping s = sy_sleeping s0" "get_timer_ticks c s = 0"
    by (simp_all add: assms(4) set_outer_spinlock_def set_outer_def set_timer_ticks_def get_timer_ticks_def)
  have tl: "sd_tail (sy_sleeping s c) = n" "n \<noteq> NULL" using assms(3) by (simp_all add: f sleepers_def)
  have nx: "sn_next (sy_sleep_nodes s n) = (if ns = [] then NULL else hd ns)" "ns \<noteq> [] \<Longrightarrow> hd ns \<noteq> NULL"
    using assms(3) by (cases ns; simp add: f sleepers_def)+
  have "sleepers ?s2 c ns"
    using assms(3) nx f by (auto simp: sleepers_def set_timer_ticks_def on_sleeping_def get_timer_ticks_def)
  note s2 = this
  have ss: "same_sched s ?s2" by simp
  let ?i = "sn_thread (sy_sleep_nodes s n)"
  have run: "sleep_timer_proc E c t s =
      obind (resume_thread E c ?i ?s2) (\<lambda>(_, s3). Ret (free_block (sd_pool (sy_sleeping s3 c)) n s3))"
    using tl nx by (cases "ns = []") (simp_all add: sleep_timer_proc_def Let_def on_sleeping_def set_timer_ticks_def)
  have tk: "ks_ticks ?s2 = ks_ticks s" by (simp add: set_timer_ticks_def on_sleeping_def)
  have sn: "sy_sleep_nodes ?s2 = sy_sleep_nodes s" by (simp add: set_timer_ticks_def on_sleeping_def)
  note sr = same_sched_keeps(1) [OF ss assms(1)] same_sched_keeps(2) [OF ss assms(2)]
  show thesis
  proof (cases "resumable s ?i")
    case True
    then have "resumable ?s2 ?i" using resumable_same [OF ss] by blast
    then obtain s' where s': "resume_thread E c ?i ?s2 = Ret (ERR_NONE, s')" "woken E v ?s2 ?i s'" "same_hw ?s2 s'" "others s' = others ?s2"
      by (rule resume_woken [OF sr]) (rule that)
    have "sleepers s' c ns"
      using s2 sleepers_cong [OF sync_more_eq(4,5) [OF s'(4)]] others_timer [OF s'(4)] by blast
    moreover have "same_hw s s'" using s'(3) same_schedD(1-3) [OF ss] unfolding same_hw_def by metis
    moreover have "sleep_timer_proc E c t s = Ret s'" unfolding run s'(1) by (simp add: free_block_def)
    ultimately show thesis
      using that [of s'] woken_same [OF ss s'(2)] others_timer [OF s'(4)] tk True sync_more_eq(4) [OF s'(4)] sn by auto
  next
    case False
    then have "\<not> resumable ?s2 ?i" using resumable_same [OF ss] by blast
    from resume_not_resumable [OF sr this] obtain err where "resume_thread E c ?i ?s2 = Ret (err, ?s2)" by blast
    then have "sleep_timer_proc E c t s = Ret ?s2" unfolding run by (simp add: free_block_def)
    moreover have "same_hw s ?s2" using same_schedD(1-3) [OF ss] by (simp add: same_hw_def)
    ultimately show thesis using that [of ?s2] s2 tk sn sr(1) False same_schedD(4) [OF ss] by (simp del: if_split)
  qed
qed

text \<open>A concrete sleep queue of CPU 0: the nodes at \<open>0x600\<close> and \<open>0x700\<close>.\<close>

definition with_sleepers :: "kstate \<Rightarrow> ptr \<Rightarrow> u64 \<Rightarrow> sync" where
  "with_sleepers k tail deadline = (with_mutex k NULL NULL (xnodes 0 0 NULL))
     \<lparr>ks_ticks := 4, ks_timer_ticks := \<lambda>_. deadline,
      sy_sleep_nodes := \<lambda>a. if a = 0x600 then \<lparr>sn_next = 0x700, sn_thread = idA, sn_ticks = 5\<rparr>
        else \<lparr>sn_next = NULL, sn_thread = idB, sn_ticks = 9\<rparr>,
      sy_sleeping := \<lambda>_. \<lparr>sd_tail = tail, sd_pool = \<lparr>mp_block_size = 24\<rparr>\<rparr>\<rparr>"

lemma with_sleepers:
  assumes "rep xE k v" "ks_ctx k = ks_ctx x0"
  shows "rep xE (with_sleepers k tail dl) v" "quiet xE c (with_sleepers k tail dl)"
    "quiet xE c (set_outer_spinlock c True (with_sleepers k tail dl))"
    "lock_free c (Lock_sleep c) (with_sleepers k tail dl)" "lock_free c Lock_mem (with_sleepers k tail dl)"
    "find_thread i (with_sleepers k tail dl) = find_thread i k"
proof -
  show "rep xE (with_sleepers k tail dl) v" by (rule rep_only [OF with_mutex(1) [OF assms]]) (simp_all add: with_sleepers_def)
  show q: "quiet xE c (with_sleepers k tail dl)" and "lock_free c Lock_mem (with_sleepers k tail dl)"
    using with_mutex(2,3) [OF assms] by (simp_all add: mutex_ready_def quiet_def lock_free_def with_sleepers_def)
  show "quiet xE c (set_outer_spinlock c True (with_sleepers k tail dl))"
    using q by (simp add: quiet_def set_outer_spinlock_def set_outer_def kernel_locks_def) auto
  show "lock_free c (Lock_sleep c) (with_sleepers k tail dl)" "find_thread i (with_sleepers k tail dl) = find_thread i k"
    by (simp_all add: lock_free_def with_sleepers_def with_mutex_def x0_def find_thread_def)
qed

lemma with_sleepers_list:
  "sleepers (with_sleepers k NULL 0) c []" "sleepers (with_sleepers k 0x600 5) c [0x600, 0x700]"
  by (simp_all add: sleepers_def with_sleepers_def get_timer_ticks_def)

section \<open>Properties\<close>

text \<open>C16: A sleeping thread is queued behind the sleepers of its CPU with the same or an
  earlier deadline, which keeps the queue sorted by deadline and first come first served; the
  CPU's timer stays set to the earliest deadline. Its node holds its identifier and the tick
  at which to wake it, the thread is paused, and the queue's lock is released.\<close>

theorem sleep_correct:
  assumes "rep E s v" "quiet E c s" "lock_free c (Lock_sleep c) s" "lock_free c Lock_mem s" "sleepers s c ns"
    and "get_thread_ptr c s \<noteq> NULL" "c < m_cpus E" "km_next_free s = n" "n \<noteq> NULL" "n \<notin> set ns"
    and "deadline = ks_ticks s + period div 1000" "tk = (ticks_of s)(n := deadline)"
  shows "\<exists>s'. sleep E c period s = Ret (ERR_NONE, s') \<and> sleepers s' c (insert_by tk n ns) \<and> queued E v c s s' \<and>
    ticks_of s' = tk \<and> sn_thread (sy_sleep_nodes s' n) = get_thread c s \<and>
    (\<forall>m. m \<noteq> n \<longrightarrow> sn_thread (sy_sleep_nodes s' m) = sn_thread (sy_sleep_nodes s m))"
proof -
  define s1 where "s1 = snd (acquire_spinlock c (Lock_sleep c) 0 s)"
  have l: "hw_busy s (Lock_sleep c) = 0" using assms(3) by (simp add: lock_free_def)
  let ?sz = "mp_block_size (sd_pool (sy_sleeping s1 c))"
  define s2 where "s2 = s1\<lparr>km_next_free := n + ?sz\<rparr>"
  have al: "alloc_block c (sd_pool (sy_sleeping s1 c)) s1 = (n, s2)"
    unfolding alloc_block_def s2_def using kmalloc_locked [OF assms(4) l _ _ s1_def, of s1] by (simp add: s1_def assms(8))
  define s3 where "s3 = on_sleep_node n (\<lambda>m. m\<lparr>sn_thread := get_thread c s, sn_ticks := deadline\<rparr>) s2"
  have i: "get_thread c s2 = get_thread c s" "get_ticks s2 = ks_ticks s"
    by (simp_all add: get_thread_def get_thread_ptr_def s2_def s1_def acquire_kstate Let_def get_ticks_def)
  have nd: "sy_sleep_nodes s3 = (sy_sleep_nodes s)(n := (sy_sleep_nodes s n)\<lparr>sn_thread := get_thread c s, sn_ticks := deadline\<rparr>)"
    "sy_sleeping s3 = sy_sleeping s" "get_timer_ticks c s3 = get_timer_ticks c s"
    by (simp_all add: s3_def s2_def s1_def on_sleep_node_def get_timer_ticks_def)
  have tk: "ticks_of s3 = tk" by (simp add: nd assms(12) fun_eq_iff)
  have w3: "sleepers s3 c ns"
  proof -
    have "chain sn_next (sy_sleep_nodes s3) (sd_tail (sy_sleeping s c)) ns"
      using assms(5,10) by (subst chain_cong [where h = "sy_sleep_nodes s"]) (auto simp: nd sleepers_def)
    moreover have m: "map tk ns = map (ticks_of s) ns" using assms(10,12) by auto
    moreover have "ns \<noteq> [] \<Longrightarrow> tk (hd ns) = ticks_of s (hd ns)" using assms(10,12) by (cases ns) auto
    moreover have "ticks_of s3 (hd ns) = tk (hd ns)" using tk by (rule fun_cong)
    ultimately show ?thesis using assms(5) unfolding sleepers_def tk m nd(2,3) by simp
  qed
  obtain s4 where s4: "insert_sleeper c n s3 = Ret s4" "sleepers s4 c (insert_by tk n ns)" "same_sched s3 s4"
    "\<And>m. ticks_of s4 m = ticks_of s3 m" "\<And>m. sn_thread (sy_sleep_nodes s4 m) = sn_thread (sy_sleep_nodes s3 m)"
    using insert_sleeper_correct [OF w3 assms(9,10)] unfolding tk by metis
  have ss: "same_sched s1 s4" by (rule same_sched_trans [OF _ s4(3)]) (simp add: s3_def s2_def)
  obtain s' where s': "pause_this_thread E c (Lock_sleep c) s4 = Ret (ERR_NONE, s')" "queued E v c s s'" "others s' = others s4"
    by (rule pause_queued [OF assms(1,2,6,7) l mutex_locks(3) _ s1_def ss]) (simp, rule that)
  have "sleep E c period s = Ret (ERR_NONE, s')"
    using s4(1) s'(1) assms(9) by (simp add: sleep_def s1_def [symmetric] al i Let_def s3_def assms(11))
  moreover have "sleepers s' c (insert_by tk n ns)"
    using s4(2) sleepers_cong [OF sync_more_eq(4,5) [OF s'(3)]] others_timer [OF s'(3)] by blast
  ultimately show ?thesis
    using s'(2) s4(4,5) by (auto simp: sync_more_eq(4) [OF s'(3)] assms(12) nd fun_eq_iff)
qed

theorem sleep_correct_witness:
  "\<exists>s'. sleep xE 0 3000 (with_sleepers x5 0x600 5) = Ret (ERR_NONE, s') \<and> sleepers s' 0 [0x600, 0x10000, 0x700] \<and>
     ticks_of s' 0x10000 = 7 \<and> sn_thread (sy_sleep_nodes s' 0x10000) = idA"
proof -
  let ?s = "with_sleepers x5 0x600 5"
  have f: "get_thread_ptr 0 ?s = tA" "km_next_free ?s = 0x10000" "td_stamp (ks_thr ?s tA) = 0" "ks_ticks ?s = 4"
    "ticks_of ?s 0x600 = 5" "ticks_of ?s 0x700 = 9"
    using core_fields [OF x5(1)] by (simp_all add: with_sleepers_def with_mutex_def get_thread_ptr_def x5_eq(2)) (simp add: td_defs)
  note w = with_sleepers [OF x5_rep x5(4)]
  show ?thesis
    using sleep_correct [where s = ?s and c = 0 and period = 3000 and n = "0x10000" and deadline = 7,
        OF w(1,2,4,5) with_sleepers_list(2)]
    by (auto simp: get_thread_def xE_def f dest: fun_cong [where x = "0x10000"])
qed

text \<open>C17: The timer interrupt of a CPU wakes its first sleeper as soon as its deadline is
  reached and not before: the node leaves the queue, the thread is resumed unless it was
  stopped or detached meanwhile, and the timer is set to the next deadline.\<close>

theorem timer_wakes_sleeper:
  assumes "rep E s v" "quiet E c (set_outer_spinlock c True s)" "sleepers s c (n # ns)" "0 < ticks_of s n"
    and "call (ks_timer_proc s) = sleep_timer_proc E" "now = ks_ticks s + (if c = m_bsp_cpu E then 1 else 0)"
  shows "if ticks_of s n \<le> now then
      \<exists>s'. handle_timer E call c s = Ret s' \<and> sleepers s' c ns \<and> sy_sleep_nodes s' = sy_sleep_nodes s \<and> ks_ticks s' = now \<and>
        (if resumable s (sn_thread (sy_sleep_nodes s n)) then woken E v s (sn_thread (sy_sleep_nodes s n)) s'
         else rep E s' v \<and> ks_thr s' = ks_thr s)
    else handle_timer E call c s = Ret (s\<lparr>ks_ticks := now\<rparr>)"
proof -
  define s1 where "s1 = s\<lparr>ks_ticks := now\<rparr>"
  have h: "handle_timer E call c s = (if ticks_of s n \<le> now then
      obind (sleep_timer_proc E c (ticks_of s n) (set_outer_spinlock c True (set_timer_ticks c 0 s1)))
        (\<lambda>s3. Ret (set_outer_spinlock c False s3)) else Ret s1)"
    using assms(3,4,6) unfolding assms(5) [symmetric]
    by (auto simp: handle_timer_def Let_def s1_def sleepers_def get_timer_ticks_def set_timer_ticks_def
        set_outer_spinlock_def set_outer_def)
  let ?s = "set_outer_spinlock c True (set_timer_ticks c 0 s1)"
  have w1: "sleepers s1 c (n # ns)" by (rule sleepers_cong [THEN iffD2, OF _ _ _ assms(3)]) (simp_all add: s1_def)
  have f: "ks_thr ?s = ks_thr s" "ks_ticks ?s = now" "sy_sleep_nodes ?s = sy_sleep_nodes s"
    by (simp_all add: set_outer_spinlock_def set_outer_def set_timer_ticks_def s1_def)
  have r: "rep E ?s v" by (rule rep_only [OF assms(1)]) (simp_all add: set_outer_spinlock_def set_outer_def set_timer_ticks_def s1_def)
  have q: "quiet E c ?s"
    using assms(2) by (simp add: quiet_def set_outer_spinlock_def set_outer_def set_timer_ticks_def s1_def)
  have eq: "resumable ?s i \<longleftrightarrow> resumable s i" "woken E v ?s i s' \<longleftrightarrow> woken E v s i s'"
    "woken E v s i (set_outer_spinlock c False s') \<longleftrightarrow> woken E v s i s'" for i s'
    unfolding resumable_def woken_def find_thread_def f(1) by simp_all
  show ?thesis
  proof (cases "ticks_of s n \<le> now")
    case True
    let ?i = "sn_thread (sy_sleep_nodes s n)"
    obtain s' where s': "sleep_timer_proc E c (ticks_of s n) ?s = Ret s'" "sleepers s' c ns" "ks_ticks s' = now" "sy_sleep_nodes s' = sy_sleep_nodes s"
      "if resumable s ?i then woken E v s ?i s' else rep E s' v \<and> ks_thr s' = ks_thr s"
      using sleep_timer_proc_wakes [OF r q w1 refl, of "ticks_of s n"] unfolding f eq by metis
    let ?r = "set_outer_spinlock c False s'"
    have "sleepers ?r c ns" "ks_ticks ?r = now" "sy_sleep_nodes ?r = sy_sleep_nodes s" "rep E s' v \<Longrightarrow> rep E ?r v" "ks_thr ?r = ks_thr s'"
      using s'(2-4) by (auto simp: sleepers_def get_timer_ticks_def set_outer_spinlock_def set_outer_def intro: rep_only)
    then show ?thesis using h s'(1,5) True eq(3) by auto
  qed (use h in \<open>simp add: s1_def\<close>)
qed

theorem timer_wakes_sleeper_witness:
  "\<exists>s'. handle_timer xE (\<lambda>_. sleep_timer_proc xE) 0 (with_sleepers x2 0x600 5) = Ret s' \<and> sleepers s' 0 [0x700] \<and>
     get_timer_ticks 0 s' = 9 \<and> td_state (ks_thr s' tA) = THREAD_STATE_RUNNING"
proof -
  let ?s = "with_sleepers x2 0x600 5"
  have f: "ks_ticks ?s = 4" "ticks_of ?s 0x600 = 5" "sn_thread (sy_sleep_nodes ?s 0x600) = idA"
    "td_state (ks_thr ?s tA) = THREAD_STATE_PAUSED" "ticks_of ?s 0x700 = 9"
    using core_fields [OF x2(3)] by (simp_all add: with_sleepers_def with_mutex_def) (simp add: td_defs)
  note w = with_sleepers [OF x2(1,6)]
  have t: "find_thread idA ?s = Inr tA" unfolding w(6) by (rule x2_find(1))
  then have r: "resumable ?s idA" by (simp add: resumable_def f(4))
  obtain s' where "handle_timer xE (\<lambda>_. sleep_timer_proc xE) 0 ?s = Ret s'" "sleepers s' 0 [0x700]" "ticks_of s' 0x700 = 9" "woken xE v2 ?s idA s'"
    using timer_wakes_sleeper [where s = ?s and c = 0 and now = 5 and call = "\<lambda>_. sleep_timer_proc xE",
        OF w(1,3) with_sleepers_list(2)] r by (auto simp: f xE_def)
  then show ?thesis using t by (auto simp: woken_def sleepers_def)
qed

end
