(* ===== verification/Sched_Properties.thy ===== *)
theory Sched_Properties
  imports Sched_Example
begin

text \<open>
  What the scheduler promises, operation by operation, over the invariant \<open>rep\<close> and the
  view of the lists it relates the state to; each with a concrete run of the example of
  \<open>Sched_Example\<close>.
\<close>

section \<open>Attaching and detaching\<close>

text \<open>C9: Attaching a prepared descriptor succeeds: the thread joins the list of all threads
  and the inactive list, is paused, can be found by the identifier the call reports (its address
  and the current stamp), the stamp advances, no other thread changes, and the locks and the
  interrupt flags are as before.\<close>

theorem attach_thread_correct:
  assumes "rep E s v" "quiet E c s" "t \<noteq> NULL" "ptr_ok t" "td_magic (ks_thr s t) \<noteq> THREAD_MAGIC"
    and "attachable E s t" "length (v_all v) < 2 ^ 31 - 2"
  shows "\<exists>s'. attach_thread E c t w s = (ERR_NONE, if w then Some (get_stamp_id t (ks_stamp s)) else None, s') \<and>
    rep E s' (v_attach t v) \<and> same_hw s s' \<and> td_state (ks_thr s' t) = THREAD_STATE_PAUSED \<and>
    find_thread (get_stamp_id t (ks_stamp s)) s' = Inr t \<and>
    ks_stamp s' = snd (assign_stamp_id_stamp (ks_stamp s)) \<and>
    (\<forall>a. a \<noteq> t \<longrightarrow> core (ks_thr s' a) = core (ks_thr s a))"
proof -
  obtain s' where s': "attach_thread E c t w s = (ERR_NONE, if w then Some (get_stamp_id t (ks_stamp s)) else None, s')"
    "rep E s' (v_attach t v)" "same_hw s s'" "core (ks_thr s' t) = core (attached_td (ks_stamp s) (ks_thr s t))"
    "\<And>a. a \<noteq> t \<Longrightarrow> core (ks_thr s' a) = core (ks_thr s a)" "ks_ctx s' = ks_ctx s" "ks_mem s' = ks_mem s"
    "ks_stamp s' = snd (assign_stamp_id_stamp (ks_stamp s))"
    by (rule attach_thread_rep [OF assms]) (rule that)
  have "stamp_ok (ks_stamp s)" by (rule repD(4) [OF assms(1)])
  then have "find_thread (get_stamp_id t (ks_stamp s)) s' = Inr t" "td_state (ks_thr s' t) = THREAD_STATE_PAUSED"
    using core_fields [OF s'(4)] assms(4) by (simp_all add: find_thread_def WITH_STAMP_ID_Inr attached_td_def)
  with s' show ?thesis by blast
qed

theorem attach_thread_correct_witness:
  "\<exists>s'. attach_thread xE 1 tA True x0 = (ERR_NONE, Some idA, s') \<and> rep xE s' (v_attach tA empty_view) \<and>
    find_thread idA s' = Inr tA"
proof -
  have "tA \<noteq> NULL" "ptr_ok tA" "td_magic (ks_thr x0 tA) \<noteq> THREAD_MAGIC" "length (v_all empty_view) < 2 ^ 31 - 2"
    by (simp_all add: ptr_ok_def x0_facts empty_view_def) (simp add: xtd_def)
  from attach_thread_correct [OF x0_rep x0_quiet this(1-3) x0_facts(4) this(4), of 1 True]
  show ?thesis by (auto simp: x0_facts)
qed

text \<open>Attaching fails and changes nothing when the thread is attached already
  (\<open>ERR_BAD_STATE\<close>), and when it has no stack, a stack that is too small or lacks the guard
  word, a priority out of range, or an affinity mask with no CPU of the machine
  (\<open>ERR_BAD_INPUT\<close>).\<close>

lemma attach_thread_rejects:
  assumes "m_cpus E \<le> CONFIG_MAX_CPUS" "length (td_affinity (ks_thr s t)) = THREAD_AFFINITY_SIZE"
    and "td_magic (ks_thr s t) = THREAD_MAGIC \<or> \<not> attachable E s t"
  shows "attach_thread E c t w s =
    (if td_magic (ks_thr s t) = THREAD_MAGIC then ERR_BAD_STATE else ERR_BAD_INPUT, None, s)"
  using attach_thread_errors [OF assms(1,2)] assms(3) by auto

lemma attach_thread_rejects_example:
  "attach_thread xE 0 tA True x1 = (ERR_BAD_STATE, None, x1)"
proof -
  have "td_magic (ks_thr x1 tA) = THREAD_MAGIC" "length (td_affinity (ks_thr x1 tA)) = THREAD_AFFINITY_SIZE"
    using core_fields [OF x1(3)] by (simp_all add: td_defs)
  then show ?thesis using attach_thread_rejects [of xE x1 tA] by (simp add: xE_def)
qed

text \<open>C10: Detaching a paused or stopped thread takes it off both lists, hands its descriptor
  back, and leaves its identifier unknown (\<open>ERR_NOT_FOUND\<close>).\<close>

theorem detach_thread_correct:
  assumes "rep E s v" "quiet E c s" "find_thread i s = Inr t"
    and "td_state (ks_thr s t) = THREAD_STATE_PAUSED \<or> td_state (ks_thr s t) = THREAD_STATE_STOPPED"
  shows "\<exists>s'. detach_thread c i s = (ERR_NONE, Some t, s') \<and> rep E s' (v_detach t v) \<and> same_hw s s' \<and>
    t \<notin> set (v_all (v_detach t v)) \<and> find_thread i s' = Inl ERR_NOT_FOUND \<and>
    (\<forall>a. a \<noteq> t \<longrightarrow> core (ks_thr s' a) = core (ks_thr s a))"
proof -
  have "idle_state (ks_thr s t)" using assms(4) by (simp add: idle_state_def)
  from detach_thread_rep [OF assms(1-3) this] obtain s' where
    s': "detach_thread c i s = (ERR_NONE, Some t, s')" "rep E s' (v_detach t v)"
    "same_hw s s'" "td_magic (ks_thr s' t) = 0" "\<And>a. a \<noteq> t \<Longrightarrow> core (ks_thr s' a) = core (ks_thr s a)"
    by blast
  have "t = get_stamp_id_ptr i" using assms(3) by (auto simp: find_thread_def WITH_STAMP_ID_Inr)
  then have "find_thread i s' = Inl ERR_NOT_FOUND" using s'(4) by (simp add: find_thread_def WITH_STAMP_ID_Inl)
  moreover have "t \<notin> set (v_all (v_detach t v))"
    using dlist_distinct [OF structD(1) [OF repD(2) [OF assms(1)]]] by (simp add: v_detach_def)
  ultimately show ?thesis using s' by blast
qed

theorem detach_thread_correct_witness:
  "\<exists>s'. detach_thread 1 idA x2 = (ERR_NONE, Some tA, s') \<and> rep xE s' (v_detach tA v2) \<and>
    find_thread idA s' = Inl ERR_NOT_FOUND"
proof -
  have "td_state (ks_thr x2 tA) = THREAD_STATE_PAUSED" using core_fields [OF x2(3)] by (simp add: td_defs)
  then show ?thesis using detach_thread_correct [OF x2(1) x2_quiet x2_find(1), of 1] by auto
qed

section \<open>Resuming\<close>

text \<open>C5: Resuming a paused thread sends it to the least loaded CPU its affinity admits (the
  first of those with the fewest threads), puts it at the rear of that CPU's queue of its
  priority, and gives it a fresh time quantum; no other thread or CPU changes.\<close>

theorem resume_thread_correct:
  assumes "rep E s v" "quiet E c s" "find_thread i s = Inr t" "td_state (ks_thr s t) = THREAD_STATE_PAUSED"
  shows "\<exists>s' k. resume_thread E c i s = Ret (ERR_NONE, s') \<and>
    least_loaded (\<lambda>c. load (v_queue v c)) (BIT_ARRAY_GET (td_affinity (ks_thr s t))) {..<m_cpus E} k \<and>
    rep E s' (v_resume k (unat (td_priority (ks_thr s t))) t v) \<and>
    qlist (v_queue (v_resume k (unat (td_priority (ks_thr s t))) t v) k (unat (td_priority (ks_thr s t)))) =
      qlist (v_queue v k (unat (td_priority (ks_thr s t)))) @ [t] \<and>
    core (ks_thr s' t) = core (running_td k (update_priority_quantum (ks_thr s t))) \<and>
    (\<forall>a. a \<noteq> t \<longrightarrow> core (ks_thr s' a) = core (ks_thr s a)) \<and> (\<forall>j. j \<noteq> k \<longrightarrow> ks_cpus s' j = ks_cpus s j) \<and>
    same_hw s s'"
proof -
  obtain s' k where a: "resume_thread E c i s = Ret (ERR_NONE, s')" "k < m_cpus E"
    "least_loaded (\<lambda>c. load (v_queue v c)) (BIT_ARRAY_GET (td_affinity (ks_thr s t))) {..<m_cpus E} k"
    "rep E s' (v_resume k (unat (td_priority (ks_thr s t))) t v)" "same_hw s s'"
    "core (ks_thr s' t) = core (running_td k (update_priority_quantum (ks_thr s t)))"
    "\<And>a. a \<noteq> t \<Longrightarrow> core (ks_thr s' a) = core (ks_thr s a)" "\<And>j. j \<noteq> k \<Longrightarrow> ks_cpus s' j = ks_cpus s j"
    by (rule resume_thread_rep [OF assms]) (rule that)
  moreover have "qlist (v_queue (v_resume k p t v) k p) = qlist (v_queue v k p) @ [t]" for p
    by (simp add: v_resume_def v_queue_upd_def)
  ultimately show ?thesis by blast
qed

theorem resume_thread_correct_witness:
  "\<exists>s'. resume_thread xE 1 idA x2 = Ret (ERR_NONE, s') \<and> rep xE s' (v_resume 0 2 tA v2)"
proof -
  have f: "td_state (ks_thr x2 tA) = THREAD_STATE_PAUSED" "td_affinity (ks_thr x2 tA) = [1]"
    "td_priority (ks_thr x2 tA) = 2"
    using core_fields [OF x2(3)] by (simp_all add: td_defs)
  show ?thesis
    using resume_thread_correct [OF x2(1) x2_quiet x2_find(1) f(1), of 1] least_is_0 by (auto simp: f)
qed

section \<open>Pausing and stopping\<close>

text \<open>C7: Pausing or stopping a thread that is not the one this CPU runs takes it out of its
  CPU's queue and onto the inactive list. When it is the current thread of another CPU, that CPU's
  registers become its saved context and the CPU is left in the halt loop. No other thread
  changes and the locks are as before.\<close>

theorem deactivate_remote_correct:
  assumes "rep E s v" "quiet E c s" "find_thread i s = Inr t" "td_state (ks_thr s t) = THREAD_STATE_RUNNING"
    and "\<not> (is_current_on v s t \<and> c = unat (td_cpu (ks_thr s t)))"
  shows "\<exists>s'. deactivate_thread E c stop i out lk s = Ret (ERR_NONE, s') \<and>
    rep E s' (v_pause (unat (td_cpu (ks_thr s t))) (unat (td_priority (ks_thr s t))) t v) \<and> same_hw s s' \<and>
    core (ks_thr s' t) = core (idle_td stop out
      (if is_current_on v s t then (ks_thr s t)\<lparr>td_context := ks_ctx s (unat (td_cpu (ks_thr s t)))\<rparr> else ks_thr s t)) \<and>
    (\<forall>a. a \<noteq> t \<longrightarrow> core (ks_thr s' a) = core (ks_thr s a)) \<and>
    ks_ctx s' = (if is_current_on v s t then (ks_ctx s)(unat (td_cpu (ks_thr s t)) :=
      store_halt E (ks_ctx s (unat (td_cpu (ks_thr s t))))) else ks_ctx s)"
  using deactivate_thread_rep [OF assms, of stop out lk] by metis

theorem deactivate_remote_correct_witness:
  "\<exists>s'. stop_thread xE 1 idB 7 x4 = Ret (ERR_NONE, s') \<and> rep xE s' (v_pause 0 2 tB v4) \<and>
     td_state (ks_thr s' tB) = THREAD_STATE_STOPPED \<and> td_output (ks_thr s' tB) = 7 \<and>
     td_context (ks_thr s' tB) = td_context (ks_thr x4 tB)"
proof -
  have f: "td_state (ks_thr x4 tB) = THREAD_STATE_RUNNING" "td_cpu (ks_thr x4 tB) = 0" "td_priority (ks_thr x4 tB) = 2"
    using core_fields [OF x4(3)] by (simp_all add: td_defs)
  have n: "\<not> is_current_on v4 x4 tB"
    by (simp add: is_current_on_def is_current_def f queues)
  obtain s' where s': "deactivate_thread xE 1 True idB 7 Lock_null x4 = Ret (ERR_NONE, s')"
    "rep xE s' (v_pause 0 2 tB v4)" "core (ks_thr s' tB) = core (idle_td True 7 (ks_thr x4 tB))"
    using deactivate_remote_correct [OF x4(1) x4(6) x4_find(2) f(1), of 1 True 7 Lock_null] n by (auto simp: f)
  moreover have "td_state (ks_thr s' tB) = THREAD_STATE_STOPPED" "td_output (ks_thr s' tB) = 7"
    "td_context (ks_thr s' tB) = td_context (ks_thr x4 tB)"
    using core_fields [OF s'(3)] by (simp_all add: idle_td_def)
  ultimately show ?thesis by (auto simp: stop_thread_def)
qed

text \<open>C6: A thread that pauses itself leaves its CPU's queue for the inactive list; its saved
  context is the CPU's registers with interrupts on, so that it continues after the call once
  resumed; the CPU goes to the halt loop with interrupts on, and the lock handed in, the
  scheduler's locks and the record of the outer lock are all released.\<close>

theorem pause_this_thread_correct:
  assumes "rep E s v" "quiet E c s" "get_thread_ptr c s = t" "t \<noteq> NULL" "c < m_cpus E"
  shows "\<exists>s'. pause_this_thread E c lk s = Ret (ERR_NONE, s') \<and>
    rep E s' (v_pause c (unat (td_priority (ks_thr s t))) t v) \<and> halt_hw c lk s s' \<and> get_thread_ptr c s' \<noteq> t \<and>
    td_state (ks_thr s' t) = THREAD_STATE_PAUSED \<and>
    td_context (ks_thr s' t) = store_int_enabled (ks_ctx s c) \<and>
    ks_ctx s' = (ks_ctx s)(c := store_halt E (store_int_enabled (ks_ctx s c))) \<and>
    (\<forall>a. a \<noteq> t \<longrightarrow> core (ks_thr s' a) = core (ks_thr s a))"
  by (rule pause_this_thread_rep [OF assms])

theorem pause_this_thread_correct_witness:
  "\<exists>s'. pause_this_thread xE 0 Lock_null x5 = Ret (ERR_NONE, s') \<and> rep xE s' (v_pause 0 2 tA v4) \<and>
    td_state (ks_thr s' tA) = THREAD_STATE_PAUSED"
proof -
  have "get_thread_ptr 0 x5 = tA" "tA \<noteq> NULL" "0 < m_cpus xE" "td_priority (ks_thr x5 tA) = 2"
    using core_fields [OF x5(1)] by (simp_all add: get_thread_ptr_def x5_eq(2) xE_def) (simp add: td_defs)
  with pause_this_thread_correct [OF x5_rep x5(5) this(1-3), of Lock_null] show ?thesis by auto
qed

section \<open>Errors\<close>

text \<open>C11: An operation on an identifier that names no thread reports that, one on a thread in
  the wrong state (detaching a running thread, resuming one that is not paused, pausing one that
  is not running, stopping a stopped one) reports \<open>ERR_BAD_STATE\<close>, and then the whole state,
  locks and interrupt flags included, is what it was.\<close>

theorem scheduler_errors_change_nothing:
  assumes "rep E s v" "quiet E c s"
  shows "(case find_thread i s of
      Inl e \<Rightarrow> (e = ERR_NOT_FOUND \<or> e = ERR_EXPIRED) \<and> detach_thread c i s = (e, None, s) \<and>
        resume_thread E c i s = Ret (e, s) \<and> pause_thread E c i s = Ret (e, s) \<and> stop_thread E c i out s = Ret (e, s)
    | Inr t \<Rightarrow> (case td_state (ks_thr s t) of
        THREAD_STATE_RUNNING \<Rightarrow> detach_thread c i s = (ERR_BAD_STATE, None, s) \<and> resume_thread E c i s = Ret (ERR_BAD_STATE, s)
      | THREAD_STATE_PAUSED \<Rightarrow> pause_thread E c i s = Ret (ERR_BAD_STATE, s)
      | THREAD_STATE_STOPPED \<Rightarrow> resume_thread E c i s = Ret (ERR_BAD_STATE, s) \<and>
          pause_thread E c i s = Ret (ERR_BAD_STATE, s) \<and> stop_thread E c i out s = Ret (ERR_BAD_STATE, s)
      | THREAD_STATE_UNKNOWN \<Rightarrow> False))"
proof (rule find_cases [OF assms(1), of i, case_names err running paused stopped])
  fix e assume e: "find_thread i s = Inl e" "e = ERR_NOT_FOUND \<or> e = ERR_EXPIRED"
  then show ?thesis
    using detach_thread_error [OF assms, where i = i and err = e] resume_thread_error [OF assms(2), where i = i and err = e]
      deactivate_thread_error [OF assms(2), where i = i and err = e]
    by (auto simp: pause_thread_def stop_thread_def)
next
  fix t assume t: "find_thread i s = Inr t" "td_state (ks_thr s t) = THREAD_STATE_RUNNING"
  then show ?thesis
    using detach_thread_error [OF assms, where i = i and err = ERR_BAD_STATE] resume_thread_error [OF assms(2), where i = i and err = ERR_BAD_STATE]
    by (auto simp: idle_state_def)
next
  fix t assume t: "find_thread i s = Inr t" "td_state (ks_thr s t) = THREAD_STATE_PAUSED"
  then show ?thesis
    using deactivate_thread_error [OF assms(2), where i = i and err = ERR_BAD_STATE and stop = False] by (auto simp: pause_thread_def)
next
  fix t assume t: "find_thread i s = Inr t" "td_state (ks_thr s t) = THREAD_STATE_STOPPED"
  then show ?thesis
    using deactivate_thread_error [OF assms(2), where i = i and err = ERR_BAD_STATE] resume_thread_error [OF assms(2), where i = i and err = ERR_BAD_STATE]
    by (auto simp: pause_thread_def stop_thread_def)
qed

theorem scheduler_errors_change_nothing_witness:
  "detach_thread 1 idA x4 = (ERR_BAD_STATE, None, x4) \<and> resume_thread xE 1 idA x4 = Ret (ERR_BAD_STATE, x4)"
proof -
  have "td_state (ks_thr x4 tA) = THREAD_STATE_RUNNING" using core_fields [OF x4(2)] by (simp add: td_defs)
  then show ?thesis using scheduler_errors_change_nothing [OF x4(1) x4(6), where i = idA and c = 1] by (simp add: x4_find)
qed

text \<open>C12: Once a descriptor is attached anew, an identifier it had before, with another stamp,
  is refused by every operation with \<open>ERR_EXPIRED\<close>, and nothing changes.\<close>

theorem stale_id_expires:
  assumes "rep E s v" "quiet E c s" "t \<noteq> NULL" "ptr_ok t" "td_magic (ks_thr s t) \<noteq> THREAD_MAGIC"
    and "attachable E s t" "length (v_all v) < 2 ^ 31 - 2"
    and "get_stamp_id_ptr i = t" "get_stamp_id_stamp i \<noteq> ks_stamp s"
  shows "\<exists>s'. attach_thread E c t w s = (ERR_NONE, if w then Some (get_stamp_id t (ks_stamp s)) else None, s') \<and>
    detach_thread c i s' = (ERR_EXPIRED, None, s') \<and> resume_thread E c i s' = Ret (ERR_EXPIRED, s') \<and>
    pause_thread E c i s' = Ret (ERR_EXPIRED, s') \<and> stop_thread E c i out s' = Ret (ERR_EXPIRED, s')"
proof -
  obtain s' where s': "attach_thread E c t w s = (ERR_NONE, if w then Some (get_stamp_id t (ks_stamp s)) else None, s')"
    "rep E s' (v_attach t v)" "same_hw s s'" "core (ks_thr s' t) = core (attached_td (ks_stamp s) (ks_thr s t))"
    "\<And>a. a \<noteq> t \<Longrightarrow> core (ks_thr s' a) = core (ks_thr s a)" "ks_ctx s' = ks_ctx s" "ks_mem s' = ks_mem s"
    by (rule attach_thread_rep [OF assms(1-7)]) (rule that)
  have q: "quiet E c s'" by (rule quiet_same [OF assms(2) s'(3,6)])
  have e: "find_thread i s' = Inl ERR_EXPIRED"
    using core_fields [OF s'(4)] assms(8,9) by (simp add: find_thread_def WITH_STAMP_ID_Inl attached_td_def)
  show ?thesis
    using s'(1) detach_thread_error [OF s'(2) q, where i = i and err = ERR_EXPIRED] resume_thread_error [OF q, where i = i and err = ERR_EXPIRED]
      deactivate_thread_error [OF q, where i = i and err = ERR_EXPIRED] e
    by (simp add: pause_thread_def stop_thread_def)
qed

theorem stale_id_expires_witness:
  "\<exists>s'. attach_thread xE 1 tA True x0 = (ERR_NONE, Some idA, s') \<and>
    pause_thread xE 1 (get_stamp_id tA 5) s' = Ret (ERR_EXPIRED, s')"
proof -
  have t: "tA \<noteq> NULL" "ptr_ok tA" "td_magic (ks_thr x0 tA) \<noteq> THREAD_MAGIC" "length (v_all empty_view) < 2 ^ 31 - 2"
    by (simp_all add: ptr_ok_def x0_facts empty_view_def) (simp add: xtd_def)
  have i: "get_stamp_id_ptr (get_stamp_id tA 5) = tA" "get_stamp_id_stamp (get_stamp_id tA 5) \<noteq> ks_stamp x0"
    using t(2) by (simp_all add: stamp_ok_def x0_facts)
  show ?thesis
    using stale_id_expires [OF x0_rep x0_quiet t(1-3) x0_facts(4) t(4) i, of 1 True] by (auto simp: x0_facts)
qed

section \<open>The timer\<close>

text \<open>C4: A timer interrupt that ends a turn (the quantum is used up, or a thread of a better
  priority waits) saves the interrupted registers in the thread that ran, puts that thread at the
  rear of its queue, and continues with the front thread of the best non-empty priority: its
  saved context is what the interrupt returns to, and the CPU's thread pointer names it.\<close>

theorem timer_switches_threads:
  assumes "rep E s v" "c < m_cpus E" "load (v_queue v c) \<noteq> 0" "\<not> cd_load_context (ks_cpus s c)"
    and "t = front v (ks_cpus s c) c" "p = cur_prio (ks_cpus s c)"
    and "ks_mem s (td_stack (ks_thr s t)) = STACK_OVERRUN_MAGIC"
    and "preempted v (ks_cpus s c) c \<or> td_quantum (ks_thr s t) = 0"
  shows "\<exists>s' r t2. timer_schedule c frame s = Ret (if t2 = t then frame else td_context (ks_thr s t2), s') \<and>
    highest v c r \<and> t2 = hd (qlist (v_queue (v_rotate c p v) c r)) \<and> get_thread_ptr c s' = t2 \<and>
    qlist (v_queue (v_rotate c p v) c p) = rotate1 (qlist (v_queue v c p)) \<and>
    rep E s' (v_rotate c p v) \<and> core (ks_thr s' t) = core (switched frame (ks_thr s t)) \<and>
    (\<forall>a. a \<noteq> t \<longrightarrow> core (ks_thr s' a) = core (ks_thr s a)) \<and> same_hw s s'"
proof -
  note b = busy_cpu(2) [OF assms(1-3)]
  have ok: "q_ok (v_queue v c p)"
    using struct_queue(2) [OF repD(2) [OF assms(1)] assms(2) b] assms(6) by simp
  obtain s' r t2 where
    "timer_schedule c frame s = Ret (if t2 = t then frame else td_context (ks_thr s t2), s')"
    "highest v c r" "cd_current_priority (ks_cpus s' c) = int r" "t2 = hd (qlist (v_queue (v_rotate c p v) c r))"
    "rep E s' (v_rotate c p v)" "ks_fs_base s' c = t2"
    "core (ks_thr s' t) = core (switched frame (ks_thr s t))"
    "\<And>a. a \<noteq> t \<Longrightarrow> core (ks_thr s' a) = core (ks_thr s a)" "same_hw s s'"
    by (rule timer_switch [OF assms(1-4), folded assms(5,6), OF assms(7,8), where frame = frame]) (rule that)
  then show ?thesis
    using tq.rot_law [OF ok] by (auto simp: get_thread_ptr_def v_rotate_def v_queue_upd_def)
qed

theorem timer_switches_threads_witness:
  "\<exists>s'. timer_schedule 0 xframe x6 = Ret (td_context (ks_thr x6 tB), s') \<and> get_thread_ptr 0 s' = tB"
proof -
  have l: "load (v_queue v4 0) \<noteq> 0" by (rule loads)
  obtain s' r t2 where a: "timer_schedule 0 xframe x6 = Ret (if t2 = tA then xframe else td_context (ks_thr x6 t2), s')"
    "highest v4 0 r" "t2 = hd (qlist (v_queue (v_rotate 0 2 v4) 0 r))" "get_thread_ptr 0 s' = t2"
    "qlist (v_queue (v_rotate 0 2 v4) 0 2) = rotate1 (qlist (v_queue v4 0 2))"
    using timer_switches_threads [OF x6(1) x4_cur(3) l x6(4) x6(5) [symmetric] _ x6(2), of 2 xframe] x6(3) x6(6) by auto
  have "r = 2" using a(2) by (auto simp: highest_def queues split: if_splits)
  then have "t2 = tB" using a(3,5) by (simp add: queues)
  then show ?thesis using a(1,4) by auto
qed

text \<open>C2: Round robin: while no thread of a better priority waits, the front thread keeps the
  CPU for exactly its remaining quantum, through that many timer interrupts; the next one moves it
  to the rear, and the CPU runs the thread that was behind it.\<close>

theorem timer_round_robin:
  assumes "steady E s v c" "p = cur_prio (ks_cpus s c)"
    and "unat (td_quantum (ks_thr s (front v (ks_cpus s c) c))) = n" "length fs = Suc n"
  shows "\<exists>s'. run_ticks c fs s = Ret s' \<and> steady E s' (v_rotate c p v) c \<and>
    cur_prio (ks_cpus s' c) = p \<and> get_thread_ptr c s' = hd (rotate1 (qlist (v_queue v c p)))"
  using one_turn [OF assms] by (simp add: get_thread_ptr_def)

theorem timer_round_robin_witness:
  "\<exists>s'. run_ticks 0 (replicate 11 xframe) x5 = Ret s' \<and> get_thread_ptr 0 s' = tB"
proof -
  have "td_quantum (ks_thr x5 tA) = 10" using core_fields [OF x5(1)] by (simp add: td_defs)
  then show ?thesis
    using timer_round_robin [OF x5_steady refl, where n = 10 and fs = "replicate 11 xframe"]
    by (auto simp: x5(7,8) queues)
qed

text \<open>C3: Bounded waiting: on a CPU where no thread of a better priority appears, the thread at
  position \<open>i\<close> of the current queue gets the CPU within eleven timer interrupts for each
  thread before it.\<close>

theorem timer_bounded_waiting:
  assumes "steady E s v c" "t = qlist (v_queue v c (cur_prio (ks_cpus s c))) ! i"
    and "i < length (qlist (v_queue v c (cur_prio (ks_cpus s c))))"
  shows "\<exists>m \<le> 11 * i. \<exists>s'. run_ticks c (map frames [0..<m]) s = Ret s' \<and> get_thread_ptr c s' = t"
  using turns [OF assms(1) refl refl assms(3), of frames] by (auto simp: get_thread_ptr_def assms(2))

theorem timer_bounded_waiting_witness:
  "\<exists>m \<le> 11. \<exists>s'. run_ticks 0 (map (\<lambda>_. xframe) [0..<m]) x5 = Ret s' \<and> get_thread_ptr 0 s' = tB"
  using timer_bounded_waiting [OF x5_steady, of tB 1 "\<lambda>_. xframe"] by (simp add: x5(7) queues)

section \<open>Safety and totality\<close>

text \<open>
  A CPU's running thread, in every reachable state; the timer procedure is still arbitrary here.
\<close>

lemma running_unique:
  assumes "reachable E call s" "timer_proc_keeps E call"
    and "c < m_cpus E" "get_thread_ptr c s = t" "t \<noteq> NULL"
  shows "td_magic (ks_thr s t) = THREAD_MAGIC \<and> td_state (ks_thr s t) = THREAD_STATE_RUNNING \<and>
    unat (td_cpu (ks_thr s t)) = c \<and> cd_current_priority (ks_cpus s c) = int (unat (td_priority (ks_thr s t))) \<and>
    cp_active_tail (cd_priorities (ks_cpus s c) (unat (td_priority (ks_thr s t)))) = t \<and>
    (\<forall>k<m_cpus E. get_thread_ptr k s = t \<longrightarrow> k = c)"
proof -
  obtain v where rep: "rep E s v" using reachable_rep [OF assms(1,2)] by blast
  have *: "runs_on (ks_thr s) k (unat (td_priority (ks_thr s t))) t \<and> t \<in> set (v_all v) \<and>
      cd_current_priority (ks_cpus s k) = int (unat (td_priority (ks_thr s t))) \<and>
      cp_active_tail (cd_priorities (ks_cpus s k) (unat (td_priority (ks_thr s t)))) = t"
    if "k < m_cpus E" "get_thread_ptr k s = t" for k
  proof -
    have "cpu_ok (ks_cpus s k) (v_queue v k) t" using repD(6) [OF rep that(1)] that(2) by (simp add: get_thread_ptr_def)
    then have l: "load (v_queue v k) \<noteq> 0" and t: "t = front v (ks_cpus s k) k"
      using assms(5) by (auto simp: cpu_ok_def front_def cur_prio_def split: if_splits)
    note b = busy_cpu [OF rep that(1) l, folded t]
    show ?thesis using b(1,4,6,7,8) by simp
  qed
  have "td_magic (ks_thr s t) = THREAD_MAGIC"
    using * [OF assms(3,4)] repD(3) [OF rep] by (auto simp: heap_ok_def)
  then show ?thesis using * [OF assms(3,4)] * by (auto simp: runs_on_def)
qed

text \<open>The timer's scheduling does not stop the kernel while the stack guards are intact.\<close>

lemma timer_schedule_returns:
  assumes "rep E s v" "c < m_cpus E"
    and "\<forall>t\<in>set (v_all v). ks_mem s (td_stack (ks_thr s t)) = STACK_OVERRUN_MAGIC"
  shows "\<exists>f' s' v'. timer_schedule c f s = Ret (f', s') \<and> rep E s' v' \<and> same_hw s s'"
proof -
  have "timer_schedule c f s \<noteq> Halted"
  proof (cases "load (v_queue v c) = 0 \<or> cd_load_context (ks_cpus s c)")
    case True
    then show ?thesis
      using timer_idle [OF assms(1,2)] timer_load(1) [OF assms(1,2)] by (cases "load (v_queue v c) = 0") auto
  next
    case False
    then have l: "load (v_queue v c) \<noteq> 0" "\<not> cd_load_context (ks_cpus s c)" by auto
    let ?t = "front v (ks_cpus s c) c"
    have m: "ks_mem s (td_stack (ks_thr s ?t)) = STACK_OVERRUN_MAGIC"
      using busy_cpu(6) [OF assms(1,2) l(1)] assms(3) by blast
    show ?thesis
    proof (cases "preempted v (ks_cpus s c) c \<or> td_quantum (ks_thr s ?t) = 0")
      case True
      show ?thesis by (rule timer_switch [OF assms(1,2) l m True, of f]) simp
    next
      case False
      then show ?thesis using timer_tick(1) [OF assms(1,2) l m, of f] by simp
    qed
  qed
  then show ?thesis using timer_schedule_total [OF assms(1,2), of f] by blast
qed

text \<open>C38: A defect of \<open>do_pause_task\<close>: when another CPU is asked to pause its current
  thread before its timer has loaded that thread (\<open>load_context\<close> still set), the registers
  that CPU happens to run with overwrite the thread's saved context, which is lost.\<close>

theorem pause_before_load_loses_context:
  assumes "rep E s v" "quiet E c s" "find_thread i s = Inr t" "td_state (ks_thr s t) = THREAD_STATE_RUNNING"
    and "is_current_on v s t" "unat (td_cpu (ks_thr s t)) = k" "k \<noteq> c" "cd_load_context (ks_cpus s k)"
  shows "get_thread_ptr k s = NULL \<and>
    (\<exists>s'. pause_thread E c i s = Ret (ERR_NONE, s') \<and> td_context (ks_thr s' t) = ks_ctx s k)"
proof -
  have n: "\<not> (is_current_on v s t \<and> c = unat (td_cpu (ks_thr s t)))" using assms(6,7) by simp
  obtain s' where s': "deactivate_thread E c False i 0 Lock_null s = Ret (ERR_NONE, s')"
    "core (ks_thr s' t) = core (idle_td False 0 ((ks_thr s t)\<lparr>td_context := ks_ctx s k\<rparr>))"
    using deactivate_thread_rep [OF assms(1-4) n, where stop = False and out = 0 and lk = Lock_null] assms(5,6) by metis
  have "td_context (ks_thr s' t) = ks_ctx s k" using core_fields(2) [OF s'(2)] by (simp add: idle_td_def)
  moreover have "cpu_ok (ks_cpus s k) (v_queue v k) (ks_fs_base s k)"
    using running_thread(1) [OF assms(1,3,4)] assms(6) repD(6) [OF assms(1)] by simp
  ultimately show ?thesis using s'(1) assms(8) by (simp add: cpu_ok_def get_thread_ptr_def pause_thread_def)
qed

theorem pause_before_load_loses_context_witness:
  "td_context (ks_thr x4 tA) \<noteq> ks_ctx x4 0 \<and>
   (\<exists>s'. pause_thread xE 1 idA x4 = Ret (ERR_NONE, s') \<and> td_context (ks_thr s' tA) = ks_ctx x4 0)"
proof -
  note f = core_fields [OF x4(2)]
  have t: "td_state (ks_thr x4 tA) = THREAD_STATE_RUNNING" "td_cpu (ks_thr x4 tA) = 0" "td_priority (ks_thr x4 tA) = 2"
    "td_context (ks_thr x4 tA) = xframe\<lparr>fr_rip := 0x400000\<rparr>"
    using f by (simp_all add: td_defs)
  have c: "is_current_on v4 x4 tA" by (simp add: is_current_on_def is_current_def t x4(7) queues)
  show ?thesis
    using pause_before_load_loses_context [OF x4(1) x4(6) x4_find(1) t(1) c, of 0 1] x4(8) t(2,4)
    by (simp add: x4(5)) (simp add: x0_def xframe_def)
qed

end
