(* ===== verification/Sync_Safety.thy ===== *)
theory Sync_Safety
  imports Sync_Sleep Sched_Properties
begin

text \<open>
  The scheduler together with the timer procedure the kernel registers: \<open>sleep_timer_proc\<close>
  keeps the scheduler's invariant and always returns, so what holds of the scheduler for a
  well-behaved timer procedure holds of the kernel's timer interrupt.
\<close>

section \<open>The timer procedure\<close>

text \<open>What every operation leaves: the invariant holds, and no lock was spun on in vain.\<close>

definition came_back :: "machine \<Rightarrow> 'z kstate_scheme \<Rightarrow> 'z kstate_scheme \<Rightarrow> bool" where
  "came_back E s s' \<longleftrightarrow> (\<exists>v'. rep E s' v') \<and> hw_spun s' = hw_spun s"

abbreviation kernel_timer :: "machine \<Rightarrow> ptr \<Rightarrow> nat \<Rightarrow> u64 \<Rightarrow> 'z sync_scheme \<Rightarrow> 'z sync_scheme outcome" where
  "kernel_timer E \<equiv> \<lambda>_. sleep_timer_proc E"

lemma sleep_timer_proc_returns:
  assumes "rep E s v" "quiet E c s" "c < m_cpus E"
  shows "\<exists>s'. sleep_timer_proc E c x s = Ret s' \<and> came_back E s s' \<and> same_hw s s'"
proof (cases "sd_tail (sy_sleeping s c) = NULL")
  case True
  then show ?thesis using assms(1) by (auto simp: sleep_timer_proc_def came_back_def same_hw_def)
next
  case False
  let ?node = "sd_tail (sy_sleeping s c)"
  let ?s1 = "on_sleeping c (\<lambda>d. d\<lparr>sd_tail := sn_next (sy_sleep_nodes s ?node)\<rparr>) s"
  let ?tail = "sd_tail (sy_sleeping ?s1 c)"
  let ?s2 = "if ?tail \<noteq> NULL then set_timer_ticks c (sn_ticks (sy_sleep_nodes ?s1 ?tail)) ?s1 else ?s1"
  have r: "rep E ?s2 v" by (rule rep_only [OF assms(1)]) (simp_all add: on_sleeping_def set_timer_ticks_def)
  have q: "quiet E c ?s2" using assms(2) by (simp add: quiet_def on_sleeping_def set_timer_ticks_def)
  have h: "same_hw s ?s2" "hw_spun ?s2 = hw_spun s" by (simp_all add: same_hw_def on_sleeping_def set_timer_ticks_def)
  obtain e s3 v3 where s3: "resume_thread E c (sn_thread (sy_sleep_nodes ?s2 ?node)) ?s2 = Ret (e, s3)" "rep E s3 v3" "same_hw ?s2 s3"
    using resume_thread_total [OF r q] by blast
  have "sleep_timer_proc E c x s = Ret s3"
    using False s3(1) unfolding sleep_timer_proc_def Let_def free_block_def by simp
  moreover have "hw_spun s3 = hw_spun s" using resume_thread_spun [OF q assms(3) s3(1)] h(2) by simp
  ultimately show ?thesis using s3(2,3) h(1) by (auto simp: came_back_def same_hw_def)
qed

lemma sleep_timer_proc_keeps: "timer_proc_keeps E (kernel_timer E)"
  unfolding timer_proc_keeps_def
proof (intro allI impI)
  fix a c x s s' v
  assume "c < m_cpus E" "rep E s v" "quiet E c s" "sleep_timer_proc E c x s = Ret s'"
  then show "\<exists>v'. rep E s' v'" using sleep_timer_proc_returns [of E s v c x] by (auto simp: came_back_def)
qed

lemma timer_interrupt_returns:
  fixes s :: "'z sync_scheme"
  assumes "rep E s v" "quiet E c (set_outer_spinlock c True s)" "c < m_cpus E"
    and "\<forall>t\<in>set (v_all v). ks_mem s (td_stack (ks_thr s t)) = STACK_OVERRUN_MAGIC"
  shows "\<exists>s'. run_isr c (handle_timer_int E (kernel_timer E) c) s = Ret s' \<and> came_back E s s' \<and> hw_busy s' = hw_busy s"
proof -
  have cl: "rep E (cli c s) v" by (rule rep_only [OF assms(1)]) (simp_all add: cli_def)
  have m: "\<forall>t\<in>set (v_all v). ks_mem (cli c s) (td_stack (ks_thr (cli c s) t)) = STACK_OVERRUN_MAGIC"
    using assms(4) by (simp add: cli_def)
  obtain f1 s1 v1 where s1: "timer_schedule c (ks_ctx s c) (cli c s) = Ret (f1, s1)" "rep E s1 v1" "same_hw (cli c s) s1"
    using timer_schedule_returns [OF cl assms(3) m, of "ks_ctx s c"] by blast
  have hw1: "hw_spun s1 = hw_spun s" "hw_busy s1 = hw_busy s"
    using timer_schedule_locks(1) [OF s1(1)] s1(3) by (simp_all add: cli_def same_hw_def)
  have q1: "quiet E c (set_outer_spinlock c True s1)" by (rule quiet_in_timer [OF assms(2) s1(1,3)])
  have "\<exists>s2. handle_timer E (kernel_timer E) c s1 = Ret s2 \<and> came_back E s1 s2 \<and> hw_busy s2 = hw_busy s1"
  proof -
    define s2 where "s2 = (if c = m_bsp_cpu E then s1\<lparr>ks_ticks := ks_ticks s1 + 1\<rparr> else s1)"
    have r2: "rep E s2 v1" by (rule rep_only [OF s1(2)]) (simp_all add: s2_def)
    have h2: "hw_spun s2 = hw_spun s1" "hw_busy s2 = hw_busy s1" by (simp_all add: s2_def)
    show ?thesis
    proof (cases "ks_timer_ticks s2 c \<noteq> 0 \<and> ks_timer_ticks s2 c \<le> ks_ticks s2")
      case True
      define s3 where "s3 = set_outer_spinlock c True (set_timer_ticks c 0 s2)"
      have r3: "rep E s3 v1"
        by (rule rep_only [OF r2]) (simp_all add: s3_def set_outer_spinlock_def set_outer_def set_timer_ticks_def)
      have q3: "quiet E c s3"
        using q1 by (simp add: s3_def s2_def quiet_def set_outer_spinlock_def set_outer_def set_timer_ticks_def)
      have h3: "hw_spun s3 = hw_spun s1" "hw_busy s3 = hw_busy s1"
        using h2 by (simp_all add: s3_def set_outer_spinlock_def set_outer_def set_timer_ticks_def)
      obtain s4 where s4: "sleep_timer_proc E c (ks_timer_ticks s2 c) s3 = Ret s4" "came_back E s3 s4" "same_hw s3 s4"
        using sleep_timer_proc_returns [OF r3 q3 assms(3)] by blast
      have "handle_timer E (kernel_timer E) c s1 = Ret (set_outer_spinlock c False s4)"
        using True s4(1) unfolding handle_timer_def Let_def s2_def [symmetric] s3_def by simp
      moreover have "came_back E s1 (set_outer_spinlock c False s4)" "hw_busy (set_outer_spinlock c False s4) = hw_busy s1"
        using s4(2,3) h3 by (auto simp: came_back_def same_hw_def set_outer_spinlock_def) (simp_all add: set_outer_def)
      ultimately show ?thesis by blast
    next
      case False
      then have "handle_timer E (kernel_timer E) c s1 = Ret s2" unfolding handle_timer_def Let_def s2_def by auto
      with r2 h2 show ?thesis by (auto simp: came_back_def)
    qed
  qed
  then obtain s2 where s2: "handle_timer E (kernel_timer E) c s1 = Ret s2" "came_back E s1 s2" "hw_busy s2 = hw_busy s1" by blast
  let ?s' = "(set_eoi c s2)\<lparr>ks_ctx := (ks_ctx (set_eoi c s2))(c := f1), hw_if := (hw_if (set_eoi c s2))(c := bit (fr_rflags f1) 9)\<rparr>"
  have "run_isr c (handle_timer_int E (kernel_timer E) c) s = Ret ?s'"
    by (simp add: run_isr_def handle_timer_int_def s1(1) s2(1))
  moreover have "rep E ?s' v'" if "rep E s2 v'" for v' by (rule rep_only [OF that]) (simp_all add: set_eoi_def)
  ultimately show ?thesis using s2(2,3) hw1 by (auto simp: came_back_def set_eoi_def)
qed

section \<open>A run of the kernel\<close>

text \<open>From boot: a thread is attached, resumed and loaded by the timer interrupt of CPU 0.\<close>

abbreviation y0 :: sync where "y0 \<equiv> with_sleepers x0 NULL 0"

lemma example_run:
  obtains s where "reachable xE (kernel_timer xE) (s :: sync)" "get_thread_ptr 0 s = tA"
proof -
  note w = with_sleepers [OF x0_rep refl, where tail = NULL and dl = 0]
  have same: "ks_thr y0 = ks_thr x0" "ks_mem y0 = ks_mem x0" "ks_stamp y0 = ks_stamp x0" "ks_all y0 = ks_all x0"
    by (simp_all add: with_sleepers_def with_mutex_def)
  have boot: "boot_state xE y0"
    by (simp add: boot_state_def with_sleepers_def with_mutex_def x0_def xE_def xtd_def)
  have t: "tA \<noteq> NULL" "ptr_ok tA" "td_magic (ks_thr y0 tA) \<noteq> THREAD_MAGIC" "attachable xE y0 tA"
    using x0_facts(1,4) by (simp_all add: ptr_ok_def same attachable_def) (simp add: xtd_def)
  have len: "length (v_all empty_view) < 2 ^ 31 - 2" by (simp add: empty_view_def)
  have a: "length (td_affinity (ks_thr y0 tA)) = THREAD_AFFINITY_SIZE" "unat (tl_total_threads (ks_all y0)) < 2 ^ 31 - 2"
    using all_length [OF x0_rep] by (simp_all add: same x0_facts(1) empty_view_def) (simp add: xtd_def)
  obtain y1 where y1: "attach_thread xE 1 tA True y0 = (ERR_NONE, if True then Some (get_stamp_id tA (ks_stamp y0)) else None, y1)"
    "rep xE y1 (v_attach tA empty_view)" "same_hw y0 y1" "core (ks_thr y1 tA) = core (attached_td (ks_stamp y0) (ks_thr y0 tA))"
    "ks_ctx y1 = ks_ctx y0"
    by (rule attach_thread_rep [OF w(1,2) t len]) (rule that)
  have c1: "core (ks_thr y1 tA) = core dA" by (simp add: y1(4) same x0_facts dA_def)
  have s1: "sched_step xE (kernel_timer xE) y0 y1" by (rule sched_step.attach [OF w(2) y1(1) t(1,2) a])
  have q1: "quiet xE c y1" for c by (rule quiet_same [OF w(2) y1(3,5)])
  have f1: "find_thread idA y1 = Inr tA"
    using find_by_core [of y1 idA dA] c1 by (simp add: ids) (simp add: td_defs)
  have d: "td_state dA = THREAD_STATE_PAUSED" "td_affinity dA = [1]" "td_priority dA = 2" by (simp_all add: td_defs)
  have z: "load (v_queue (v_attach tA empty_view) c) = 0" for c by (simp add: v_attach_def empty_view_def load_def qlist_def)
  let ?v = "v_resume 0 2 tA (v_attach tA empty_view)"
  obtain y2 where y2: "resume_thread xE 1 idA y1 = Ret (ERR_NONE, y2)" "rep xE y2 ?v" "\<And>c. quiet xE c y2"
    "cd_current_priority (ks_cpus y2 0) = 2" "cd_load_context (ks_cpus y2 0)"
    by (rule resume_example [OF y1(2) q1 f1 c1 d]) (use z in \<open>auto intro: that\<close>)
  have s2: "sched_step xE (kernel_timer xE) y1 y2" by (rule sched_step.resume [OF q1 y2(1)])
  have "others y2 = others y0" using resume_thread_more [OF y2(1)] attach_thread_more [OF y1(1)] by simp
  then have tt: "ks_timer_ticks y2 0 = 0" by (simp add: others_def with_sleepers_def)
  have cl: "rep xE (cli 0 y2) ?v" by (rule rep_only [OF y2(2)]) (simp_all add: cli_def)
  have q: "qlist (v_queue ?v 0 2) = [tA]" by (simp add: v_resume_def v_attach_def empty_view_def) (simp add: qlist_def)
  have l: "load (v_queue ?v 0) \<noteq> 0" unfolding load_0_iff using q by (metis list.distinct(1) numeral_less_iff semiring_norm(76,78))
  have fr: "front ?v (ks_cpus (cli 0 y2) 0) 0 = tA" "cd_load_context (ks_cpus (cli 0 y2) 0)" "0 < m_cpus xE"
    using y2(4,5) q by (simp_all add: cli_def front_def cur_prio_def xE_def)
  note tl = timer_load(1) [OF cl fr(3) l fr(2), of "ks_ctx y2 0", unfolded fr(1)]
  have "\<exists>s. run_isr 0 (handle_timer_int xE (kernel_timer xE) 0) y2 = Ret s \<and> get_thread_ptr 0 s = tA"
    by (simp add: run_isr_def handle_timer_int_def tl) (simp add: handle_timer_def Let_def set_eoi_def tt cli_def get_thread_ptr_def)
  then obtain s where s: "run_isr 0 (handle_timer_int xE (kernel_timer xE) 0) y2 = Ret s" "get_thread_ptr 0 s = tA" by blast
  have "quiet xE 0 (set_outer_spinlock 0 True y2)"
    using y2(3) [of 0] by (simp add: quiet_def set_outer_spinlock_def set_outer_def kernel_locks_def) auto
  then have s3: "sched_step xE (kernel_timer xE) y2 s" by (rule sched_step.timer [OF fr(3) _ s(1)])
  have "reachable xE (kernel_timer xE) s" 
    by (rule reachable.step [OF reachable.step [OF reachable.step [OF reachable.boot [OF boot] s1] s2] s3])
  then show thesis using s(2) by (rule that)
qed

section \<open>Properties\<close>

text \<open>C1: In every state the kernel can reach from boot, by any sequence of the scheduler's
  operations, of timer interrupts on any CPUs with the kernel's own timer procedure
  \<open>sleep_timer_proc\<close>, and of changes outside the scheduler's data, no thread is the running
  thread of two CPUs, a CPU's running thread is an attached thread in the running state whose
  descriptor names that CPU, its priority is the CPU's current priority, and it is the front
  of that priority's queue. Operations and interrupts are atomic steps: an operation begins, and
  an interrupt is taken, while no other CPU is inside one.\<close>

theorem running_thread_unique:
  fixes s :: "'z sync_scheme"
  assumes "reachable E (\<lambda>_. sleep_timer_proc E) s" "c < m_cpus E" "get_thread_ptr c s = t" "t \<noteq> NULL"
  shows "td_magic (ks_thr s t) = THREAD_MAGIC \<and> td_state (ks_thr s t) = THREAD_STATE_RUNNING \<and>
    unat (td_cpu (ks_thr s t)) = c \<and> cd_current_priority (ks_cpus s c) = int (unat (td_priority (ks_thr s t))) \<and>
    cp_active_tail (cd_priorities (ks_cpus s c) (unat (td_priority (ks_thr s t)))) = t \<and>
    (\<forall>k<m_cpus E. get_thread_ptr k s = t \<longrightarrow> k = c)"
  by (rule running_unique [OF assms(1) sleep_timer_proc_keeps assms(2-4)])

theorem running_thread_unique_witness:
  "\<exists>s. reachable xE (\<lambda>_. sleep_timer_proc xE) (s :: sync) \<and> get_thread_ptr 0 s = tA \<and>
    td_state (ks_thr s tA) = THREAD_STATE_RUNNING \<and> get_thread_ptr 1 s \<noteq> tA"
proof -
  obtain s where s: "reachable xE (kernel_timer xE) (s :: sync)" "get_thread_ptr 0 s = tA" by (rule example_run)
  have "0 < m_cpus xE" "1 < m_cpus xE" "tA \<noteq> NULL" by (simp_all add: xE_def)
  with running_thread_unique [OF s(1) _ s(2)] s show ?thesis by force
qed

text \<open>C8: Every operation of the scheduler returns: started in a state that satisfies the
  invariant, with the scheduler's locks free and the other CPUs taking interrupts, attaching (a
  descriptor that is not null, with a whole affinity mask, while the counters hold), detaching,
  resuming, pausing, stopping, pausing oneself and the whole timer interrupt with the kernel's
  timer procedure end with a result and restore the invariant. On the way no lock is waited for
  in vain - each is free when it is taken, so there is no self-deadlock - and none stays taken.
  The timer interrupt needs the stack guards intact, or it stops the kernel.\<close>

theorem scheduler_operations_return:
  fixes s :: "'z sync_scheme"
  assumes "rep E s v" "quiet E c s" "c < m_cpus E"
    and "\<forall>t\<in>set (v_all v). ks_mem s (td_stack (ks_thr s t)) = STACK_OVERRUN_MAGIC"
    and "t \<noteq> NULL" "ptr_ok t" "length (v_all v) < 2 ^ 31 - 2" "length (td_affinity (ks_thr s t)) = THREAD_AFFINITY_SIZE"
  shows "(\<exists>e r s'. attach_thread E c t w s = (e, r, s') \<and> came_back E s s' \<and> same_hw s s') \<and>
    (\<exists>e r s'. detach_thread c i s = (e, r, s') \<and> came_back E s s' \<and> same_hw s s') \<and>
    (\<exists>e s'. resume_thread E c i s = Ret (e, s') \<and> came_back E s s' \<and> same_hw s s') \<and>
    (\<exists>e s'. pause_thread E c i s = Ret (e, s') \<and> came_back E s s' \<and> (same_hw s s' \<or> halt_hw c Lock_null s s')) \<and>
    (\<exists>e s'. stop_thread E c i out s = Ret (e, s') \<and> came_back E s s' \<and> (same_hw s s' \<or> halt_hw c Lock_null s s')) \<and>
    (\<exists>e s'. pause_this_thread E c lk s = Ret (e, s') \<and> came_back E s s' \<and> (same_hw s s' \<or> halt_hw c lk s s')) \<and>
    (\<exists>s'. run_isr c (handle_timer_int E (\<lambda>_. sleep_timer_proc E) c) s = Ret s' \<and> came_back E s s' \<and> hw_busy s' = hw_busy s)"
proof -
  have d: "\<exists>e s'. deactivate_thread E c stop i out lk s = Ret (e, s') \<and> came_back E s s' \<and> (same_hw s s' \<or> halt_hw c lk s s')"
    for stop i out lk
    using deactivate_thread_total [OF assms(1,2), of stop i out lk] deactivate_thread_spun [OF assms(2,3)]
    unfolding came_back_def by blast
  have q: "quiet E c (set_outer_spinlock c True s)"
    using assms(2) by (simp add: quiet_def set_outer_spinlock_def set_outer_def kernel_locks_def) auto
  show ?thesis
    using attach_thread_total [OF assms(1,2,5-8), of w] attach_thread_spun [OF assms(2), of t w]
      detach_thread_total [OF assms(1,2), of i] detach_thread_spun [OF assms(2), of i]
      resume_thread_total [OF assms(1,2), of i] resume_thread_spun [OF assms(2,3), of i]
      timer_interrupt_returns [OF assms(1) q assms(3,4)]
      d [of False i 0 Lock_null] d [of True i out Lock_null] d [of False "get_thread c s" 0 lk]
    unfolding pause_thread_def stop_thread_def pause_this_thread_def came_back_def by blast
qed

theorem scheduler_operations_return_witness:
  "\<exists>s e s1 s2. get_thread_ptr 0 s = tA \<and> pause_this_thread xE 0 Lock_null s = Ret (e, s1) \<and> hw_spun s1 = hw_spun s \<and>
    run_isr 0 (handle_timer_int xE (\<lambda>_. sleep_timer_proc xE) 0) (s :: sync) = Ret s2 \<and> hw_spun s2 = hw_spun s"
proof -
  let ?s = "with_sleepers x5 0x600 5"
  note w = with_sleepers [OF x5_rep x5(4), where tail = "0x600" and dl = 5]
  have same: "ks_thr ?s = ks_thr x5" "ks_mem ?s = ks_mem x5" "ks_fs_base ?s = ks_fs_base x5" by (simp_all add: with_sleepers_def with_mutex_def)
  have "set (v_all v4) = {tA, tB}" by (auto simp: v4_def v3_def v2_def v1_def v_resume_def v_attach_def v_queue_upd_def empty_view_def)
  then have m: "\<forall>t\<in>set (v_all v4). ks_mem ?s (td_stack (ks_thr ?s t)) = STACK_OVERRUN_MAGIC"
    using core_fields [OF x5(1)] core_fields [OF x5(2)] by (simp add: x5(3) same) (simp add: td_defs x0_def)
  have t: "tA \<noteq> NULL" "ptr_ok tA" "length (v_all v4) < 2 ^ 31 - 2" "length (td_affinity (ks_thr ?s tA)) = THREAD_AFFINITY_SIZE"
    using core_fields [OF x5(1)]
    by (simp_all add: ptr_ok_def same) (simp_all add: td_defs v4_def v3_def v2_def v1_def v_resume_def v_attach_def v_queue_upd_def empty_view_def)
  have "get_thread_ptr 0 ?s = tA" unfolding get_thread_ptr_def same by (simp add: x5_eq(2))
  with scheduler_operations_return [OF w(1,2) x4_cur(3) m t] show ?thesis unfolding came_back_def by blast
qed

end
