(* ===== verification/Cstring.thy ===== *)
theory Cstring
  imports Cmemory
begin

text \<open>
  The string and memory routines of \<open>common.c\<close>, over byte memory. A loop that stops at a
  zero byte is a partial function: \<open>None\<close> says that it never stops. A block operation counts
  down its size.
\<close>

section \<open>Definitions\<close>

partial_function (option) strlen_loop :: "mem \<Rightarrow> ptr \<Rightarrow> ptr option" where
  "strlen_loop m chr = (if m chr \<noteq> 0 then strlen_loop m (chr + 1) else Some chr)"

definition strlen :: "mem \<Rightarrow> ptr \<Rightarrow> u64 option" where
  "strlen m str = map_option (\<lambda>chr. chr - str) (strlen_loop m str)"

partial_function (option) strcpy_loop :: "mem \<Rightarrow> ptr \<Rightarrow> ptr \<Rightarrow> mem option" where
  "strcpy_loop m tmp src =
     (if m src \<noteq> 0 then strcpy_loop (m(tmp := m src)) (tmp + 1) (src + 1) else Some (m(tmp := 0)))"

definition strcpy :: "mem \<Rightarrow> ptr \<Rightarrow> ptr \<Rightarrow> (ptr \<times> mem) option" where
  "strcpy m dst src = map_option (\<lambda>m'. (dst, m')) (strcpy_loop m dst src)"

definition strcat :: "mem \<Rightarrow> ptr \<Rightarrow> ptr \<Rightarrow> (ptr \<times> mem) option" where
  "strcat m dst src =
     Option.bind (strlen m dst) (\<lambda>n. map_option (\<lambda>(_, m'). (dst, m')) (strcpy m (dst + n) src))"

definition swap_bytes :: "ptr \<Rightarrow> ptr \<Rightarrow> mem \<Rightarrow> mem" where
  "swap_bytes a b m = m(a := m b, b := m a)"

definition strrev :: "mem \<Rightarrow> ptr \<Rightarrow> (ptr \<times> mem) option" where
  "strrev m str =
     map_option (\<lambda>len. (str, foldl (\<lambda>m i. swap_bytes (str + word_of_nat i) (str + (len - word_of_nat i - 1)) m) m
       [0..<unat (len div 2)])) (strlen m str)"

fun memset_loop :: "mem \<Rightarrow> ptr \<Rightarrow> i32 \<Rightarrow> nat \<Rightarrow> ptr \<times> mem" where
  "memset_loop m p v 0 = (p, m)"
| "memset_loop m p v (Suc n) = memset_loop (m(p := ucast v)) (p + 1) v n"

definition memset :: "mem \<Rightarrow> ptr \<Rightarrow> i32 \<Rightarrow> u64 \<Rightarrow> ptr \<times> mem" where
  "memset m p v sz = memset_loop m p v (unat sz)"

fun memcpy_loop :: "mem \<Rightarrow> ptr \<Rightarrow> ptr \<Rightarrow> nat \<Rightarrow> mem" where
  "memcpy_loop m tmp src 0 = m"
| "memcpy_loop m tmp src (Suc n) = memcpy_loop (m(tmp := m src)) (tmp + 1) (src + 1) n"

definition memcpy :: "mem \<Rightarrow> ptr \<Rightarrow> ptr \<Rightarrow> u64 \<Rightarrow> ptr \<times> mem" where
  "memcpy m dst src sz = (dst, memcpy_loop m dst src (unat sz))"

text \<open>The bytes are compared as \<open>char\<close>, which is signed; the last argument counts what is left.\<close>

fun memcmp_loop :: "mem \<Rightarrow> ptr \<Rightarrow> ptr \<Rightarrow> u64 \<Rightarrow> nat \<Rightarrow> i32" where
  "memcmp_loop m buf1 buf2 i 0 = 0"
| "memcmp_loop m buf1 buf2 i (Suc n) =
     (if m (buf2 + i) <s m (buf1 + i) then 1
      else if m (buf1 + i) <s m (buf2 + i) then -1
      else memcmp_loop m buf1 buf2 (i + 1) n)"

definition memcmp :: "mem \<Rightarrow> ptr \<Rightarrow> ptr \<Rightarrow> u64 \<Rightarrow> i32" where
  "memcmp m buf1 buf2 sz = memcmp_loop m buf1 buf2 0 (unat sz)"

function memmem :: "mem \<Rightarrow> ptr \<Rightarrow> u64 \<Rightarrow> ptr \<Rightarrow> u64 \<Rightarrow> ptr" where
  "memmem m buf1 size1 buf2 size2 =
     (if size2 \<le> size1 then
        if memcmp m buf1 buf2 size2 = 0 then buf1 else memmem m (buf1 + 1) (size1 - 1) buf2 size2
      else NULL)"
  by auto

termination
proof (relation "measure (\<lambda>(m, buf1, size1, buf2, size2). unat size1)")
  fix m buf1 size1 buf2 size2
  assume a: "size2 \<le> size1" "memcmp m buf1 buf2 size2 \<noteq> 0"
  then have "size2 \<noteq> 0" by (auto simp: memcmp_def)
  then have "size1 \<noteq> 0" using a(1) by auto
  then show "((m, buf1 + 1, size1 - 1, buf2, size2), m, buf1, size1, buf2, size2)
      \<in> measure (\<lambda>(m, buf1, size1, buf2, size2). unat size1)"
    by (simp add: measure_unat)
qed simp

declare memmem.simps [simp del]

text \<open>
  The digits are produced from the last to the first. \<open>ultoa\<close> has checked that the radix is
  at least 2; repeating that test here makes the recursion end for every argument.
\<close>

function ultoa_loop :: "mem \<Rightarrow> u64 \<Rightarrow> ptr \<Rightarrow> u64 \<Rightarrow> u8 \<Rightarrow> ptr \<times> mem" where
  "ultoa_loop m value buf radix lbase =
     (let rem = value mod radix;
          m1 = m(buf := ucast rem + (if rem < 10 then 48 else lbase));
          value1 = value div radix in
      if value1 \<noteq> 0 \<and> 2 \<le> radix then ultoa_loop m1 value1 (buf + 1) radix lbase else (buf + 1, m1))"
  by auto

termination
proof (relation "measure (\<lambda>(m, value, buf, radix, lbase). unat value)")
  fix m :: mem and buf :: ptr and lbase :: u8 and x :: u64 and m1 :: mem
  fix val radix v1 :: u64
  assume a: "v1 = val div radix" "v1 \<noteq> 0 \<and> 2 \<le> radix"
  have "val \<noteq> 0" using a by (metis div_0)
  then have "unat val \<noteq> 0" by (simp add: unat_eq_zero)
  moreover have "1 < unat radix" using a(2) by (simp add: word_le_nat_alt)
  ultimately have "unat val div unat radix < unat val" by (intro div_less_dividend) auto
  then show "((m1, v1, buf + 1, radix, lbase), m, val, buf, radix, lbase)
      \<in> measure (\<lambda>(m, value, buf, radix, lbase). unat value)"
    using a(1) by (simp add: unat_div)
qed simp

declare ultoa_loop.simps [simp del]

definition ultoa :: "mem \<Rightarrow> u64 \<Rightarrow> ptr \<Rightarrow> i32 \<Rightarrow> (ptr \<times> mem) option" where
  "ultoa m value buf radix =
     (let (lbase, radix1) = (if 0 <s radix then (97, radix) else (65, - radix)) in
      if radix1 <s 2 \<or> 36 <s radix1 then Some (buf, m(buf := 0))
      else
        let (end, m1) = ultoa_loop m value buf (scast radix1) (lbase - 10) in
        strrev (m1(end := 0)) buf)"

section \<open>Lengths and copies of strings\<close>

lemma strlen_loop_cstr: "cstr m a s \<Longrightarrow> strlen_loop m a = Some (a + word_of_nat (length s))"
proof (induction s arbitrary: a)
  case Nil
  then show ?case by (subst strlen_loop.simps) simp
next
  case (Cons c s)
  then show ?case by (subst strlen_loop.simps) (auto simp: add.assoc)
qed

lemma strlen_cstr: "cstr m a s \<Longrightarrow> strlen m a = Some (word_of_nat (length s))"
  by (simp add: strlen_def strlen_loop_cstr)

lemma strcpy_loop_cstr:
  assumes "cstr m src s" "length s < 2 ^ 63"
    and "addrs dst (Suc (length s)) \<inter> addrs src (Suc (length s)) = {}"
  shows "\<exists>m'. strcpy_loop m dst src = Some m' \<and> cstr m' dst s \<and> only_in (addrs dst (Suc (length s))) m m'"
  using assms
proof (induction s arbitrary: m dst src)
  case Nil
  then show ?case by (subst strcpy_loop.simps) (simp add: only_in_def addrs_Suc)
next
  case (Cons c s)
  let ?m = "m(dst := c)"
  have d: "dst \<notin> addrs (src + 1) (Suc (length s))" "addrs (dst + 1) (Suc (length s)) \<inter> addrs (src + 1) (Suc (length s)) = {}"
    using Cons.prems(3) addrs_Suc [of dst "Suc (length s)"] addrs_Suc [of src "Suc (length s)"] by auto
  have "cstr ?m (src + 1) s \<longleftrightarrow> cstr m (src + 1) s"
    by (rule cstr_cong) (use d(1) in auto)
  then have "cstr ?m (src + 1) s" using Cons.prems(1) by simp
  moreover have "length s < 2 ^ 63" using Cons.prems(2) by simp
  ultimately obtain m' where m':
    "strcpy_loop ?m (dst + 1) (src + 1) = Some m'" "cstr m' (dst + 1) s" "only_in (addrs (dst + 1) (Suc (length s))) ?m m'"
    using Cons.IH [OF _ _ d(2)] by blast
  have n: "dst \<notin> addrs (dst + 1) (Suc (length s))" using Cons.prems(2) by (intro first_not_in_rest) simp
  have "m' dst = c" using m'(3) n by (simp add: only_in_def)
  moreover have "only_in (addrs dst (Suc (Suc (length s)))) m m'"
    using only_in_upd [OF m'(3)] by (simp add: addrs_Suc)
  ultimately show ?case
    using m'(1,2) Cons.prems(1) by (subst strcpy_loop.simps) auto
qed

lemma strcpy_cstr:
  assumes "cstr m src s" "length s < 2 ^ 63"
    and "addrs dst (Suc (length s)) \<inter> addrs src (Suc (length s)) = {}"
  obtains m' where "strcpy m dst src = Some (dst, m')" "cstr m' dst s" "only_in (addrs dst (Suc (length s))) m m'"
  using strcpy_loop_cstr [OF assms] by (auto simp: strcpy_def)

lemma cstr_append:
  "cstr m a (s @ t) \<longleftrightarrow> bytes m a (length s) = s \<and> 0 \<notin> set s \<and> cstr m (a + word_of_nat (length s)) t"
  by (induction s arbitrary: a) (auto simp: bytes_Suc add.assoc)

lemma strcat_cstr:
  assumes "cstr m dst s" "cstr m src t" "length s + length t < 2 ^ 63"
    and "addrs dst (Suc (length s + length t)) \<inter> addrs src (Suc (length t)) = {}"
  obtains m' where "strcat m dst src = Some (dst, m')" "cstr m' dst (s @ t)"
    "only_in (addrs dst (Suc (length s + length t))) m m'"
proof -
  let ?d = "dst + word_of_nat (length s)"
  have split: "addrs dst (Suc (length s + length t)) = addrs dst (length s) \<union> addrs ?d (Suc (length t))"
    using addrs_add [of dst "length s" "Suc (length t)"] by simp
  obtain m' where m': "strcpy m ?d src = Some (?d, m')" "cstr m' ?d t" "only_in (addrs ?d (Suc (length t))) m m'"
    by (rule strcpy_cstr [OF assms(2), of ?d]) (use assms(3,4) split in auto)
  have "addrs dst (length s) \<inter> addrs ?d (Suc (length t)) = {}"
  proof -
    have "x \<notin> addrs ?d (Suc (length t))" if w: "x \<in> addrs dst (length s)" for x
    proof
      obtain i where i: "i < length s" "x = dst + word_of_nat i" using addrsD [OF w] by blast
      assume "x \<in> addrs ?d (Suc (length t))"
      then obtain j where "j < Suc (length t)" "x = ?d + word_of_nat j" by (auto simp: addrs_def)
      then have "dst + word_of_nat i = dst + (word_of_nat (length s + j) :: ptr)" "length s + j < 2 ^ 64"
        using i assms(3) by (simp_all add: add.assoc)
      then show False using addr_inj [of i "length s + j" dst] i(1) by simp
    qed
    then show ?thesis by blast
  qed
  then have "bytes m' dst (length s) = s" "0 \<notin> set s"
    using bytes_only_in [OF m'(3)] assms(1) by (auto simp: cstr_bytes)
  then have "cstr m' dst (s @ t)" using m'(2) by (simp add: cstr_append)
  moreover have "only_in (addrs dst (Suc (length s + length t))) m m'"
    using m'(3) by (rule only_in_mono) (simp add: split)
  ultimately show thesis using m'(1) strlen_cstr [OF assms(1)] that by (simp add: strcat_def)
qed

section \<open>Blocks\<close>

lemma memset_loop_eq:
  assumes "n < 2 ^ 64"
  shows "memset_loop m p v n = (p + word_of_nat n, \<lambda>x. if x \<in> addrs p n then ucast v else m x)"
  using assms
proof (induction n arbitrary: m p)
  case (Suc n)
  then show ?case using first_not_in_rest [of n p] by (auto simp: addrs_Suc add.assoc)
qed simp

lemma memcpy_loop_eq:
  assumes "n < 2 ^ 64" "addrs dst n \<inter> addrs src n = {}"
  shows "memcpy_loop m dst src n = (\<lambda>x. if x \<in> addrs dst n then m (src + (x - dst)) else m x)"
  using assms
proof (induction n arbitrary: m dst src)
  case (Suc n)
  have d: "dst \<notin> addrs (src + 1) n" "addrs (dst + 1) n \<inter> addrs (src + 1) n = {}"
    using Suc.prems(2) by (auto simp: addrs_Suc)
  have "src + (x - dst) \<noteq> dst" if w: "x \<in> addrs (dst + 1) n" for x
  proof -
    obtain i where i: "i < n" "x = dst + 1 + word_of_nat i" using addrsD [OF w] by blast
    then have "src + (x - dst) = src + 1 + word_of_nat i" by simp
    then show ?thesis using d(1) in_addrs [OF i(1), of "src + 1"] by metis
  qed
  then show ?case
    using Suc.IH [OF _ d(2)] Suc.prems(1) first_not_in_rest [of n dst] by (auto simp: addrs_Suc fun_eq_iff)
qed simp

lemma memcmp_loop_0:
  assumes "n < 2 ^ 64"
  shows "memcmp_loop m a b i n = 0 \<longleftrightarrow> bytes m (a + i) n = bytes m (b + i) n"
  using assms
proof (induction n arbitrary: i)
  case (Suc n)
  have "x <s y \<or> y <s x" if "x \<noteq> y" for x y :: u8
    using that by (metis signed.not_less_iff_gr_or_eq)
  then show ?case using Suc by (auto simp: bytes_Suc add.assoc)
qed simp

lemma memcmp_eq: "memcmp m a b n = 0 \<longleftrightarrow> bytes m a (unat n) = bytes m b (unat n)"
  using memcmp_loop_0 [of "unat n" m a b 0] unat_lt64 [of n] by (simp add: memcmp_def)

definition occurs_at :: "mem \<Rightarrow> ptr \<Rightarrow> nat \<Rightarrow> ptr \<Rightarrow> nat \<Rightarrow> nat \<Rightarrow> bool" where
  "occurs_at m a n b k i \<longleftrightarrow> i + k \<le> n \<and> bytes m (a + word_of_nat i) k = bytes m b k"

lemma memmem_first:
  "(\<exists>i. occurs_at m a (unat n) b (unat k) i \<and> (\<forall>j<i. \<not> occurs_at m a (unat n) b (unat k) j) \<and>
       memmem m a n b k = a + word_of_nat i) \<or>
   ((\<forall>i. \<not> occurs_at m a (unat n) b (unat k) i) \<and> memmem m a n b k = NULL)"
proof (induction m a n b k rule: memmem.induct)
  case (1 m a n b k)
  show ?case
  proof (cases "k \<le> n")
    case False
    then have "\<not> occurs_at m a (unat n) b (unat k) i" for i by (auto simp: occurs_at_def word_le_nat_alt)
    then show ?thesis using False by (subst memmem.simps) auto
  next
    case True
    show ?thesis
    proof (cases "memcmp m a b k = 0")
      case c: True
      have "occurs_at m a (unat n) b (unat k) 0" using True c by (simp add: occurs_at_def memcmp_eq word_le_nat_alt)
      moreover have "memmem m a n b k = a + word_of_nat 0" using True c by (subst memmem.simps) simp
      ultimately show ?thesis by (intro disjI1 exI [of _ 0]) simp
    next
      case c: False
      then have "k \<noteq> 0" by (auto simp: memcmp_def)
      then have n0: "n \<noteq> 0" using True by auto
      then have n1: "unat n = Suc (unat (n - 1))" using unat_minus_one [OF n0] by (simp add: unat_gt_0)
      have e: "memmem m a n b k = memmem m (a + 1) (n - 1) b k" using True c by (subst memmem.simps) simp
      have shift: "occurs_at m a (unat n) b (unat k) (Suc i) \<longleftrightarrow> occurs_at m (a + 1) (unat (n - 1)) b (unat k) i" for i
        by (simp add: occurs_at_def n1 add.assoc)
      have z: "\<not> occurs_at m a (unat n) b (unat k) 0" using c by (simp add: occurs_at_def memcmp_eq)
      from 1 [OF True c] show ?thesis
      proof (elim disjE exE conjE)
        fix i assume i: "occurs_at m (a + 1) (unat (n - 1)) b (unat k) i"
          "\<forall>j<i. \<not> occurs_at m (a + 1) (unat (n - 1)) b (unat k) j"
          "memmem m (a + 1) (n - 1) b k = a + 1 + word_of_nat i"
        have "\<not> occurs_at m a (unat n) b (unat k) j" if "j < Suc i" for j
          using that i(2) shift z by (cases j) auto
        then show ?thesis using i(1,3) shift e by (intro disjI1 exI [of _ "Suc i"] conjI) (simp_all add: add.assoc)
      next
        assume i: "\<forall>i. \<not> occurs_at m (a + 1) (unat (n - 1)) b (unat k) i" "memmem m (a + 1) (n - 1) b k = NULL"
        have "\<not> occurs_at m a (unat n) b (unat k) j" for j using i(1) shift z by (cases j) auto
        then show ?thesis using i(2) e by simp
      qed
    qed
  qed
qed

section \<open>Reversing\<close>

definition rev_steps :: "ptr \<Rightarrow> nat \<Rightarrow> nat \<Rightarrow> mem \<Rightarrow> mem" where
  "rev_steps a n k m =
     foldl (\<lambda>m i. swap_bytes (a + word_of_nat i) (a + (word_of_nat n - word_of_nat i - 1)) m) m [0..<k]"

lemma mirror: "i < n \<Longrightarrow> (word_of_nat n - word_of_nat i - 1 :: u64) = word_of_nat (n - Suc i)"
  by (simp add: of_nat_diff)

lemma rev_steps_nth:
  assumes "k \<le> n div 2" "n < 2 ^ 63" "j < n"
  shows "rev_steps a n k m (a + word_of_nat j) =
    (if j < k \<or> n - k \<le> j then m (a + word_of_nat (n - Suc j)) else m (a + word_of_nat j))"
  using assms(1,3)
proof (induction k arbitrary: j)
  case (Suc k)
  have k: "k < n" "k \<noteq> n - Suc k" "n - Suc k < n" using Suc.prems(1) by auto
  have inj: "a + word_of_nat x = a + (word_of_nat y :: ptr) \<longleftrightarrow> x = y" if "x < n" "y < n" for x y
    using addr_inj [of x y a] that assms(2) by simp
  let ?m = "rev_steps a n k m"
  have step: "rev_steps a n (Suc k) m = ?m(a + word_of_nat k := ?m (a + word_of_nat (n - Suc k)),
      a + word_of_nat (n - Suc k) := ?m (a + word_of_nat k))"
    by (simp only: rev_steps_def upt_Suc_append [OF le0] foldl_append foldl_Cons foldl_Nil swap_bytes_def mirror [OF k(1)])
  note ih = Suc.IH [OF _ k(1)] Suc.IH [OF _ k(3)] Suc.IH [OF _ Suc.prems(2)]
  have kle: "k \<le> n div 2" using Suc.prems(1) by simp
  show ?case
    unfolding step fun_upd_apply inj [OF Suc.prems(2) k(1)] inj [OF Suc.prems(2) k(3)]
    using ih kle k Suc.prems by (cases "j = k"; cases "j = n - Suc k") auto
qed (simp add: rev_steps_def)

lemma rev_steps_only: "k \<le> n div 2 \<Longrightarrow> only_in (addrs a n) m (rev_steps a n k m)"
proof (induction k)
  case (Suc k)
  have k: "k < n" "n - Suc k < n" using Suc.prems by auto
  have "a + word_of_nat k \<in> addrs a n" "a + word_of_nat (n - Suc k) \<in> addrs a n" by (rule in_addrs, rule k)+
  moreover have "rev_steps a n (Suc k) m = swap_bytes (a + word_of_nat k) (a + word_of_nat (n - Suc k)) (rev_steps a n k m)"
    by (simp only: rev_steps_def upt_Suc_append [OF le0] foldl_append foldl_Cons foldl_Nil mirror [OF k(1)])
  ultimately show ?case using Suc by (auto simp: only_in_def swap_bytes_def)
qed (simp add: rev_steps_def)

lemma strrev_cstr:
  assumes "cstr m a s" "length s < 2 ^ 63"
  obtains m' where "strrev m a = Some (a, m')" "cstr m' a (rev s)" "only_in (addrs a (length s)) m m'"
proof -
  let ?n = "length s" and ?m = "rev_steps a (length s) (length s div 2) m"
  have h: "unat (word_of_nat ?n div 2 :: u64) = ?n div 2" using assms(2) by (simp add: unat_div unat_of_nat)
  have s: "strrev m a = Some (a, ?m)"
    by (simp only: strrev_def strlen_cstr [OF assms(1)] option.map h rev_steps_def)
  have only: "only_in (addrs a ?n) m ?m" by (rule rev_steps_only) simp
  have b: "bytes m a ?n = s" "0 \<notin> set s" "m (a + word_of_nat ?n) = 0" using assms(1) by (auto simp: cstr_bytes)
  have "?m (a + word_of_nat j) = rev s ! j" if j: "j < ?n" for j
  proof -
    have nth: "m (a + word_of_nat i) = s ! i" if "i < ?n" for i using that b(1) nth_bytes by metis
    have "j < ?n div 2 \<or> ?n - ?n div 2 \<le> j \<or> ?n - Suc j = j" using j by presburger
    then have "?m (a + word_of_nat j) = m (a + word_of_nat (?n - Suc j))"
      unfolding rev_steps_nth [OF order_refl assms(2) j] by (elim disjE) simp_all
    then show ?thesis using nth [of "?n - Suc j"] j by (simp add: rev_nth)
  qed
  then have "bytes ?m a ?n = rev s" by (intro nth_equalityI) (simp_all add: nth_bytes)
  moreover have "?m (a + word_of_nat ?n) = 0"
    using only b(3) last_not_in_block [of ?n a] assms(2) by (simp add: only_in_def)
  ultimately have "cstr ?m a (rev s)" using b(2) by (simp add: cstr_bytes)
  then show thesis using s only that by blast
qed

section \<open>Numbers\<close>

text \<open>The digits of a number, last first, and the characters \<open>ultoa\<close> prints for them.\<close>

fun digits_rev :: "nat \<Rightarrow> nat \<Rightarrow> nat list" where
  "digits_rev r v = (if v < r \<or> r < 2 then [v] else v mod r # digits_rev r (v div r))"

declare digits_rev.simps [simp del]

definition digit_char :: "u8 \<Rightarrow> nat \<Rightarrow> u8" where
  "digit_char lbase d = word_of_nat d + (if d < 10 then 48 else lbase)"

definition numeral_of :: "u8 \<Rightarrow> nat \<Rightarrow> nat \<Rightarrow> u8 list" where
  "numeral_of lbase r v = map (digit_char lbase) (rev (digits_rev r v))"

lemma ultoa_loop_digits:
  assumes "2 \<le> radix" "length (digits_rev (unat radix) (unat val)) < 2 ^ 64"
  defines "ds \<equiv> digits_rev (unat radix) (unat val)"
  shows "\<exists>m'. ultoa_loop m val buf radix lbase = (buf + word_of_nat (length ds), m') \<and>
    bytes m' buf (length ds) = map (digit_char lbase) ds \<and> only_in (addrs buf (length ds)) m m'"
  using assms(1,2) unfolding ds_def
proof (induction m val buf radix lbase rule: ultoa_loop.induct)
  case (1 m val buf radix lbase)
  let ?c = "ucast (val mod radix) + (if val mod radix < 10 then 48 else lbase) :: u8"
  let ?m = "m(buf := ?c)"
  have c: "?c = digit_char lbase (unat val mod unat radix)"
  proof -
    have "ucast (val mod radix) = (word_of_nat (unat val mod unat radix) :: u8)" by (metis of_nat_unat unat_mod)
    then show ?thesis by (simp add: digit_char_def word_less_nat_alt unat_mod)
  qed
  have r2: "2 \<le> unat radix" using 1(2) by (simp add: word_le_nat_alt)
  have next_iff: "val div radix \<noteq> 0 \<longleftrightarrow> \<not> unat val < unat radix"
  proof -
    have "val div radix = 0 \<longleftrightarrow> unat (val div radix) = 0" by (simp only: unat_eq_zero)
    also have "\<dots> \<longleftrightarrow> unat val < unat radix" using r2 by (simp only: unat_div div_eq_0_iff) auto
    finally show ?thesis by simp
  qed
  show ?case
  proof (cases "unat val < unat radix")
    case True
    then have "digits_rev (unat radix) (unat val) = [unat val mod unat radix]" by (subst digits_rev.simps) simp
    then show ?thesis
      using next_iff True c by (subst ultoa_loop.simps) (simp add: Let_def bytes_Suc only_in_def addrs_Suc)
  next
    case False
    let ?v = "val div radix" and ?ds = "digits_rev (unat radix) (unat val div unat radix)"
    have ds: "digits_rev (unat radix) (unat val) = unat val mod unat radix # ?ds"
      using False r2 by (subst digits_rev.simps) simp
    have v: "unat ?v = unat val div unat radix" by (simp add: unat_div)
    have nz: "?v \<noteq> 0 \<and> 2 \<le> radix" using next_iff False 1(2) by simp
    have l: "length ?ds < 2 ^ 64" using 1(3) ds by simp
    obtain m' where m':
      "ultoa_loop ?m ?v (buf + 1) radix lbase = (buf + 1 + word_of_nat (length ?ds), m')"
      "bytes m' (buf + 1) (length ?ds) = map (digit_char lbase) ?ds" "only_in (addrs (buf + 1) (length ?ds)) ?m m'"
      using 1(1) [OF refl refl refl nz 1(2)] l unfolding v by blast
    from l have "m' buf = ?c" using m'(3) first_not_in_rest [of "length ?ds" buf] by (simp add: only_in_def)
    moreover have "ultoa_loop m val buf radix lbase = ultoa_loop ?m ?v (buf + 1) radix lbase"
      using next_iff False 1(2) by (subst ultoa_loop.simps) (simp add: Let_def)
    ultimately show ?thesis
      using m' c only_in_upd [OF m'(3)] unfolding ds by (simp add: bytes_Suc addrs_Suc add.assoc)
  qed
qed

lemma digits_rev_pow: "v < r ^ n \<Longrightarrow> 0 < n \<Longrightarrow> 2 \<le> r \<Longrightarrow> length (digits_rev r v) \<le> n"
proof (induction r v arbitrary: n rule: digits_rev.induct)
  case (1 r v)
  show ?case
  proof (cases "v < r")
    case True
    then show ?thesis using 1(3) by (subst digits_rev.simps) simp
  next
    case False
    obtain k where "n = Suc k" using 1(3) by (cases n) auto
    moreover from this have "k \<noteq> 0" using False 1(2) by (cases k) auto
    ultimately have k: "n = Suc k" "0 < k" by simp_all
    then have "v div r < r ^ k" using 1(2,4) by (simp add: less_mult_imp_div_less mult.commute)
    then show ?thesis using 1(1) [OF _ _ k(2) 1(4)] False 1(4) k(1) by (subst digits_rev.simps) auto
  qed
qed

lemma digits_rev_less: "2 \<le> r \<Longrightarrow> d \<in> set (digits_rev r v) \<Longrightarrow> d < r"
  by (induction r v rule: digits_rev.induct) (subst (asm) (2) digits_rev.simps, auto split: if_splits)

lemma digits_rev_value: "2 \<le> r \<Longrightarrow> foldr (\<lambda>d a. d + r * a) (digits_rev r v) 0 = v"
  by (induction r v rule: digits_rev.induct) (subst digits_rev.simps, auto)

lemma digits_rev_last: "2 \<le> r \<Longrightarrow> r \<le> v \<Longrightarrow> last (digits_rev r v) \<noteq> 0"
proof (induction r v rule: digits_rev.induct)
  case (1 r v)
  show ?case
  proof (cases "v div r < r")
    case True
    then have "digits_rev r (v div r) = [v div r]" by (subst digits_rev.simps) simp
    moreover have "v div r \<noteq> 0" using 1(2,3) by (simp add: div_eq_0_iff)
    ultimately show ?thesis using 1(2,3) by (subst digits_rev.simps) simp
  next
    case False
    then show ?thesis using 1 by (subst digits_rev.simps) (simp add: digits_rev.simps [of r "v div r"])
  qed
qed

lemma digits_rev_nonempty [simp]: "digits_rev r v \<noteq> []"
  by (subst digits_rev.simps) simp

section \<open>Properties\<close>

definition digit_value :: "u8 \<Rightarrow> nat" where
  "digit_value c = (if c \<le> 57 then unat c - 48 else if c \<le> 90 then unat c - 55 else unat c - 87)"

definition parse_num :: "nat \<Rightarrow> u8 list \<Rightarrow> nat" where
  "parse_num r s = foldl (\<lambda>a c. a * r + digit_value c) 0 s"

lemma unat_digit_char:
  assumes "d < 36" "lbase = 55 \<or> lbase = 87"
  shows "unat (digit_char lbase d) = d + (if d < 10 then 48 else unat lbase)"
  using assms by (auto simp: digit_char_def unat_word_ariths unat_of_nat)

lemma digit_value_char:
  assumes "d < 36" "lbase = 55 \<or> lbase = 87"
  shows "digit_value (digit_char lbase d) = d" "digit_char lbase d \<noteq> 0"
proof -
  note u = unat_digit_char [OF assms]
  show "digit_value (digit_char lbase d) = d"
    using assms u by (auto simp: digit_value_def word_le_nat_alt split: if_splits)
  show "digit_char lbase d \<noteq> 0" using u by (auto simp flip: unat_eq_zero split: if_splits)
qed

lemma parse_numeral_of:
  assumes "2 \<le> r" "r \<le> 36" "lbase = 55 \<or> lbase = 87"
  shows "parse_num r (numeral_of lbase r v) = v" "0 \<notin> set (numeral_of lbase r v)"
proof -
  have d: "digit_value (digit_char lbase d) = d" "digit_char lbase d \<noteq> 0" if "d \<in> set (digits_rev r v)" for d
    using digit_value_char [OF _ assms(3)] digits_rev_less [OF assms(1) that] assms(2) by auto
  have "foldl (\<lambda>a c. a * r + digit_value c) 0 (map (digit_char lbase) (rev ds)) = foldr (\<lambda>d a. d + r * a) ds 0"
    if "\<forall>d\<in>set ds. digit_value (digit_char lbase d) = d" for ds
    using that by (induction ds) (auto simp: mult.commute)
  then show "parse_num r (numeral_of lbase r v) = v"
    using d(1) digits_rev_value [OF assms(1), of v] by (simp add: parse_num_def numeral_of_def)
  show "0 \<notin> set (numeral_of lbase r v)" using d(2) by (auto simp: numeral_of_def)
qed

lemma numeral_of_length: "v < r ^ n \<Longrightarrow> 0 < n \<Longrightarrow> 2 \<le> r \<Longrightarrow> length (numeral_of lbase r v) \<le> n"
  by (simp add: numeral_of_def digits_rev_pow)

lemma numeral_of_64: "2 \<le> r \<Longrightarrow> length (numeral_of lbase r (unat (v :: u64))) \<le> 64"
proof (rule numeral_of_length)
  assume "2 \<le> r"
  have "(2::nat) ^ 64 \<le> r ^ 64" using \<open>2 \<le> r\<close> by (rule power_mono) simp
  then show "unat v < r ^ 64" using unat_lt64 [of v] by linarith
qed simp_all

lemma ultoa_numeral:
  fixes val :: u64
  assumes r: "nat \<bar>sint radix\<bar> = r" "2 \<le> r" "r \<le> 36"
  defines "lbase \<equiv> if 0 < sint radix then 87 else 55"
  defines "s \<equiv> numeral_of lbase r (unat val)"
  obtains m' where "ultoa m val buf radix = Some (buf, m')" "cstr m' buf s" "only_in (addrs buf (Suc (length s))) m m'"
proof -
  define r1 where "r1 = (if 0 <s radix then radix else - radix)"
  have "sint r1 = int r"
  proof (cases "0 <s radix")
    case True
    then show ?thesis using r(1) by (simp add: r1_def word_sless_alt)
  next
    case False
    then have "sint radix = - int r" using r(1) by (simp add: word_sless_alt)
    then have "radix = word_of_int (- int r)" by (metis of_int_sint scast_id)
    then have "r1 = word_of_nat r" using False by (simp add: r1_def)
    then show ?thesis using r(3) by (simp add: sint_of_nat)
  qed
  then have ok: "\<not> (r1 <s 2 \<or> 36 <s r1)" and u: "unat (scast r1 :: u64) = r"
    using r(2,3) by (simp_all add: word_sless_alt scast_eq unat_of_nat)
  have lb: "(if 0 <s radix then 97 else 65) - 10 = lbase" by (simp add: lbase_def word_sless_alt)
  have lb2: "lbase = 55 \<or> lbase = 87" by (simp add: lbase_def)
  have s: "length s = length (digits_rev r (unat val))" "length s \<le> 64" "0 \<notin> set s"
    using numeral_of_64 [OF r(2)] parse_numeral_of(2) [OF r(2,3) lb2] by (simp_all add: s_def numeral_of_def)
  have "2 \<le> (scast r1 :: u64)" using u r(2) by (simp add: word_le_nat_alt)
  from ultoa_loop_digits [OF this, unfolded u, where val = val and buf = buf and lbase = lbase and m = m] s(1,2) obtain m1 where
    m1: "ultoa_loop m val buf (scast r1) lbase = (buf + word_of_nat (length s), m1)"
      "bytes m1 buf (length s) = rev s" "only_in (addrs buf (length s)) m m1"
    by (auto simp: s_def numeral_of_def rev_map)
  let ?m = "m1(buf + word_of_nat (length s) := 0)"
  have "cstr ?m buf (rev s)"
    using m1(2) s(2,3) last_not_in_block [of "length s" buf] by (simp add: cstr_bytes)
  then obtain m' where m': "strrev ?m buf = Some (buf, m')" "cstr m' buf (rev (rev s))" "only_in (addrs buf (length s)) ?m m'"
    by (rule strrev_cstr) (use s(2) in simp_all)
  have "buf + word_of_nat (length s) \<in> addrs buf (Suc (length s))" by (rule in_addrs) simp
  moreover have "addrs buf (length s) \<subseteq> addrs buf (Suc (length s))" by (rule addrs_mono) simp
  ultimately have "only_in (addrs buf (Suc (length s))) m m'"
    using m1(3) m'(3) by (auto simp: only_in_def split: if_splits)
  moreover have "ultoa m val buf radix = Some (buf, m')"
    using ok m1(1) m'(1) lb by (simp add: ultoa_def r1_def split: if_splits)
  ultimately show thesis using m'(2) that by simp
qed

text \<open>C35: Round trip of \<open>ultoa\<close>: for a radix of 2 to 36, given as a positive or negative
  number, the buffer receives a string that reads back as the number, without leading zeros; its
  letters are lower case for a positive and upper case for a negative radix; nothing after its
  terminating zero is written, and in radix 10 a \<open>long\<close>'s digits and in radix 16 any
  number's fit the 20 bytes \<open>kprintf\<close> has.\<close>

theorem ultoa_roundtrip:
  assumes "2 \<le> \<bar>sint radix\<bar>" "\<bar>sint radix\<bar> \<le> 36"
  shows "\<exists>s m'. ultoa m value buf radix = Some (buf, m') \<and> cstr m' buf s \<and>
    parse_num (nat \<bar>sint radix\<bar>) s = unat value \<and> only_in (addrs buf (Suc (length s))) m m' \<and>
    (0 < value \<longrightarrow> digit_value (hd s) \<noteq> 0) \<and>
    (\<forall>c\<in>set s. (48 \<le> c \<and> c \<le> 57) \<or> (if 0 < sint radix then 97 \<le> c \<and> c \<le> 122 else 65 \<le> c \<and> c \<le> 90)) \<and>
    (\<bar>sint radix\<bar> = 10 \<longrightarrow> unat value \<le> 2 ^ 63 \<longrightarrow> length s \<le> 19) \<and> (\<bar>sint radix\<bar> = 16 \<longrightarrow> length s \<le> 16)"
proof -
  define r and lbase where "r = nat \<bar>sint radix\<bar>" and "lbase = (if 0 < sint radix then 87 else 55 :: u8)"
  have r: "nat \<bar>sint radix\<bar> = r" "2 \<le> r" "r \<le> 36" using assms by (auto simp: r_def)
  have lb: "lbase = 55 \<or> lbase = 87" by (simp add: lbase_def)
  let ?s = "numeral_of lbase r (unat value)"
  obtain m' where m': "ultoa m value buf radix = Some (buf, m')" "cstr m' buf ?s" "only_in (addrs buf (Suc (length ?s))) m m'"
    by (rule ultoa_numeral [OF r, where val = "value", folded lbase_def]) (rule that)
  have chars: "digit_value (digit_char lbase d) = d \<and> unat (digit_char lbase d) = d + (if d < 10 then 48 else unat lbase)"
    if "d < 36" for d
    using digit_value_char(1) [OF that lb] unat_digit_char [OF that lb] by simp
  have ds: "d < 36" if "d \<in> set (digits_rev r (unat value))" for d
    using digits_rev_less [OF r(2) that] r(3) by simp
  have 1: "digit_value (hd ?s) \<noteq> 0" if "0 < value"
  proof -
    let ?l = "last (digits_rev r (unat value))"
    have "?l \<noteq> 0"
    proof (cases "r \<le> unat value")
      case False
      then have "digits_rev r (unat value) = [unat value]" by (subst digits_rev.simps) simp
      then show ?thesis using that by (simp add: unat_eq_zero)
    qed (rule digits_rev_last [OF r(2)])
    moreover have "hd ?s = digit_char lbase ?l" by (simp add: numeral_of_def hd_map hd_rev)
    ultimately show ?thesis using chars ds [OF last_in_set] by simp
  qed
  have 2: "(48 \<le> c \<and> c \<le> 57) \<or> (if 0 < sint radix then 97 \<le> c \<and> c \<le> 122 else 65 \<le> c \<and> c \<le> 90)"
    if c: "c \<in> set ?s" for c
  proof -
    obtain d where d: "d \<in> set (digits_rev r (unat value))" "c = digit_char lbase d" using c by (auto simp: numeral_of_def)
    then show ?thesis using chars [OF ds [OF d(1)]] ds [OF d(1)] by (auto simp: word_le_nat_alt lbase_def)
  qed
  have 3: "length ?s \<le> 19" if "r = 10" "unat value \<le> 2 ^ 63" by (rule numeral_of_length) (use that in simp_all)
  have 4: "length ?s \<le> 16" if "r = 16" by (rule numeral_of_length) (use that unat_lt64 [of "value"] in simp_all)
  show ?thesis
    using m' parse_numeral_of(1) [OF r(2,3) lb] 1 2 3 4 r(1) by (intro exI [of _ ?s] exI [of _ m']) auto
qed

theorem ultoa_roundtrip_witness:
  "\<exists>s m'. ultoa (\<lambda>_. 1) 0xBEEF 0x1000 (- 16) = Some (0x1000, m') \<and> cstr m' 0x1000 s \<and> parse_num 16 s = 0xBEEF"
  using ultoa_roundtrip [of "- 16" "\<lambda>_. 1" "0xBEEF" "0x1000"] by auto

text \<open>C36: \<open>memmem\<close> is the search from left to right for an offset at which the second
  block occurs in the first: it returns the first such place, or a null pointer when there is
  none; an empty block is found at once, and a block larger than the other never.\<close>

theorem memmem_finds_first:
  "memmem m buf1 size1 buf2 size2 =
    (case find (occurs_at m buf1 (unat size1) buf2 (unat size2)) [0..<Suc (unat size1)] of
       Some i \<Rightarrow> buf1 + word_of_nat i | None \<Rightarrow> NULL)"
  using memmem_first [of m buf1 size1 buf2 size2]
proof (elim disjE exE conjE)
  fix i
  assume i: "occurs_at m buf1 (unat size1) buf2 (unat size2) i" "memmem m buf1 size1 buf2 size2 = buf1 + word_of_nat i"
    and least: "\<forall>j<i. \<not> occurs_at m buf1 (unat size1) buf2 (unat size2) j"
  have le: "i \<le> unat size1" using i(1) by (simp add: occurs_at_def)
  then have "[0..<Suc (unat size1)] ! j = j" if "j \<le> i" for j using that nth_upt [of 0 j "Suc (unat size1)"] by simp
  then have "find (occurs_at m buf1 (unat size1) buf2 (unat size2)) [0..<Suc (unat size1)] = Some i"
    using i(1) least le unfolding find_Some_iff by (intro exI [of _ i]) (auto simp del: upt_Suc)
  then show ?thesis using i(2) by (simp del: upt_Suc)
next
  assume "\<forall>i. \<not> occurs_at m buf1 (unat size1) buf2 (unat size2) i" "memmem m buf1 size1 buf2 size2 = NULL"
  moreover from this(1) have "find (occurs_at m buf1 (unat size1) buf2 (unat size2)) [0..<Suc (unat size1)] = None"
    unfolding find_None_iff by simp
  ultimately show ?thesis by (simp del: upt_Suc)
qed

text \<open>\<open>strcat\<close> onto a string, as \<open>LOG\<close> builds its formats, and \<open>memcpy\<close> of a block,
  when source and destination do not overlap: the destination holds the two strings in
  sequence, respectively the source's bytes, and nothing else is written.\<close>

lemma string_and_block_copies:
  assumes "cstr m dst s" "cstr m src t" "length s + length t < 2 ^ 63"
    and "addrs dst (Suc (length s + length t)) \<inter> addrs src (Suc (length t)) = {}"
    and "addrs to (unat n) \<inter> addrs from1 (unat n) = {}"
  shows "(\<exists>m'. strcat m dst src = Some (dst, m') \<and> cstr m' dst (s @ t) \<and>
      only_in (addrs dst (Suc (length s + length t))) m m') \<and>
    (\<exists>m'. memcpy m to from1 n = (to, m') \<and> bytes m' to (unat n) = bytes m from1 (unat n) \<and>
      only_in (addrs to (unat n)) m m')"
proof
  show "\<exists>m'. strcat m dst src = Some (dst, m') \<and> cstr m' dst (s @ t) \<and> only_in (addrs dst (Suc (length s + length t))) m m'"
    by (rule strcat_cstr [OF assms(1-4)]) blast
  have "memcpy m to from1 n = (to, \<lambda>x. if x \<in> addrs to (unat n) then m (from1 + (x - to)) else m x)"
    using memcpy_loop_eq [OF unat_lt64 assms(5)] by (simp add: memcpy_def)
  then show "\<exists>m'. memcpy m to from1 n = (to, m') \<and> bytes m' to (unat n) = bytes m from1 (unat n) \<and>
      only_in (addrs to (unat n)) m m'"
    by (auto simp: bytes_def only_in_def in_addrs)
qed

definition xmem :: mem where
  "xmem a = (if a = 0x100 then 65 else if a = 0x200 then 66 else if a = 0x201 then 67 else 0)"

lemma string_and_block_copies_example:
  "\<exists>m'. strcat xmem 0x100 0x200 = Some (0x100, m') \<and> cstr m' 0x100 [65, 66, 67]"
proof -
  have "cstr xmem 0x100 [65]" "cstr xmem 0x200 [66, 67]" by (simp_all add: xmem_def)
  moreover have "addrs 0x100 (Suc (length [65::u8] + length [66::u8, 67])) \<inter> addrs 0x200 (Suc (length [66::u8, 67])) = {}"
    by (rule addrs_disjoint) simp_all
  moreover have "addrs 0x300 (unat 0) \<inter> addrs 0x400 (unat (0 :: u64)) = {}" by simp
  ultimately show ?thesis using string_and_block_copies [of xmem "0x100" "[65]" "0x200" "[66, 67]" "0x300" 0 "0x400"] by auto
qed

end
