(* ===== verification/Console.thy ===== *)
theory Console
  imports Cstring Spinlock
begin

text \<open>
  The text console: the VGA driver (\<open>x86_64/vga.c\<close>), the cursor and the escapes of
  \<open>put_char\<close>, and \<open>kprintf\<close> and \<open>kclear\<close> (\<open>common.c\<close>). Row and column numbers are
  unbounded integers here; they stay between 0 and the display's size, as shown below.
\<close>

section \<open>The VGA driver\<close>

abbreviation VGA_ROWS :: int where "VGA_ROWS \<equiv> 25"
abbreviation VGA_COLS :: int where "VGA_COLS \<equiv> 80"
abbreviation VGA_BLACK :: "4 word" where "VGA_BLACK \<equiv> 0"
abbreviation VGA_LIGHT_GRAY :: "4 word" where "VGA_LIGHT_GRAY \<equiv> 7"

record vga_cell =
  vc_chr :: u8
  vc_fcolor :: "4 word"
  vc_bcolor :: "4 word"

text \<open>
  Video memory as an array of cells from \<open>VIDEO_ADDR\<close> on, the bytes sent to I/O ports, and
  the variables of the two files.
\<close>

record console = hw +
  con_video :: "int \<Rightarrow> vga_cell"
  con_ports :: "(u16 \<times> u16) list"
  con_cursor_row :: int
  con_cursor_col :: int
  con_display_row :: int
  con_display_col :: int

definition get_cell :: "int \<Rightarrow> int \<Rightarrow> int" where
  "get_cell row col = row * VGA_COLS + col"

definition get_vga_cell :: "int \<Rightarrow> int \<Rightarrow> 'z console_scheme \<Rightarrow> vga_cell" where
  "get_vga_cell row col s = con_video s (get_cell row col)"

definition put_cell :: "int \<Rightarrow> int \<Rightarrow> vga_cell \<Rightarrow> 'z console_scheme \<Rightarrow> 'z console_scheme" where
  "put_cell row col cell s = s\<lparr>con_video := (con_video s)(get_cell row col := cell)\<rparr>"

definition set_vga_cell :: "int \<Rightarrow> int \<Rightarrow> u8 \<Rightarrow> i32 \<Rightarrow> i32 \<Rightarrow> 'z console_scheme \<Rightarrow> 'z console_scheme" where
  "set_vga_cell row col chr fcolor bcolor s =
     put_cell row col \<lparr>vc_chr = chr, vc_fcolor = ucast fcolor, vc_bcolor = ucast bcolor\<rparr> s"

definition port_out :: "u16 \<Rightarrow> u16 \<Rightarrow> 'z console_scheme \<Rightarrow> 'z console_scheme" where
  "port_out port v s = s\<lparr>con_ports := con_ports s @ [(port, v)]\<rparr>"

definition get_vga_cursor :: "'z console_scheme \<Rightarrow> int \<times> int" where
  "get_vga_cursor s = (con_cursor_row s, con_cursor_col s)"

definition set_vga_cursor :: "int \<Rightarrow> int \<Rightarrow> 'z console_scheme \<Rightarrow> 'z console_scheme" where
  "set_vga_cursor row col s =
     (let s1 = s\<lparr>con_cursor_row := row, con_cursor_col := col\<rparr>;
          off = row * VGA_COLS + col in
      port_out 0x3D5 (word_of_int ((off div 256) mod 256))
        (port_out 0x3D4 0x0E (port_out 0x3D5 (word_of_int (off mod 256)) (port_out 0x3D4 0x0F s1))))"

definition set_display_char :: "int \<Rightarrow> int \<Rightarrow> u8 \<Rightarrow> 'z console_scheme \<Rightarrow> 'z console_scheme" where
  "set_display_char row col chr s = put_cell row col ((get_vga_cell row col s)\<lparr>vc_chr := chr\<rparr>) s"

text \<open>The positions a double loop visits, row by row.\<close>

definition cells :: "int list \<Rightarrow> (int \<times> int) list" where
  "cells rows = List.product rows [0..VGA_COLS - 1]"

definition shift_display_rows :: "'z console_scheme \<Rightarrow> 'z console_scheme" where
  "shift_display_rows s =
     fold (\<lambda>col s. set_display_char (VGA_ROWS - 1) col 0 s) [0..VGA_COLS - 1]
       (fold (\<lambda>(row, col) s. put_cell (row - 1) col (get_vga_cell row col s) s) (cells [1..VGA_ROWS - 1]) s)"

definition clear_display :: "'z console_scheme \<Rightarrow> 'z console_scheme" where
  "clear_display s =
     fold (\<lambda>(row, col). put_cell row col \<lparr>vc_chr = 0, vc_fcolor = VGA_LIGHT_GRAY, vc_bcolor = VGA_BLACK\<rparr>)
       (cells [0..VGA_ROWS - 1]) s"

section \<open>\<open>put_char\<close>, \<open>kclear\<close>\<close>

definition new_line :: "'z console_scheme \<Rightarrow> 'z console_scheme" where
  "new_line s =
     (let s1 = s\<lparr>con_display_col := 0, con_display_row := con_display_row s + 1\<rparr> in
      if con_display_row s1 = VGA_ROWS
      then (shift_display_rows s1)\<lparr>con_display_row := con_display_row s1 - 1\<rparr> else s1)"

definition put_char :: "u8 \<Rightarrow> 'z console_scheme \<Rightarrow> 'z console_scheme" where
  "put_char chr s =
     (if chr = 13 then s\<lparr>con_display_col := 0\<rparr>
      else if chr = 10 then new_line s
      else
        let s1 = set_display_char (con_display_row s) (con_display_col s) chr s;
            s2 = s1\<lparr>con_display_col := con_display_col s1 + 1\<rparr> in
        if con_display_col s2 = VGA_COLS then new_line s2 else s2)"

definition kclear :: "nat \<Rightarrow> 'z console_scheme \<Rightarrow> 'z console_scheme" where
  "kclear c s =
     (let s1 = snd (acquire_spinlock c Lock_vga 0 s);
          s2 = set_vga_cursor 0 0 (clear_display s1) in
      release_spinlock c Lock_vga (s2\<lparr>con_display_row := 0, con_display_col := 0\<rparr>))"

definition init_vga :: "nat \<Rightarrow> 'z console_scheme \<Rightarrow> 'z console_scheme" where
  "init_vga c s =
     kclear c (port_out 0x3D4 0xF0B (port_out 0x3D4 0xE0A (create_spinlock Lock_vga s)))"

section \<open>\<open>kprintf\<close>\<close>

text \<open>
  The variable arguments are 64-bit slots; taking one that is not there is undefined, which
  here, as not returning, is \<open>None\<close>. The array \<open>buf\<close> is 20 bytes of the stack at an address.
\<close>

partial_function (option) puts ::
  "mem \<Rightarrow> ptr \<Rightarrow> i32 \<Rightarrow> 'z console_scheme \<Rightarrow> (i32 \<times> 'z console_scheme) option" where
  "puts m str num s =
     (if m str \<noteq> 0 then puts m (str + 1) (num + 1) (put_char (m str) s) else Some (num, s))"

partial_function (option) skip_attrs :: "mem \<Rightarrow> ptr \<Rightarrow> bool \<Rightarrow> (bool \<times> u8 \<times> ptr) option" where
  "skip_attrs m format size_long =
     (if m format = 108 then skip_attrs m (format + 1) True
      else Some (size_long, m format, format + 1))"

definition convert_arg ::
  "mem \<Rightarrow> ptr \<Rightarrow> bool \<Rightarrow> u8 \<Rightarrow> u64 \<Rightarrow> i32 \<Rightarrow> 'z console_scheme \<Rightarrow> (i32 \<times> mem \<times> 'z console_scheme) option" where
  "convert_arg m buf size_long chr arg num s =
     (if chr = 115 then map_option (\<lambda>(n, s1). (n, m, s1)) (puts m arg num s)
      else if chr = 100 then
        let lint = (if size_long then arg else scast (ucast arg :: i32));
            (lint1, num1, s1) = (if lint <s 0 then (- lint, num + 1, put_char 45 s) else (lint, num, s)) in
        Option.bind (ultoa m lint1 buf 10) (\<lambda>(str, m1). map_option (\<lambda>(n, s2). (n, m1, s2)) (puts m1 str num1 s1))
      else if chr = 120 \<or> chr = 88 then
        let lint = (if size_long then arg else ucast (ucast arg :: u32)) in
        Option.bind (ultoa m lint buf (if chr = 120 then 16 else - 16))
          (\<lambda>(str, m1). map_option (\<lambda>(n, s1). (n, m1, s1)) (puts m1 str num s))
      else
        let m1 = m(buf := ucast arg, buf + 1 := 0) in
        map_option (\<lambda>(n, s1). (n, m1, s1)) (puts m1 buf num s))"

definition takes_arg :: "u8 \<Rightarrow> bool" where
  "takes_arg chr \<longleftrightarrow> chr \<in> {115, 100, 120, 88, 99}"

partial_function (option) kprintf_loop ::
  "ptr \<Rightarrow> mem \<Rightarrow> ptr \<Rightarrow> u64 list \<Rightarrow> i32 \<Rightarrow> 'z console_scheme \<Rightarrow> (i32 \<times> mem \<times> 'z console_scheme) option" where
  "kprintf_loop buf m format vargs num s =
     (if m format = 0 then Some (num, m, s)
      else if m format = 37 then
        Option.bind (skip_attrs m (format + 1) False) (\<lambda>(size_long, chr, format1).
          if chr = 37 then kprintf_loop buf m format1 vargs (num + 1) (put_char 37 s)
          else if takes_arg chr then
            (case vargs of
               [] \<Rightarrow> None
             | arg # vargs1 \<Rightarrow>
                 Option.bind (convert_arg m buf size_long chr arg num s)
                   (\<lambda>(num1, m1, s1). kprintf_loop buf m1 format1 vargs1 num1 s1))
          else kprintf_loop buf m format1 vargs num s)
      else kprintf_loop buf m (format + 1) vargs (num + 1) (put_char (m format) s))"

definition kprintf ::
  "nat \<Rightarrow> ptr \<Rightarrow> mem \<Rightarrow> ptr \<Rightarrow> u64 list \<Rightarrow> 'z console_scheme \<Rightarrow> (i32 \<times> mem \<times> 'z console_scheme) option" where
  "kprintf c buf m format vargs s =
     map_option (\<lambda>(num, m1, s1).
         (num, m1, release_spinlock c Lock_vga (set_vga_cursor (con_display_row s1) (con_display_col s1) s1)))
       (kprintf_loop buf m format vargs 0 (snd (acquire_spinlock c Lock_vga 0 s)))"

section \<open>Scrolling\<close>

lemma map_add_upto: "map (\<lambda>x. x + k) [i..j] = [i + k..j + (k::int)]"
proof (induction i j rule: upto.induct)
  case (1 i j)
  show ?case
  proof (cases "i \<le> j")
    case True
    then have "[i..j] = i # [i + 1..j]" "[i + k..j + k] = (i + k) # [i + k + 1..j + k]"
      by (simp_all add: upto.simps [of i] upto.simps [of "i + k"])
    then show ?thesis using 1 [OF True] by (simp add: add.commute add.left_commute)
  qed simp
qed

text \<open>A loop over whole rows visits consecutive cells.\<close>

lemma cells_linear: "map (\<lambda>(r, c). get_cell r c) (cells [a..b]) = [a * 80..b * 80 + 79]"
proof (induction a b rule: upto.induct)
  case (1 a b)
  show ?case
  proof (cases "a \<le> b")
    case True
    have row: "map (\<lambda>c. get_cell a c) [0..79] = [a * 80..a * 80 + 79]"
      using map_add_upto [of "a * 80" 0 79] by (simp add: get_cell_def add.commute)
    have "map (\<lambda>(r, c). get_cell r c) (cells [a..b]) = [a * 80..a * 80 + 79] @ [(a + 1) * 80..b * 80 + 79]"
      using 1 [OF True] True row by (simp add: cells_def upto.simps [of a b] comp_def)
    also have "\<dots> = [a * 80..b * 80 + 79]"
      using upto_split2 [of "a * 80" "a * 80 + 79" "b * 80 + 79"] True by (simp add: algebra_simps)
    finally show ?thesis .
  next
    case False
    then show ?thesis by (simp add: cells_def)
  qed
qed

lemma cells_in: "(r, c) \<in> set (cells [a..b]) \<longleftrightarrow> a \<le> r \<and> r \<le> b \<and> 0 \<le> c \<and> c < 80"
  by (auto simp: cells_def)

lemma copy_loop:
  "fold (\<lambda>(row, col) s. put_cell (row - 1) col (get_vga_cell row col s) s) xs s =
     s\<lparr>con_video := fold (\<lambda>i v. v(i - 80 := v i)) (map (\<lambda>(r, c). get_cell r c) xs) (con_video s)\<rparr>"
  by (induction xs arbitrary: s) (auto simp: put_cell_def get_vga_cell_def get_cell_def algebra_simps)

lemma copy_down:
  assumes "80 \<le> a"
  shows "fold (\<lambda>i v. v(i - 80 := v i)) [a..b] v = (\<lambda>j. if a - 80 \<le> j \<and> j \<le> b - 80 then v (j + 80) else v j)"
  using assms
proof (induction a b arbitrary: v rule: upto.induct)
  case (1 a b)
  show ?case
  proof (cases "a \<le> b")
    case True
    then show ?thesis using 1(1) [OF True, of "v(a - 80 := v a)"] 1(2) by (auto simp: upto.simps [of a b] fun_eq_iff)
  next
    case False
    then show ?thesis by (auto simp: fun_eq_iff)
  qed
qed

lemma blank_loop:
  "fold (\<lambda>col s. set_display_char row col x s) cols s =
     s\<lparr>con_video := (\<lambda>j. if j \<in> (\<lambda>c. get_cell row c) ` set cols then (con_video s j)\<lparr>vc_chr := x\<rparr> else con_video s j)\<rparr>"
  by (induction cols arbitrary: s) (auto simp: set_display_char_def put_cell_def get_vga_cell_def fun_eq_iff)

lemma fill_loop:
  "fold (\<lambda>(row, col). put_cell row col x) xs s =
     s\<lparr>con_video := (\<lambda>j. if j \<in> set (map (\<lambda>(r, c). get_cell r c) xs) then x else con_video s j)\<rparr>"
  by (induction xs arbitrary: s) (auto simp: put_cell_def fun_eq_iff)

lemma shift_display_rows_eq:
  "shift_display_rows s = s\<lparr>con_video := (\<lambda>j. if 0 \<le> j \<and> j < 24 * 80 then con_video s (j + 80)
     else if 24 * 80 \<le> j \<and> j < 25 * 80 then (con_video s j)\<lparr>vc_chr := 0\<rparr> else con_video s j)\<rparr>"
proof -
  have last: "(\<lambda>c. get_cell (VGA_ROWS - 1) c) ` set [0..VGA_COLS - 1] = {24 * 80..<25 * 80}"
    using image_add_atLeastAtMost [of "24 * 80 :: int" 0 79] unfolding set_upto by (auto simp: get_cell_def)
  have n: "(1::int) * 80 = 80" "(VGA_ROWS - 1) * 80 + 79 = 1999" "(80::int) - 80 = 0" "(1999::int) - 80 = 1919" by simp_all
  have copy: "fold (\<lambda>i v. v(i - 80 := v i)) (map (\<lambda>(r, c). get_cell r c) (cells [1..VGA_ROWS - 1])) (con_video s) =
      (\<lambda>j. if 0 \<le> j \<and> j \<le> 1919 then con_video s (j + 80) else con_video s j)"
    unfolding cells_linear n copy_down [OF order_refl] ..
  show ?thesis
    unfolding shift_display_rows_def copy_loop blank_loop copy last by (simp add: fun_eq_iff)
qed

lemma clear_display_eq:
  "clear_display s = s\<lparr>con_video := (\<lambda>j. if 0 \<le> j \<and> j < 25 * 80
     then \<lparr>vc_chr = 0, vc_fcolor = VGA_LIGHT_GRAY, vc_bcolor = VGA_BLACK\<rparr> else con_video s j)\<rparr>"
proof -
  have "(VGA_ROWS - 1) * 80 + 79 = 1999" "(0::int) * 80 = 0" by simp_all
  then show ?thesis unfolding clear_display_def fill_loop cells_linear set_upto by (simp add: fun_eq_iff)
qed

section \<open>An abstract terminal\<close>

text \<open>25 rows of 80 characters, and where the next one goes.\<close>

record terminal =
  t_rows :: "u8 list list"
  t_row :: nat
  t_col :: nat

definition t_new_line :: "terminal \<Rightarrow> terminal" where
  "t_new_line t =
     (if t_row t < 24 then t\<lparr>t_row := Suc (t_row t), t_col := 0\<rparr>
      else t\<lparr>t_rows := tl (t_rows t) @ [replicate 80 0], t_col := 0\<rparr>)"

definition t_put :: "u8 \<Rightarrow> terminal \<Rightarrow> terminal" where
  "t_put chr t =
     (if chr = 13 then t\<lparr>t_col := 0\<rparr>
      else if chr = 10 then t_new_line t
      else
        let t1 = t\<lparr>t_rows := (t_rows t)[t_row t := (t_rows t ! t_row t)[t_col t := chr]]\<rparr> in
        if t_col t = 79 then t_new_line t1 else t1\<lparr>t_col := Suc (t_col t)\<rparr>)"

definition terminal_of :: "'z console_scheme \<Rightarrow> terminal" where
  "terminal_of s = \<lparr>t_rows = map (\<lambda>r. map (\<lambda>c. vc_chr (con_video s (int (80 * r + c)))) [0..<80]) [0..<25],
     t_row = nat (con_display_row s), t_col = nat (con_display_col s)\<rparr>"

definition con_ok :: "'z console_scheme \<Rightarrow> bool" where
  "con_ok s \<longleftrightarrow> 0 \<le> con_display_row s \<and> con_display_row s < VGA_ROWS \<and>
     0 \<le> con_display_col s \<and> con_display_col s < VGA_COLS"

text \<open>Outside the display nothing is written; the lock state and the VGA cursor stay.\<close>

definition same_rest :: "'z console_scheme \<Rightarrow> 'z console_scheme \<Rightarrow> bool" where
  "same_rest s s' \<longleftrightarrow> (\<forall>i. \<not> (0 \<le> i \<and> i < 25 * 80) \<longrightarrow> con_video s' i = con_video s i) \<and>
     con_ports s' = con_ports s \<and> con_cursor_row s' = con_cursor_row s \<and> con_cursor_col s' = con_cursor_col s \<and>
     hw_busy s' = hw_busy s \<and> hw_outer s' = hw_outer s \<and> hw_if s' = hw_if s"

lemma same_rest_trans: "same_rest s s' \<Longrightarrow> same_rest s' s'' \<Longrightarrow> same_rest s s''"
  by (simp add: same_rest_def)

lemma t_new_line_col [simp]: "t_new_line (t\<lparr>t_col := c\<rparr>) = t_new_line t"
  by (simp add: t_new_line_def)

lemma new_line_refines:
  assumes "0 \<le> con_display_row s" "con_display_row s < VGA_ROWS"
  shows "con_ok (new_line s)" "same_rest s (new_line s)"
    "terminal_of (new_line s) = t_new_line (terminal_of s)"
proof -
  show "con_ok (new_line s)" "same_rest s (new_line s)"
    using assms by (auto simp: new_line_def Let_def con_ok_def same_rest_def shift_display_rows_eq)
  show "terminal_of (new_line s) = t_new_line (terminal_of s)"
  proof (cases "con_display_row s = 24")
    case True
    let ?v = "con_video (shift_display_rows s)" and ?row = "\<lambda>v r. map (\<lambda>c. vc_chr (v (int (80 * r + c)))) [0..<80]"
    have v: "?v = (\<lambda>j. if 0 \<le> j \<and> j < 24 * 80 then con_video s (j + 80)
        else if 24 * 80 \<le> j \<and> j < 25 * 80 then (con_video s j)\<lparr>vc_chr := 0\<rparr> else con_video s j)"
      by (simp add: shift_display_rows_eq)
    have r1: "?row ?v r = ?row (con_video s) (Suc r)" if "r < 24" for r
      using that unfolding v by (intro nth_equalityI) (auto simp: algebra_simps)
    have r2: "?row ?v 24 = replicate 80 0"
      unfolding v by (intro nth_equalityI) auto
    have rows: "map (?row ?v) [0..<25] = tl (map (?row (con_video s)) [0..<25]) @ [replicate 80 0]"
    proof (rule nth_equalityI)
      fix r assume "r < length (map (?row ?v) [0..<25])"
      then consider "r < 24" | "r = 24" by fastforce
      then show "map (?row ?v) [0..<25] ! r = (tl (map (?row (con_video s)) [0..<25]) @ [replicate 80 0]) ! r"
      proof cases
        case 1
        then show ?thesis using r1 [OF 1] by (simp add: nth_append nth_tl del: upt_rec_numeral)
      next
        case 2
        then show ?thesis using r2 by (simp add: nth_append del: upt_rec_numeral)
      qed
    qed simp
    have "new_line s = (shift_display_rows s)\<lparr>con_display_col := 0, con_display_row := 24\<rparr>"
      using True by (simp add: new_line_def shift_display_rows_eq Let_def cong: if_cong)
    then show ?thesis using rows True by (simp add: terminal_of_def t_new_line_def del: upt_rec_numeral)
  next
    case False
    then show ?thesis using assms by (simp add: new_line_def terminal_of_def t_new_line_def Suc_nat_eq_nat_zadd1 add.commute)
  qed
qed

lemma put_char_refines:
  assumes "con_ok s"
  shows "con_ok (put_char ch s)" "same_rest s (put_char ch s)" "terminal_of (put_char ch s) = t_put ch (terminal_of s)"
proof -
  let ?r = "con_display_row s" and ?c = "con_display_col s"
  have b: "0 \<le> ?r" "?r < 25" "0 \<le> ?c" "?c < 80" using assms by (auto simp: con_ok_def)
  define s1 where "s1 = set_display_char ?r ?c ch s"
  have s1: "con_display_row s1 = ?r" "con_display_col s1 = ?c" "same_rest s s1"
    using b by (auto simp: s1_def set_display_char_def put_cell_def same_rest_def get_cell_def)
  have cell: "int (80 * r + c) = get_cell ?r ?c \<longleftrightarrow> r = nat ?r \<and> c = nat ?c" if "c < 80" for r c
  proof
    assume "int (80 * r + c) = get_cell ?r ?c"
    then have e: "80 * int r + int c = 80 * ?r + ?c" by (simp add: get_cell_def)
    then have "(80 * int r + int c) div 80 = (80 * ?r + ?c) div 80" "(80 * int r + int c) mod 80 = (80 * ?r + ?c) mod 80" by simp_all
    then have "int r = ?r \<and> int c = ?c" using that b by simp
    then show "r = nat ?r \<and> c = nat ?c" by auto
  qed (use b in \<open>simp add: get_cell_def\<close>)
  have t1: "terminal_of s1 = (terminal_of s)\<lparr>t_rows := (t_rows (terminal_of s))[nat ?r := (t_rows (terminal_of s) ! nat ?r)[nat ?c := ch]]\<rparr>"
  proof -
    have "t_rows (terminal_of s1) = (t_rows (terminal_of s))[nat ?r := (t_rows (terminal_of s) ! nat ?r)[nat ?c := ch]]"
      using b cell
      by (intro nth_equalityI)
        (auto simp: terminal_of_def s1_def set_display_char_def put_cell_def get_vga_cell_def nth_list_update
          simp del: upt_rec_numeral intro!: nth_equalityI)
    then show ?thesis using s1 by (simp add: terminal_of_def)
  qed
  have col: "nat ?c = 79 \<longleftrightarrow> ?c + 1 = 80" using b by auto
  let ?s2 = "s1\<lparr>con_display_col := ?c + 1\<rparr>"
  have s2: "same_rest s ?s2" "terminal_of ?s2 = (terminal_of s1)\<lparr>t_col := nat (?c + 1)\<rparr>"
    using s1 by (auto simp: same_rest_def terminal_of_def)
  have nl: "0 \<le> con_display_row s" "con_display_row s < VGA_ROWS" "0 \<le> con_display_row ?s2" "con_display_row ?s2 < VGA_ROWS"
    using b s1 by simp_all
  note n1 = new_line_refines [OF nl(1,2)] and n2 = new_line_refines [OF nl(3,4)]
  have put: "put_char ch s = (if ch = 13 then s\<lparr>con_display_col := 0\<rparr> else if ch = 10 then new_line s
      else if ?c + 1 = 80 then new_line ?s2 else ?s2)"
    by (simp add: put_char_def s1_def [symmetric] s1)
  consider "ch = 13" | "ch = 10" | "ch \<noteq> 13" "ch \<noteq> 10" "?c + 1 = 80" | "ch \<noteq> 13" "ch \<noteq> 10" "?c + 1 \<noteq> 80" by blast
  then have "con_ok (put_char ch s) \<and> same_rest s (put_char ch s) \<and> terminal_of (put_char ch s) = t_put ch (terminal_of s)"
  proof cases
    case 1
    then show ?thesis using b unfolding put by (simp add: con_ok_def same_rest_def terminal_of_def t_put_def)
  next
    case 2
    then show ?thesis using n1(1,2) n1(3) unfolding put by (simp add: t_put_def)
  next
    case 3
    have "t_col (terminal_of s) = nat ?c" "t_row (terminal_of s) = nat ?r" by (simp_all add: terminal_of_def)
    then show ?thesis
      using 3 n2(1) same_rest_trans [OF s2(1) n2(2)] n2(3) t1 col s2(2) unfolding put by (simp add: t_put_def)
  next
    case 4
    have "t_col (terminal_of s) = nat ?c" "t_row (terminal_of s) = nat ?r" by (simp_all add: terminal_of_def)
    then show ?thesis using 4 b s1 s2 t1 col unfolding put by (simp add: t_put_def con_ok_def nat_add_distrib)
  qed
  then show "con_ok (put_char ch s)" "same_rest s (put_char ch s)" "terminal_of (put_char ch s) = t_put ch (terminal_of s)" by auto
qed

end
