(* ===== verification/Printf.thy ===== *)
theory Printf
  imports Console
begin

text \<open>
  What \<open>kprintf\<close> prints: a reference definition on the text of the format, and the proof
  that the loop over memory, the stack buffer and the display prints exactly that.
\<close>

section \<open>The reference\<close>

text \<open>\<open>S\<close> gives the string at an address, where there is one.\<close>

definition show_arg :: "(ptr \<Rightarrow> u8 list option) \<Rightarrow> bool \<Rightarrow> u8 \<Rightarrow> u64 \<Rightarrow> u8 list option" where
  "show_arg S size_long chr arg =
     (if chr = 115 then S arg
      else if chr = 100 then
        let v = (if size_long then sint arg else sint (ucast arg :: i32)) in
        Some ((if v < 0 then [45] else []) @ numeral_of 87 10 (nat \<bar>v\<bar>))
      else if chr = 120 \<or> chr = 88 then
        let v = (if size_long then unat arg else unat (ucast arg :: u32)) in
        Some (numeral_of (if chr = 120 then 87 else 55) 16 v)
      else Some (if (ucast arg :: u8) = 0 then [] else [ucast arg]))"

lemma dropWhile_shorter: "dropWhile P cs = k # ks \<Longrightarrow> length ks < length cs"
  by (metis Suc_le_lessD length_Cons length_dropWhile_le)

function render :: "(ptr \<Rightarrow> u8 list option) \<Rightarrow> u8 list \<Rightarrow> u64 list \<Rightarrow> u8 list option" where
  "render S [] vargs = Some []"
| "render S (c # cs) vargs =
     (if c \<noteq> 37 then map_option ((#) c) (render S cs vargs)
      else
        (case dropWhile (\<lambda>x. x = 108) cs of
           [] \<Rightarrow> None
         | k # ks \<Rightarrow>
             if k = 37 then map_option ((#) 37) (render S ks vargs)
             else if takes_arg k then
               (case vargs of
                  [] \<Rightarrow> None
                | arg # vargs1 \<Rightarrow>
                    Option.bind (show_arg S (takeWhile (\<lambda>x. x = 108) cs \<noteq> []) k arg)
                      (\<lambda>out. map_option ((@) out) (render S ks vargs1)))
             else render S ks vargs))"
  by pat_completeness auto

termination
  by (relation "measure (\<lambda>(S, f, vargs). length f)") (auto dest: dropWhile_shorter)

section \<open>The loops\<close>

definition put_all :: "u8 list \<Rightarrow> 'z console_scheme \<Rightarrow> 'z console_scheme" where
  "put_all = fold put_char"

lemma put_all_simps [simp]:
  "put_all [] s = s" "put_all (c # cs) s = put_all cs (put_char c s)" "put_all (xs @ ys) s = put_all ys (put_all xs s)"
  by (simp_all add: put_all_def)

lemma puts_cstr: "cstr m a t \<Longrightarrow> puts m a num s = Some (num + word_of_nat (length t), put_all t s)"
proof (induction t arbitrary: a num s)
  case Nil
  then show ?case by (subst puts.simps) simp
next
  case (Cons c t)
  then show ?case by (subst puts.simps) (auto simp: ac_simps)
qed

lemma skip_attrs_cstr:
  assumes "cstr m a cs" "dropWhile (\<lambda>x. x = 108) cs = k # ks"
  obtains b where "skip_attrs m a long = Some (long \<or> takeWhile (\<lambda>x. x = 108) cs \<noteq> [], k, b)" "cstr m b ks" "k \<noteq> 0"
    "addrs b (Suc (length ks)) \<subseteq> addrs a (Suc (length cs))"
proof -
  have "\<exists>b. skip_attrs m a long = Some (long \<or> takeWhile (\<lambda>x. x = 108) cs \<noteq> [], k, b) \<and> cstr m b ks \<and> k \<noteq> 0 \<and>
    addrs b (Suc (length ks)) \<subseteq> addrs a (Suc (length cs))"
    using assms
  proof (induction cs arbitrary: a long)
    case (Cons c cs)
    show ?case
    proof (cases "c = 108")
      case True
      have "addrs (a + 1) (Suc (length cs)) \<subseteq> addrs a (Suc (length (c # cs)))" by (auto simp: addrs_Suc)
      then show ?thesis
        using Cons.IH [of "a + 1" True] Cons.prems True by (subst skip_attrs.simps) fastforce
    next
      case False
      then show ?thesis using Cons.prems by (subst skip_attrs.simps) (auto simp: addrs_Suc)
    qed
  qed simp
  then show thesis using that by blast
qed

text \<open>A conversion prints what the reference shows, and writes only the stack buffer.\<close>

definition strings_at :: "mem \<Rightarrow> ptr \<Rightarrow> (ptr \<Rightarrow> u8 list option) \<Rightarrow> bool" where
  "strings_at m buf S \<longleftrightarrow> (\<forall>a t. S a = Some t \<longrightarrow> cstr m a t \<and> addrs a (Suc (length t)) \<inter> addrs buf 20 = {})"

lemma strings_at_only: "strings_at m buf S \<Longrightarrow> only_in (addrs buf 20) m m' \<Longrightarrow> strings_at m' buf S"
  unfolding strings_at_def by (meson cstr_only_in)

lemma print_numeral:
  assumes "nat \<bar>sint radix\<bar> = r" "2 \<le> r" "r \<le> 36" "length (numeral_of (if 0 < sint radix then 87 else 55) r (unat val)) \<le> 19"
  obtains m' where
    "Option.bind (ultoa m val buf radix) (\<lambda>(str, m1). map_option (\<lambda>(n, s1). (n, m1, s1)) (puts m1 str num s)) =
       Some (num + word_of_nat (length (numeral_of (if 0 < sint radix then 87 else 55) r (unat val))), m',
         put_all (numeral_of (if 0 < sint radix then 87 else 55) r (unat val)) s)"
    "only_in (addrs buf 20) m m'"
proof -
  obtain m' where m': "ultoa m val buf radix = Some (buf, m')"
    "cstr m' buf (numeral_of (if 0 < sint radix then 87 else 55) r (unat val))"
    "only_in (addrs buf (Suc (length (numeral_of (if 0 < sint radix then 87 else 55) r (unat val))))) m m'"
    by (rule ultoa_numeral [OF assms(1-3), where val = val]) (rule that)
  have "only_in (addrs buf 20) m m'" by (rule only_in_mono [OF m'(3)], rule addrs_mono) (use assms(4) in simp)
  then show thesis using m'(1) puts_cstr [OF m'(2), of num s] by (intro that [of m']) simp_all
qed

lemma unat_abs:
  fixes v :: u64
  shows "unat (if v <s 0 then - v else v) = nat \<bar>sint v\<bar>" "unat (if v <s 0 then - v else v) \<le> 2 ^ 63"
proof -
  let ?w = "if v <s 0 then - v else v"
  have b: "- (2 ^ 63) \<le> sint v" "sint v < 2 ^ 63" using sint_ge [of v] sint_lt [of v] by simp_all
  have "v = word_of_int (sint v)" by simp
  then have "?w = word_of_int \<bar>sint v\<bar>" by (auto simp: word_sless_alt abs_if)
  then have "uint ?w = \<bar>sint v\<bar> mod 2 ^ 64" by (simp add: uint_word_of_int)
  also have "\<dots> = \<bar>sint v\<bar>" using b by simp
  finally have u: "uint ?w = \<bar>sint v\<bar>" .
  show "unat ?w = nat \<bar>sint v\<bar>" by (metis u nat_uint_eq)
  then show "unat ?w \<le> 2 ^ 63" using b by simp
qed

lemma sint_scast32: "sint (scast (x :: i32) :: u64) = sint x"
proof -
  have "- (2 ^ 31) \<le> sint x" "sint x < 2 ^ 31" using sint_ge [of x] sint_lt [of x] by simp_all
  then have "signed_take_bit 63 (sint x) = sint x" by (intro signed_take_bit_int_eq_self) simp_all
  moreover have "sint (word_of_int (sint x) :: u64) = signed_take_bit 63 (sint x)" using sint_sbintrunc' [of "sint x", where ?'a = 64] by simp
  ultimately show ?thesis by simp
qed

lemma convert_arg_shows:
  assumes str: "strings_at m buf S" and shown: "show_arg S long k arg = Some out" and k: "takes_arg k"
  obtains m' where "convert_arg m buf long k arg num s = Some (num + word_of_nat (length out), m', put_all out s)"
    "only_in (addrs buf 20) m m'"
proof -
  consider "k = 115" | "k = 100" | "k = 120 \<or> k = 88" | "k = 99" using k by (auto simp: takes_arg_def)
  then show thesis
  proof cases
    case 1
    then show ?thesis using str shown that [of m] by (simp add: strings_at_def convert_arg_def show_arg_def puts_cstr)
  next
    case 2
    define v where "v = (if long then arg else scast (ucast arg :: i32))"
    define w where "w = (if v <s 0 then - v else v)"
    define num1 s1 where "num1 = (if v <s 0 then num + 1 else num)" and "s1 = (if v <s 0 then put_char 45 s else s)"
    have sv: "sint v = (if long then sint arg else sint (ucast arg :: i32))" by (simp add: v_def sint_scast32)
    note uw = unat_abs [of v, folded w_def]
    have "unat w < 10 ^ 19" using uw(2) by simp
    then have len: "length (numeral_of (if 0 < sint (10 :: i32) then 87 else 55) 10 (unat w)) \<le> 19" by (intro numeral_of_length) simp_all
    obtain m' where m': "Option.bind (ultoa m w buf 10) (\<lambda>(str, m1). map_option (\<lambda>(n, s1). (n, m1, s1)) (puts m1 str num1 s1)) =
        Some (num1 + word_of_nat (length (numeral_of 87 10 (unat w))), m', put_all (numeral_of 87 10 (unat w)) s1)"
      "only_in (addrs buf 20) m m'"
      by (rule print_numeral [OF _ _ _ len, of m buf num1 s1]) (simp_all add: that)
    have out: "out = (if v <s 0 then [45] else []) @ numeral_of 87 10 (unat w)"
      using 2 shown uw(1) sv by (auto simp: show_arg_def Let_def word_sless_alt)
    have "convert_arg m buf long k arg num s = Option.bind (ultoa m w buf 10) (\<lambda>(str, m1). map_option (\<lambda>(n, s1). (n, m1, s1)) (puts m1 str num1 s1))"
      using 2 by (simp add: convert_arg_def v_def [symmetric] w_def num1_def s1_def split: if_splits)
    then show ?thesis using m' out by (intro that [of m']) (simp_all add: num1_def s1_def)
  next
    case 3
    define v where "v = (if long then arg else ucast (ucast arg :: u32))"
    define radix where "radix = (if k = 120 then 16 else - 16 :: i32)"
    define n where "n = numeral_of (if 0 < sint radix then 87 else 55) 16 (unat v)"
    have r: "nat \<bar>sint radix\<bar> = 16" by (simp add: radix_def)
    have len: "length n \<le> 19"
      unfolding n_def by (rule order_trans [OF numeral_of_length [of _ 16 16]]) (use unat_lt64 [of v] in simp_all)
    have uv: "unat v = (if long then unat arg else unat (ucast arg :: u32))"
      by (simp add: v_def unat_ucast32)
    obtain m' where m': "Option.bind (ultoa m v buf radix) (\<lambda>(str, m1). map_option (\<lambda>(n, s1). (n, m1, s1)) (puts m1 str num s)) =
        Some (num + word_of_nat (length n), m', put_all n s)" "only_in (addrs buf 20) m m'"
      unfolding n_def by (rule print_numeral [OF r _ _ len [unfolded n_def], of m buf num s]) (simp_all add: that)
    have "out = n" using 3 shown uv by (auto simp: show_arg_def Let_def n_def radix_def)
    moreover have "convert_arg m buf long k arg num s =
        Option.bind (ultoa m v buf radix) (\<lambda>(str, m1). map_option (\<lambda>(n, s1). (n, m1, s1)) (puts m1 str num s))"
      using 3 by (auto simp: convert_arg_def v_def radix_def Let_def)
    ultimately show ?thesis using m' that by simp
  next
    case 4
    let ?m = "m(buf := ucast arg, buf + 1 := 0)"
    have out: "out = (if (ucast arg :: u8) = 0 then [] else [ucast arg])" using 4 shown by (simp add: show_arg_def)
    have "cstr ?m buf out" by (simp add: out)
    moreover have "only_in (addrs buf 20) m ?m"
      using in_addrs [of 0 20 buf] in_addrs [of 1 20 buf] by (auto simp: only_in_def)
    ultimately show ?thesis using 4 that [of ?m] puts_cstr [of ?m buf out num s] by (simp add: convert_arg_def Let_def)
  qed
qed

lemma kprintf_loop_renders:
  assumes "render S f vargs = Some out" "cstr m a f" "strings_at m buf S"
    and "addrs a (Suc (length f)) \<inter> addrs buf 20 = {}"
  shows "\<exists>m'. kprintf_loop buf m a vargs num s = Some (num + word_of_nat (length out), m', put_all out s) \<and>
    only_in (addrs buf 20) m m'"
  using assms
proof (induction S f vargs arbitrary: out m a num s rule: render.induct)
  case (1 S vargs)
  then show ?case by (subst kprintf_loop.simps) simp
next
  case (2 S c cs vargs)
  note prems = 2(5-8) and plain = 2(1) and percent = 2(2) and arg = 2(3) and ignored = 2(4)
  have c: "m a = c" "c \<noteq> 0" "cstr m (a + 1) cs" using prems(2) by auto
  have sub: "addrs (a + 1) (Suc (length cs)) \<inter> addrs buf 20 = {}"
    using prems(4) by (auto simp: addrs_Suc)
  show ?case
  proof (cases "c = 37")
    case False
    then obtain out1 where o: "render S cs vargs = Some out1" "out = c # out1" using prems(1) by auto
    from plain [OF False o(1) c(3) prems(3) sub, of "num + 1" "put_char c s"] show ?thesis
      using False c(1,2) o(2) by (subst kprintf_loop.simps) (auto simp: ac_simps)
  next
    case True
    then obtain k ks where k: "dropWhile (\<lambda>x. x = 108) cs = k # ks"
      using prems(1) by (auto split: list.splits)
    let ?long = "takeWhile (\<lambda>x. x = 108) cs \<noteq> []"
    obtain b where b: "skip_attrs m (a + 1) False = Some (?long, k, b)" "cstr m b ks" "k \<noteq> 0"
      "addrs b (Suc (length ks)) \<subseteq> addrs (a + 1) (Suc (length cs))"
      by (rule skip_attrs_cstr [OF c(3) k, of False]) (use that in simp)
    have dis: "addrs b (Suc (length ks)) \<inter> addrs buf 20 = {}" using b(4) sub by blast
    have step: "kprintf_loop buf m a vargs num s =
        (if k = 37 then kprintf_loop buf m b vargs (num + 1) (put_char 37 s)
         else if takes_arg k then
           (case vargs of [] \<Rightarrow> None
            | arg # vargs1 \<Rightarrow> Option.bind (convert_arg m buf ?long k arg num s)
                (\<lambda>(num1, m1, s1). kprintf_loop buf m1 b vargs1 num1 s1))
         else kprintf_loop buf m b vargs num s)"
      by (subst kprintf_loop.simps) (simp add: c True b(1))
    have nn: "\<not> c \<noteq> 37" using True by simp
    consider "k = 37" | "k \<noteq> 37" "takes_arg k" | "k \<noteq> 37" "\<not> takes_arg k" by blast
    then show ?thesis
    proof cases
      case 1
      then obtain out1 where o: "render S ks vargs = Some out1" "out = 37 # out1" using prems(1) True k by auto
      from percent [OF nn k 1 o(1) b(2) prems(3) dis, of "num + 1" "put_char 37 s"] show ?thesis
        using 1 o(2) unfolding step by (auto simp: ac_simps)
    next
      case 2
      then obtain arg1 vargs1 out0 out1 where o: "vargs = arg1 # vargs1" "show_arg S ?long k arg1 = Some out0"
        "render S ks vargs1 = Some out1" "out = out0 @ out1"
        using prems(1) True k by (auto split: list.splits option.splits bind_splits)
      obtain m1 where m1: "convert_arg m buf ?long k arg1 num s = Some (num + word_of_nat (length out0), m1, put_all out0 s)"
        "only_in (addrs buf 20) m m1"
        by (rule convert_arg_shows [OF prems(3) o(2) 2(2)]) (rule that)
      have "cstr m1 b ks" using cstr_only_in [OF m1(2) dis] b(2) by simp
      from arg [OF nn k 2 o(1,2,3) this strings_at_only [OF prems(3) m1(2)] dis]
      obtain m2 where m2: "kprintf_loop buf m1 b vargs1 (num + word_of_nat (length out0)) (put_all out0 s) =
          Some (num + word_of_nat (length out0) + word_of_nat (length out1), m2, put_all out1 (put_all out0 s))"
        "only_in (addrs buf 20) m1 m2" by blast
      have "only_in (addrs buf 20) m m2" by (rule only_in_trans [OF m1(2) m2(2)]) simp_all
      then show ?thesis using 2 o m1(1) m2(1) unfolding step by (auto simp: ac_simps)
    next
      case 3
      then have "render S ks vargs = Some out" using prems(1) True k by simp
      from ignored [OF nn k 3 this b(2) prems(3) dis, of num s] show ?thesis using 3 unfolding step by simp
    qed
  qed
qed

text \<open>The lock is taken and released around the text.\<close>

lemma put_all_refines:
  "con_ok s \<Longrightarrow> con_ok (put_all out s) \<and> same_rest s (put_all out s) \<and> terminal_of (put_all out s) = fold t_put out (terminal_of s)"
proof (induction out arbitrary: s)
  case Nil
  then show ?case by (simp add: same_rest_def)
next
  case (Cons c out)
  note p = put_char_refines [OF Cons.prems, of c]
  show ?case using Cons.IH [OF p(1)] p same_rest_trans [OF p(2)] by simp
qed

lemma con_hw_put [simp]:
  "con_ok (hw_put b r i s) \<longleftrightarrow> con_ok s" "terminal_of (hw_put b r i s) = terminal_of s"
  "con_display_row (hw_put b r i s) = con_display_row s" "con_display_col (hw_put b r i s) = con_display_col s"
  "con_ports (hw_put b r i s) = con_ports s"
  by (simp_all add: hw_put_def con_ok_def terminal_of_def)

lemma set_vga_cursor_simps [simp]:
  "terminal_of (set_vga_cursor row col s) = terminal_of s" "con_ok (set_vga_cursor row col s) \<longleftrightarrow> con_ok s"
  "hw_busy (set_vga_cursor row col s) = hw_busy s" "hw_outer (set_vga_cursor row col s) = hw_outer s"
  "hw_if (set_vga_cursor row col s) = hw_if s" "get_vga_cursor (set_vga_cursor row col s) = (row, col)"
  "con_display_row (set_vga_cursor row col s) = con_display_row s" "con_display_col (set_vga_cursor row col s) = con_display_col s"
  by (simp_all add: set_vga_cursor_def port_out_def terminal_of_def con_ok_def get_vga_cursor_def Let_def)

section \<open>Properties\<close>

text \<open>C33: \<open>kprintf\<close> prints what its format says: when the format and the strings its
  arguments name do not overlap the stack buffer, and every conversion has its argument, the
  call returns the number of characters the reference \<open>render\<close> gives, the terminal shows
  them after what it showed before, the VGA cursor follows, memory outside the 20 bytes of the
  buffer is not written, and the display lock and the interrupt flag are as before.\<close>

theorem kprintf_renders:
  assumes "cstr m format f" "render S f vargs = Some out" "strings_at m buf S"
    and "addrs format (Suc (length f)) \<inter> addrs buf 20 = {}"
    and "con_ok s" "hw_busy s Lock_vga = 0" "hw_outer s c = Lock_null" "hw_if s c"
  shows "\<exists>m' s'. kprintf c buf m format vargs s = Some (word_of_nat (length out), m', s') \<and>
    terminal_of s' = fold t_put out (terminal_of s) \<and> con_ok s' \<and> only_in (addrs buf 20) m m' \<and>
    get_vga_cursor s' = (con_display_row s', con_display_col s') \<and>
    hw_busy s' = hw_busy s \<and> hw_outer s' = hw_outer s \<and> hw_if s' = hw_if s"
proof -
  let ?s1 = "snd (acquire_spinlock c Lock_vga 0 s)"
  have s1: "?s1 = hw_put ((hw_busy s)(Lock_vga := 1)) ((hw_outer s)(c := Lock_vga)) ((hw_if s)(c := False)) s"
    using assms(6-8) by (simp add: acquire_spinlock_free)
  obtain m' where m': "kprintf_loop buf m format vargs 0 ?s1 = Some (word_of_nat (length out), m', put_all out ?s1)"
    "only_in (addrs buf 20) m m'"
    using kprintf_loop_renders [OF assms(2,1,3,4), of 0 ?s1] by auto
  let ?s2 = "put_all out ?s1"
  let ?s3 = "set_vga_cursor (con_display_row ?s2) (con_display_col ?s2) ?s2"
  have p: "con_ok ?s2" "same_rest ?s1 ?s2" "terminal_of ?s2 = fold t_put out (terminal_of ?s1)"
    using put_all_refines [of ?s1 out] assms(5) s1 by auto
  have k: "kprintf c buf m format vargs s = Some (word_of_nat (length out), m', release_spinlock c Lock_vga ?s3)"
    by (simp add: kprintf_def m'(1))
  have hw: "hw_busy ?s2 = (hw_busy s)(Lock_vga := 1)" "hw_outer ?s2 = (hw_outer s)(c := Lock_vga)" "hw_if ?s2 = (hw_if s)(c := False)"
    using p(2) by (simp_all add: same_rest_def s1)
  have rel: "release_spinlock c Lock_vga ?s3 = hw_put (hw_busy s) (hw_outer s) (hw_if s) ?s3"
    unfolding release_spinlock_eq by (rule hw_put_cong) (use assms(6-8) in \<open>auto simp: hw fun_eq_iff\<close>)
  have cur: "get_vga_cursor (hw_put b r i x) = get_vga_cursor x" for b r i and x :: "'a console_scheme"
    by (simp add: get_vga_cursor_def hw_put_def)
  show ?thesis using k m'(2) p(1,3) unfolding rel by (simp add: s1 cur)
qed

definition xcon :: console where
  "xcon = \<lparr>hw_busy = \<lambda>_. 0, hw_outer = \<lambda>_. Lock_null, hw_if = \<lambda>_. True, hw_spun = 0,
     con_video = \<lambda>_. \<lparr>vc_chr = 0, vc_fcolor = 7, vc_bcolor = 0\<rparr>, con_ports = [], con_cursor_row = 0,
     con_cursor_col = 0, con_display_row = 0, con_display_col = 0\<rparr>"

text \<open>The format \<open>x%d\<close>.\<close>

definition xfmt :: mem where
  "xfmt a = (if a = 0x100 then 120 else if a = 0x101 then 37 else if a = 0x102 then 100 else 0)"

theorem kprintf_renders_witness:
  "\<exists>m' s'. kprintf 0 0x9000 xfmt 0x100 [- 42] xcon = Some (4, m', s') \<and>
    terminal_of s' = fold t_put [120, 45, 52, 50] (terminal_of xcon)"
proof -
  have "digits_rev 10 42 = [2, 4]" by (simp add: digits_rev.simps)
  then have r: "render (\<lambda>_. None) [120, 37, 100] [- 42] = Some [120, 45, 52, 50]"
    by (simp add: takes_arg_def show_arg_def numeral_of_def digit_char_def)
  have "cstr xfmt 0x100 [120, 37, 100]" by (simp add: xfmt_def)
  moreover have "strings_at xfmt 0x9000 (\<lambda>_. None)" by (simp add: strings_at_def)
  moreover have "addrs 0x100 (Suc (length [120 :: u8, 37, 100])) \<inter> addrs 0x9000 20 = {}" by (rule addrs_disjoint) simp_all
  moreover have "con_ok xcon" "hw_busy xcon Lock_vga = 0" "hw_outer xcon 0 = Lock_null" "hw_if xcon 0"
    by (simp_all add: con_ok_def xcon_def)
  ultimately show ?thesis using kprintf_renders [OF _ r] by fastforce
qed

text \<open>C34: The display driver implements a terminal of 25 rows of 80 characters: a character
  goes to the cursor's place, the cursor wraps at the end of a row, and past the last row the
  display scrolls up by one; the cursor stays on the display and no cell outside video memory's
  2000 is written.\<close>

theorem put_char_implements_terminal:
  assumes "con_ok s"
  shows "con_ok (put_char chr s) \<and> terminal_of (put_char chr s) = t_put chr (terminal_of s) \<and>
    (\<forall>i. \<not> (0 \<le> i \<and> i < 25 * 80) \<longrightarrow> con_video (put_char chr s) i = con_video s i)"
  using put_char_refines [OF assms, of chr] by (simp add: same_rest_def)

theorem put_char_implements_terminal_witness:
  "terminal_of (put_char 65 (xcon\<lparr>con_display_row := 24, con_display_col := 79\<rparr>)) =
    t_put 65 (terminal_of (xcon\<lparr>con_display_row := 24, con_display_col := 79\<rparr>))"
  using put_char_implements_terminal [of "xcon\<lparr>con_display_row := 24, con_display_col := 79\<rparr>" 65]
  by (simp add: con_ok_def)

end
