(* ===== verification/Acpi.thy ===== *)
theory Acpi
  imports Cstring Page_Map
begin

text \<open>
  The ACPI tables (\<open>x86_64/acpi.c\<close>, \<open>x86_64/acpi.h\<close>): finding the root pointer, mapping the
  tables it leads to, finding a table by its signature and walking through a table's entries.
\<close>

section \<open>Structures in memory\<close>

text \<open>Little-endian reads; the structures of \<open>acpi.h\<close> are packed.\<close>

definition rd16 :: "mem \<Rightarrow> ptr \<Rightarrow> u16" where
  "rd16 m a = ucast (m a) OR push_bit 8 (ucast (m (a + 1)))"

definition rd32 :: "mem \<Rightarrow> ptr \<Rightarrow> u32" where
  "rd32 m a = ucast (rd16 m a) OR push_bit 16 (ucast (rd16 m (a + 2)))"

definition rd64 :: "mem \<Rightarrow> ptr \<Rightarrow> u64" where
  "rd64 m a = ucast (rd32 m a) OR push_bit 32 (ucast (rd32 m (a + 4)))"

record acpi_rsdp =
  rp_signature :: "u8 list"
  rp_checksum :: u8
  rp_oem_id :: "u8 list"
  rp_revision :: u8
  rp_rsdt_addr :: u32
  rp_length :: u32
  rp_xsdt_addr :: u64
  rp_checksum_ex :: u8
  rp_reserved :: "u8 list"

definition get_rsdp :: "mem \<Rightarrow> ptr \<Rightarrow> acpi_rsdp" where
  "get_rsdp m a = \<lparr>rp_signature = bytes m a 8, rp_checksum = m (a + 8), rp_oem_id = bytes m (a + 9) 6,
     rp_revision = m (a + 15), rp_rsdt_addr = rd32 m (a + 16), rp_length = rd32 m (a + 20),
     rp_xsdt_addr = rd64 m (a + 24), rp_checksum_ex = m (a + 32), rp_reserved = bytes m (a + 33) 3\<rparr>"

record acpi_header =
  ah_signature :: "u8 list"
  ah_length :: u32
  ah_revision :: u8
  ah_checksum :: u8
  ah_oem_id :: "u8 list"
  ah_oem_table_id :: u64
  ah_oem_revision :: u32
  ah_creator_id :: u32
  ah_creator_revision :: u32

definition get_header :: "mem \<Rightarrow> ptr \<Rightarrow> acpi_header" where
  "get_header m a = \<lparr>ah_signature = bytes m a 4, ah_length = rd32 m (a + 4), ah_revision = m (a + 8),
     ah_checksum = m (a + 9), ah_oem_id = bytes m (a + 10) 6, ah_oem_table_id = rd64 m (a + 16),
     ah_oem_revision = rd32 m (a + 24), ah_creator_id = rd32 m (a + 28), ah_creator_revision = rd32 m (a + 32)\<rparr>"

abbreviation SIZEOF_HEADER :: u64 where "SIZEOF_HEADER \<equiv> 36"
abbreviation SIZEOF_MADT :: u64 where "SIZEOF_MADT \<equiv> 44"
abbreviation SIZEOF_SRAT :: u64 where "SIZEOF_SRAT \<equiv> 48"

definition rsdt_table :: "mem \<Rightarrow> ptr \<Rightarrow> nat \<Rightarrow> ptr" where
  "rsdt_table m rsdt i = ucast (rd32 m (rsdt + SIZEOF_HEADER + 4 * word_of_nat i))"

definition xsdt_table :: "mem \<Rightarrow> ptr \<Rightarrow> nat \<Rightarrow> ptr" where
  "xsdt_table m xsdt i = rd64 m (xsdt + SIZEOF_HEADER + 8 * word_of_nat i)"

record acpi_entry_header =
  ae_type :: u8
  ae_length :: u8

definition get_entry :: "mem \<Rightarrow> ptr \<Rightarrow> acpi_entry_header" where
  "get_entry m a = \<lparr>ae_type = m a, ae_length = m (a + 1)\<rparr>"

record acpi_madt_lapic = acpi_entry_header +
  ml_acpi_cpuid :: u8
  ml_apic_id :: u8
  ml_enabled :: bool

definition get_madt_lapic :: "mem \<Rightarrow> ptr \<Rightarrow> acpi_madt_lapic" where
  "get_madt_lapic m a = \<lparr>ae_type = m a, ae_length = m (a + 1), ml_acpi_cpuid = m (a + 2), ml_apic_id = m (a + 3),
     ml_enabled = bit (rd32 m (a + 4)) 0\<rparr>"

record acpi_srat_lapic = acpi_entry_header +
  sl_prox_domain0 :: u8
  sl_apic_id :: u8
  sl_enabled :: bool
  sl_lsapic_eid :: u8
  sl_prox_domain1 :: u16
  sl_prox_domain2 :: u8
  sl_clock_domain :: u32

definition get_srat_lapic :: "mem \<Rightarrow> ptr \<Rightarrow> acpi_srat_lapic" where
  "get_srat_lapic m a = \<lparr>ae_type = m a, ae_length = m (a + 1), sl_prox_domain0 = m (a + 2), sl_apic_id = m (a + 3),
     sl_enabled = bit (rd32 m (a + 4)) 0, sl_lsapic_eid = m (a + 8), sl_prox_domain1 = rd16 m (a + 9),
     sl_prox_domain2 = m (a + 11), sl_clock_domain = rd32 m (a + 12)\<rparr>"

section \<open>The root tables\<close>

record acpi =
  ac_rsdp :: ptr
  ac_madt :: ptr
  ac_srat :: ptr

abbreviation EBDA_ADDR :: ptr where "EBDA_ADDR \<equiv> 0x9FC00"
abbreviation AFTER_EBDA_ADDR :: ptr where "AFTER_EBDA_ADDR \<equiv> 0xA0000"
abbreviation BIOS_ROM_ADDR :: ptr where "BIOS_ROM_ADDR \<equiv> 0xE0000"
abbreviation AFTER_BIOS_ROM_ADDR :: ptr where "AFTER_BIOS_ROM_ADDR \<equiv> 0x100000"

definition get_acpi_rsdt :: "mem \<Rightarrow> ptr \<Rightarrow> ptr" where
  "get_acpi_rsdt m rsdp = (if rsdp \<noteq> NULL then ucast (rp_rsdt_addr (get_rsdp m rsdp)) else NULL)"

definition get_acpi_xsdt :: "mem \<Rightarrow> ptr \<Rightarrow> ptr" where
  "get_acpi_xsdt m rsdp = (if rsdp \<noteq> NULL then rp_xsdt_addr (get_rsdp m rsdp) else NULL)"

text \<open>The number of tables, an \<open>int\<close> computed in 64 bits; a negative one ends the loops at once.\<close>

definition table_count :: "nat \<Rightarrow> mem \<Rightarrow> ptr \<Rightarrow> nat" where
  "table_count shift m t =
     (let num = ucast (drop_bit shift (ucast (ah_length (get_header m t)) - SIZEOF_HEADER) :: u64) :: i32 in
      nat (sint num))"

definition map_if_unmapped :: "u64 \<Rightarrow> ptr \<Rightarrow> descs \<Rightarrow> descs" where
  "map_if_unmapped page_map a d =
     (if get_page_mapping page_map d a = None then map_page page_map a a 0 0 d else d)"

text \<open>\<open>sig\<close> is the address of the signature. Without a root pointer, \<open>rsdp->rsdt_addr\<close> dereferences null.\<close>

definition init_root_tables :: "u64 \<Rightarrow> ptr \<Rightarrow> mem \<Rightarrow> descs \<Rightarrow> (ptr \<times> descs) outcome" where
  "init_root_tables page_map sig m d =
     (let rsdp0 = memmem m EBDA_ADDR (AFTER_EBDA_ADDR - EBDA_ADDR) sig 8;
          rsdp = (if rsdp0 = NULL then memmem m BIOS_ROM_ADDR (AFTER_BIOS_ROM_ADDR - BIOS_ROM_ADDR) sig 8 else rsdp0);
          root = get_rsdp m rsdp in
      if rsdp = NULL then Undef
      else
        let d1 = map_if_unmapped page_map (rp_xsdt_addr root) (map_if_unmapped page_map (ucast (rp_rsdt_addr root)) d);
            rsdt = get_acpi_rsdt m rsdp;
            xsdt = get_acpi_xsdt m rsdp;
            d2 = (if rp_rsdt_addr root \<noteq> 0 then
                    fold (\<lambda>i. map_if_unmapped page_map (rsdt_table m rsdt i)) [0..<table_count 2 m rsdt] d1
                  else d1);
            d3 = (if rp_xsdt_addr root \<noteq> 0 then
                    fold (\<lambda>i. map_if_unmapped page_map (xsdt_table m xsdt i)) [0..<table_count 4 m xsdt] d2
                  else d2) in
        Ret (rsdp, d3))"

definition find_psdt_table :: "ptr \<Rightarrow> mem \<Rightarrow> ptr \<Rightarrow> ptr" where
  "find_psdt_table signature m rsdp =
     (let rsdt = get_acpi_rsdt m rsdp in
      if rsdt = NULL then NULL
      else case find (\<lambda>i. memcmp m (rsdt_table m rsdt i) signature 4 = 0) [0..<table_count 2 m rsdt] of
        None \<Rightarrow> NULL
      | Some i \<Rightarrow> rsdt_table m rsdt i)"

text \<open>The three signatures are string constants somewhere in memory.\<close>

definition init_acpi :: "u64 \<Rightarrow> ptr \<Rightarrow> ptr \<Rightarrow> ptr \<Rightarrow> mem \<Rightarrow> descs \<Rightarrow> (acpi \<times> descs) outcome" where
  "init_acpi page_map rsd_ptr_sig apic_sig srat_sig m d =
     obind (init_root_tables page_map rsd_ptr_sig m d) (\<lambda>(rsdp, d1).
       let madt = find_psdt_table apic_sig m rsdp; srat = find_psdt_table srat_sig m rsdp in
       Ret (\<lparr>ac_rsdp = rsdp, ac_madt = madt, ac_srat = srat\<rparr>, d1))"

section \<open>Entries\<close>

text \<open>The search of \<open>get_next_acpi_entry\<close>; an entry of length zero keeps it where it is, for ever.\<close>

partial_function (option) skip_entries :: "mem \<Rightarrow> ptr \<Rightarrow> u32 \<Rightarrow> i32 \<Rightarrow> ptr \<Rightarrow> (err_code \<times> ptr) option" where
  "skip_entries m table len type entry =
     (if entry - table < ucast len then
        if type = - 1 \<or> ucast (ae_type (get_entry m entry)) = type then Some (ERR_NONE, entry)
        else skip_entries m table len type (entry + ucast (ae_length (get_entry m entry)))
      else Some (ERR_NO_MORE, entry))"

text \<open>The argument \<open>entry_pptr\<close> is \<open>None\<close> when null, else what it points to.\<close>

definition get_next_acpi_entry ::
  "acpi \<Rightarrow> mem \<Rightarrow> ptr \<Rightarrow> ptr option \<Rightarrow> i32 \<Rightarrow> (err_code \<times> ptr option) outcome" where
  "get_next_acpi_entry A m table entry_pptr type =
     (case entry_pptr of
        None \<Rightarrow> Ret (ERR_BAD_INPUT, None)
      | Some entry \<Rightarrow>
          if table = NULL then Ret (ERR_BAD_INPUT, Some entry)
          else if table \<noteq> ac_madt A \<and> table \<noteq> ac_srat A then Ret (ERR_BAD_INPUT, Some entry)
          else
            let tsize = (if table = ac_madt A then SIZEOF_MADT else SIZEOF_SRAT);
                entry1 = (if entry \<noteq> NULL then entry + ucast (ae_length (get_entry m entry)) else table + tsize) in
            case skip_entries m table (ah_length (get_header m table)) type entry1 of
              None \<Rightarrow> Hang
            | Some (err, entry2) \<Rightarrow> Ret (err, Some entry2))"

section \<open>The entries of a table\<close>

text \<open>The entries in \<open>n\<close> bytes from \<open>a\<close> on; the last one may reach past the end.\<close>

abbreviation following :: "mem \<Rightarrow> ptr \<Rightarrow> ptr" where
  "following m a \<equiv> a + ucast (ae_length (get_entry m a))"

function entries :: "mem \<Rightarrow> ptr \<Rightarrow> nat \<Rightarrow> ptr list" where
  "entries m a n =
     (let l = unat (ae_length (get_entry m a)) in
      if n = 0 \<or> l = 0 then [] else a # entries m (following m a) (n - l))"
  by auto
termination by (relation "measure (\<lambda>(m, a, n). n)") auto

function entries_ok :: "mem \<Rightarrow> ptr \<Rightarrow> nat \<Rightarrow> bool" where
  "entries_ok m a n \<longleftrightarrow>
     (let l = unat (ae_length (get_entry m a)) in
      if n = 0 then True else if l = 0 then False else entries_ok m (following m a) (n - l))"
  by auto
termination by (relation "measure (\<lambda>(m, a, n). n)") auto

declare entries.simps [simp del] entries_ok.simps [simp del]

definition of_entry_type :: "mem \<Rightarrow> i32 \<Rightarrow> ptr \<Rightarrow> bool" where
  "of_entry_type m type e \<longleftrightarrow> type = - 1 \<or> ucast (ae_type (get_entry m e)) = type"

lemma unat_following:
  assumes "unat (a - table) = off" "off < 2 ^ 33"
  shows "unat (following m a - table) = off + unat (ae_length (get_entry m a))" "unat (ae_length (get_entry m a)) < 256"
proof -
  show l: "unat (ae_length (get_entry m a)) < 256"
    using unsigned_less [of "ae_length (get_entry m a)", where ?'a = nat] by simp
  have "following m a - table = (a - table) + word_of_nat (unat (ae_length (get_entry m a)))" by simp
  then show "unat (following m a - table) = off + unat (ae_length (get_entry m a))"
    using unat_addr [of "a - table" "unat (ae_length (get_entry m a))"] assms l by (simp add: diff_add_eq)
qed

lemma skip_entries_find:
  assumes "entries_ok m e n" "unat (e - table) = off" "n = unat len - off" "off < 2 ^ 33"
  shows "\<exists>last. skip_entries m table len type e = Some
    (case find (of_entry_type m type) (entries m e n) of None \<Rightarrow> (ERR_NO_MORE, last) | Some x \<Rightarrow> (ERR_NONE, x))"
  using assms
proof (induction n arbitrary: e off rule: less_induct)
  case (less n)
  let ?l = "unat (ae_length (get_entry m e))"
  have len: "unat len < 2 ^ 32" by (rule unat_lt32)
  have lt: "e - table < ucast len \<longleftrightarrow> n \<noteq> 0"
    using less.prems(2,3) by (auto simp: word_less_nat_alt unat_ucast32)
  show ?case
  proof (cases "n = 0")
    case True
    then have "entries m e n = []" by (simp add: entries.simps [of m e 0])
    then show ?thesis using lt True by (subst skip_entries.simps) simp
  next
    case False
    have l: "0 < ?l" "entries_ok m (following m e) (n - ?l)"
      using less.prems(1) False by (auto simp: entries_ok.simps [of m e n] Let_def split: if_splits)
    have es: "entries m e n = e # entries m (following m e) (n - ?l)"
      using False l(1) by (simp add: entries.simps [of m e n] Let_def)
    show ?thesis
    proof (cases "of_entry_type m type e")
      case True
      then show ?thesis using lt False es by (subst skip_entries.simps) (auto simp: of_entry_type_def)
    next
      case no: False
      note nxt = unat_following [OF less.prems(2,4), of m]
      have off: "off < 2 ^ 32" using False less.prems(3) len by simp
      have "n - ?l = unat len - (off + ?l)" "off + ?l < 2 ^ 33" "n - ?l < n"
        using less.prems(3) off nxt(2) l(1) False by simp_all
      with nxt(1) obtain last where "skip_entries m table len type (following m e) = Some
          (case find (of_entry_type m type) (entries m (following m e) (n - ?l)) of
             None \<Rightarrow> (ERR_NO_MORE, last) | Some x \<Rightarrow> (ERR_NONE, x))"
        using less.IH [OF _ l(2)] by blast
      moreover have "skip_entries m table len type e = skip_entries m table len type (following m e)"
        using lt False no by (subst skip_entries.simps) (simp add: of_entry_type_def)
      ultimately show ?thesis using no es by auto
    qed
  qed
qed

lemma entries_after:
  assumes "entries_ok m a n" "entries m a n = xs @ e # ys" "unat (a - table) = off" "n = unat (len :: u32) - off" "off < 2 ^ 33"
  defines "e' \<equiv> e + ucast (ae_length (get_entry m e))"
  obtains off' where "entries_ok m e' (unat len - off')" "entries m e' (unat len - off') = ys"
    "unat (e' - table) = off'" "off' < 2 ^ 33"
  using assms(1-5)
proof (induction n arbitrary: a xs off thesis rule: less_induct)
  case (less n)
  let ?l = "unat (ae_length (get_entry m a))"
  have len: "unat len < 2 ^ 32" by (rule unat_lt32)
  have n: "n \<noteq> 0" using less.prems(3) by (cases n) (auto simp: entries.simps [of m a 0])
  then have l: "0 < ?l" "entries_ok m (following m a) (n - ?l)"
    using less.prems(2) by (auto simp: entries_ok.simps [of m a n] Let_def split: if_splits)
  have es: "a # entries m (following m a) (n - ?l) = xs @ e # ys"
    using n l(1) less.prems(3) by (simp add: entries.simps [of m a n] Let_def)
  note o = unat_following [OF less.prems(4,6), of m]
  have off: "off < 2 ^ 32" using n less.prems(5) len by simp
  have m: "n - ?l = unat len - (off + ?l)" "off + ?l < 2 ^ 33" "n - ?l < n"
    using less.prems(5) off o(2) l(1) n by simp_all
  show ?case
  proof (cases xs)
    case Nil
    then have "a = e" "entries m (following m a) (n - ?l) = ys" using es Nil by auto
    then show ?thesis using l(2) o(1) m by (intro less.prems(1) [of "off + ?l"]) (auto simp: e'_def)
  next
    case (Cons x xs')
    then have "entries m (following m a) (n - ?l) = xs' @ e # ys" using es Cons by auto
    from less.IH [OF m(3) _ l(2) this o(1) m(1,2)] less.prems(1) show ?thesis by blast
  qed
qed

text \<open>A table that the search can walk: its address and the entries' are not null, no length is zero.\<close>

definition table_size :: "acpi \<Rightarrow> ptr \<Rightarrow> u64" where
  "table_size A table = (if table = ac_madt A then SIZEOF_MADT else SIZEOF_SRAT)"

definition acpi_table :: "acpi \<Rightarrow> mem \<Rightarrow> ptr \<Rightarrow> ptr list \<Rightarrow> bool" where
  "acpi_table A m table es \<longleftrightarrow> table \<noteq> NULL \<and> (table = ac_madt A \<or> table = ac_srat A) \<and> NULL \<notin> set es \<and>
     (let n = unat (ah_length (get_header m table)) - unat (table_size A table) in
      entries_ok m (table + table_size A table) n \<and> es = entries m (table + table_size A table) n)"

definition found_next :: "mem \<Rightarrow> i32 \<Rightarrow> ptr list \<Rightarrow> (err_code \<times> ptr option) outcome \<Rightarrow> bool" where
  "found_next m type es r \<longleftrightarrow>
     (case find (of_entry_type m type) es of
        Some e \<Rightarrow> r = Ret (ERR_NONE, Some e)
      | None \<Rightarrow> \<exists>last. r = Ret (ERR_NO_MORE, Some last))"

lemma found_nextI:
  assumes "acpi_table A m table es" "entry \<noteq> NULL \<Longrightarrow> e = following m entry" "entry = NULL \<Longrightarrow> e = table + table_size A table"
    and "entries_ok m e (unat (ah_length (get_header m table)) - off)" "unat (e - table) = off" "off < 2 ^ 33"
    and "entries m e (unat (ah_length (get_header m table)) - off) = zs"
  shows "found_next m type zs (get_next_acpi_entry A m table (Some entry) type)"
proof -
  obtain last where "skip_entries m table (ah_length (get_header m table)) type e =
      Some (case find (of_entry_type m type) zs of None \<Rightarrow> (ERR_NO_MORE, last) | Some x \<Rightarrow> (ERR_NONE, x))"
    using skip_entries_find [OF assms(4,5) refl assms(6), of type] assms(7) by auto
  moreover have "get_next_acpi_entry A m table (Some entry) type =
      (case skip_entries m table (ah_length (get_header m table)) type e of
         None \<Rightarrow> Hang | Some (err, entry2) \<Rightarrow> Ret (err, Some entry2))"
    using assms(1-3) by (auto simp: get_next_acpi_entry_def acpi_table_def table_size_def)
  ultimately show ?thesis by (auto simp: found_next_def split: option.splits)
qed

lemma get_next_first:
  assumes "acpi_table A m table es"
  shows "found_next m type es (get_next_acpi_entry A m table (Some NULL) type)"
proof -
  have "unat (table + table_size A table - table) = unat (table_size A table)" by simp
  moreover have "unat (table_size A table) < 2 ^ 33" by (simp add: table_size_def)
  ultimately show ?thesis
    using assms by (intro found_nextI [OF assms, where e = "table + table_size A table"]) (simp_all add: acpi_table_def Let_def)
qed

lemma get_next_after:
  assumes "acpi_table A m table es" "es = xs @ e # ys"
  shows "found_next m type ys (get_next_acpi_entry A m table (Some e) type)"
proof -
  let ?len = "ah_length (get_header m table)"
  have t: "entries_ok m (table + table_size A table) (unat ?len - unat (table_size A table))"
    "entries m (table + table_size A table) (unat ?len - unat (table_size A table)) = xs @ e # ys"
    using assms by (auto simp: acpi_table_def Let_def)
  have "unat (table + table_size A table - table) = unat (table_size A table)" "unat (table_size A table) < 2 ^ 33"
    by (simp_all add: table_size_def)
  from entries_after [OF t this(1) refl this(2)] obtain off where
    "entries_ok m (following m e) (unat ?len - off)" "entries m (following m e) (unat ?len - off) = ys"
    "unat (following m e - table) = off" "off < 2 ^ 33" .
  moreover have "e \<noteq> NULL" using assms by (auto simp: acpi_table_def)
  ultimately show ?thesis by (intro found_nextI [OF assms(1), where e = "following m e"]) auto
qed

section \<open>Finding the tables\<close>

lemma get_page_mapping_None: "get_page_mapping page_map d a = None \<longleftrightarrow> \<not> pd_present (d (get_page_desc page_map a))"
  by (simp add: get_page_mapping_def Let_def)

definition mapped :: "u64 \<Rightarrow> descs \<Rightarrow> ptr \<Rightarrow> bool" where
  "mapped page_map d a \<longleftrightarrow> get_page_mapping page_map d a \<noteq> None"

lemma map_if_unmapped_maps:
  "mapped page_map (map_if_unmapped page_map a d) a"
  "mapped page_map d b \<Longrightarrow> mapped page_map (map_if_unmapped page_map a d) b"
  unfolding mapped_def by (auto simp: map_if_unmapped_def get_page_mapping_None map_page_def map_desc_fields)

lemma map_tables:
  "mapped page_map d b \<or> b \<in> f ` set is \<Longrightarrow> mapped page_map (fold (\<lambda>i. map_if_unmapped page_map (f i)) is d) b"
  by (induction "is" arbitrary: d) (auto simp: map_if_unmapped_maps)

lemma table_count:
  assumes "unat (ah_length (get_header m t)) = 36 + 2 ^ shift * k + r" "r < 2 ^ shift" "k < 2 ^ 31"
  shows "table_count shift m t = k"
proof -
  let ?n = "ucast (ah_length (get_header m t)) - SIZEOF_HEADER :: u64"
  have n: "unat ?n = 2 ^ shift * k + r" using assms(1) by (simp add: unat_sub_if' unat_ucast32)
  have "unat (drop_bit shift ?n) = k" unfolding unat_drop n using assms(2) by simp
  then have "ucast (drop_bit shift ?n) = (word_of_nat k :: i32)" by (metis of_nat_unat)
  then show ?thesis using assms(3) by (simp add: table_count_def Let_def sint_of_nat)
qed

text \<open>The tables of \<open>n\<close> bytes' worth of addresses that follow the header of an RSDT.\<close>

lemma rsdt_count: "unat (ah_length (get_header m t)) = 36 + 4 * k \<Longrightarrow> k < 2 ^ 30 \<Longrightarrow> table_count 2 m t = k"
  by (rule table_count [where r = 0]) auto

text \<open>An XSDT has addresses of 8 bytes, but its length is divided by 16: half of them are left out.\<close>

lemma xsdt_count_half: "unat (ah_length (get_header m t)) = 36 + 8 * k \<Longrightarrow> k < 2 ^ 29 \<Longrightarrow> table_count 4 m t = k div 2"
proof (rule table_count [where r = "8 * (k mod 2)"])
  assume "unat (ah_length (get_header m t)) = 36 + 8 * k"
  moreover have "8 * k = 16 * (k div 2) + 8 * (k mod 2)" by presburger
  ultimately show "unat (ah_length (get_header m t)) = 36 + 2 ^ 4 * (k div 2) + 8 * (k mod 2)" by simp
qed auto

definition found_table :: "ptr \<Rightarrow> mem \<Rightarrow> ptr \<Rightarrow> ptr \<Rightarrow> bool" where
  "found_table signature m rsdt t \<longleftrightarrow>
     (let fits = \<lambda>i. bytes m (rsdt_table m rsdt i) 4 = bytes m signature 4; n = (if rsdt = NULL then 0 else table_count 2 m rsdt) in
      (\<exists>i<n. fits i \<and> (\<forall>j<i. \<not> fits j) \<and> t = rsdt_table m rsdt i) \<or> (\<forall>i<n. \<not> fits i) \<and> t = NULL)"

lemma find_psdt_table_found: "found_table signature m (get_acpi_rsdt m rsdp) (find_psdt_table signature m rsdp)"
proof (cases "get_acpi_rsdt m rsdp = NULL")
  case True
  then show ?thesis by (simp add: found_table_def find_psdt_table_def)
next
  case False
  let ?rsdt = "get_acpi_rsdt m rsdp"
  let ?fits = "\<lambda>i. bytes m (rsdt_table m ?rsdt i) 4 = bytes m signature 4"
  have eq: "memcmp m (rsdt_table m ?rsdt i) signature 4 = 0 \<longleftrightarrow> ?fits i" for i by (simp add: memcmp_eq)
  show ?thesis
  proof (cases "find ?fits [0..<table_count 2 m ?rsdt]")
    case None
    then have "find_psdt_table signature m rsdp = NULL" using False by (simp add: find_psdt_table_def eq)
    then show ?thesis using None False by (auto simp: found_table_def find_None_iff)
  next
    case (Some i)
    then have "find_psdt_table signature m rsdp = rsdt_table m ?rsdt i" using False by (simp add: find_psdt_table_def eq)
    then show ?thesis using Some False unfolding found_table_def Let_def find_upt_Some by auto
  qed
qed

definition rsdp_at :: "ptr \<Rightarrow> mem \<Rightarrow> ptr \<Rightarrow> bool" where
  "rsdp_at sig m a \<longleftrightarrow> bytes m a 8 = bytes m sig 8 \<and>
     (EBDA_ADDR \<le> a \<and> a \<le> AFTER_EBDA_ADDR - 8 \<or> BIOS_ROM_ADDR \<le> a \<and> a \<le> AFTER_BIOS_ROM_ADDR - 8)"

lemma memmem_region:
  assumes "0 < unat a" "unat a + unat n < 2 ^ 64" "8 \<le> unat n"
  shows "if memmem m a n sig 8 = NULL then \<forall>x. bytes m x 8 = bytes m sig 8 \<longrightarrow> \<not> (a \<le> x \<and> x \<le> a + n - 8)
    else bytes m (memmem m a n sig 8) 8 = bytes m sig 8 \<and> a \<le> memmem m a n sig 8 \<and> memmem m a n sig 8 \<le> a + n - 8"
proof -
  have u: "unat (a + word_of_nat i) = unat a + i" if "i \<le> unat n" for i using unat_addr [of a i] assms(2) that by simp
  have end8: "unat (a + n - 8) = unat a + unat n - 8"
    using assms by (simp add: unat_sub_if' unat_word_ariths)
  have occ: "occurs_at m a (unat n) sig (unat (8 :: u64)) i \<longleftrightarrow> i + 8 \<le> unat n \<and> bytes m (a + word_of_nat i) 8 = bytes m sig 8" for i
    by (simp add: occurs_at_def)
  from memmem_first [of m a n sig 8] consider
    i where "i + 8 \<le> unat n" "bytes m (a + word_of_nat i) 8 = bytes m sig 8" "memmem m a n sig 8 = a + word_of_nat i" |
    "\<forall>i. \<not> (i + 8 \<le> unat n \<and> bytes m (a + word_of_nat i) 8 = bytes m sig 8)" "memmem m a n sig 8 = NULL"
    unfolding occ by blast
  then show ?thesis
  proof cases
    case (1 i)
    have "unat (a + word_of_nat i) \<noteq> 0" using u [of i] 1(1) assms(1) by simp
    then have "a + word_of_nat i \<noteq> NULL" by (metis unat_0)
    moreover have "a \<le> a + word_of_nat i" "a + word_of_nat i \<le> a + n - 8"
      using u [of i] end8 1(1) by (simp_all only: word_le_nat_alt)
    ultimately show ?thesis using 1 by simp
  next
    case 2
    have False if x: "bytes m x 8 = bytes m sig 8" "a \<le> x" "x \<le> a + n - 8" for x
    proof -
      have "x = a + word_of_nat (unat (x - a))" by simp
      moreover have "unat (x - a) + 8 \<le> unat n"
        using x(2,3) end8 assms(3) by (simp only: word_le_nat_alt unat_sub_if') simp
      ultimately show False using 2(1) x(1) by metis
    qed
    then show ?thesis using 2(2) by auto
  qed
qed

section \<open>Properties\<close>

text \<open>C25: When the root pointer is in one of the two regions searched, initialization returns it,
  the first table of each wanted signature or null, and leaves the root tables and every table
  the RSDT lists mapped, as many of the XSDT's as its count admits. Without a root pointer it
  dereferences null.\<close>

theorem init_acpi_finds_tables:
  "case init_acpi page_map sig apic_sig srat_sig m d of
     Ret (A, d') \<Rightarrow>
       let root = get_rsdp m (ac_rsdp A); rsdt = ucast (rp_rsdt_addr root); xsdt = rp_xsdt_addr root in
       rsdp_at sig m (ac_rsdp A) \<and> mapped page_map d' rsdt \<and> mapped page_map d' xsdt \<and>
       (rsdt \<noteq> NULL \<longrightarrow> (\<forall>i<table_count 2 m rsdt. mapped page_map d' (rsdt_table m rsdt i))) \<and>
       (xsdt \<noteq> NULL \<longrightarrow> (\<forall>i<table_count 4 m xsdt. mapped page_map d' (xsdt_table m xsdt i))) \<and>
       found_table apic_sig m rsdt (ac_madt A) \<and> found_table srat_sig m rsdt (ac_srat A)
   | Undef \<Rightarrow> \<forall>a. \<not> rsdp_at sig m a
   | _ \<Rightarrow> False"
proof -
  let ?e = "memmem m EBDA_ADDR (AFTER_EBDA_ADDR - EBDA_ADDR) sig 8"
  let ?b = "memmem m BIOS_ROM_ADDR (AFTER_BIOS_ROM_ADDR - BIOS_ROM_ADDR) sig 8"
  have e: "if ?e = NULL then \<forall>x. bytes m x 8 = bytes m sig 8 \<longrightarrow> \<not> (EBDA_ADDR \<le> x \<and> x \<le> EBDA_ADDR + (AFTER_EBDA_ADDR - EBDA_ADDR) - 8)
    else bytes m ?e 8 = bytes m sig 8 \<and> EBDA_ADDR \<le> ?e \<and> ?e \<le> EBDA_ADDR + (AFTER_EBDA_ADDR - EBDA_ADDR) - 8"
    by (rule memmem_region) simp_all
  have b: "if ?b = NULL then \<forall>x. bytes m x 8 = bytes m sig 8 \<longrightarrow> \<not> (BIOS_ROM_ADDR \<le> x \<and> x \<le> BIOS_ROM_ADDR + (AFTER_BIOS_ROM_ADDR - BIOS_ROM_ADDR) - 8)
    else bytes m ?b 8 = bytes m sig 8 \<and> BIOS_ROM_ADDR \<le> ?b \<and> ?b \<le> BIOS_ROM_ADDR + (AFTER_BIOS_ROM_ADDR - BIOS_ROM_ADDR) - 8"
    by (rule memmem_region) simp_all
  define rsdp where "rsdp = (if ?e = NULL then ?b else ?e)"
  have at: "if rsdp = NULL then \<forall>a. \<not> rsdp_at sig m a else rsdp_at sig m rsdp"
    using e b by (auto simp: rsdp_def rsdp_at_def split: if_splits)
  show ?thesis
  proof (cases "rsdp = NULL")
    case True
    then have "init_acpi page_map sig apic_sig srat_sig m d = Undef"
      unfolding init_acpi_def init_root_tables_def Let_def rsdp_def [symmetric] by simp
    then show ?thesis using at True by simp
  next
    case False
    let ?root = "get_rsdp m rsdp"
    let ?rsdt = "ucast (rp_rsdt_addr ?root) :: ptr" and ?xsdt = "rp_xsdt_addr ?root"
    have t: "get_acpi_rsdt m rsdp = ?rsdt" "get_acpi_xsdt m rsdp = ?xsdt"
      using False by (simp_all add: get_acpi_rsdt_def get_acpi_xsdt_def)
    define d1 where "d1 = map_if_unmapped page_map ?xsdt (map_if_unmapped page_map ?rsdt d)"
    define d2 where "d2 = (if rp_rsdt_addr ?root \<noteq> 0 then
        fold (\<lambda>i. map_if_unmapped page_map (rsdt_table m ?rsdt i)) [0..<table_count 2 m ?rsdt] d1 else d1)"
    define d3 where "d3 = (if ?xsdt \<noteq> 0 then
        fold (\<lambda>i. map_if_unmapped page_map (xsdt_table m ?xsdt i)) [0..<table_count 4 m ?xsdt] d2 else d2)"
    have run: "init_acpi page_map sig apic_sig srat_sig m d = Ret
        (\<lparr>ac_rsdp = rsdp, ac_madt = find_psdt_table apic_sig m rsdp, ac_srat = find_psdt_table srat_sig m rsdp\<rparr>, d3)"
      using False unfolding init_acpi_def init_root_tables_def Let_def rsdp_def [symmetric] t
        d1_def [symmetric] d2_def [symmetric] d3_def [symmetric] by simp
    have keep2: "mapped page_map d1 a \<Longrightarrow> mapped page_map d2 a" for a by (auto simp: d2_def map_tables)
    have keep3: "mapped page_map d2 a \<Longrightarrow> mapped page_map d3 a" for a by (auto simp: d3_def map_tables)
    have "mapped page_map d1 ?rsdt" "mapped page_map d1 ?xsdt" by (auto simp: d1_def map_if_unmapped_maps)
    then have roots: "mapped page_map d3 ?rsdt" "mapped page_map d3 ?xsdt" by (simp_all add: keep2 keep3)
    have "mapped page_map d2 (rsdt_table m ?rsdt i)" if "?rsdt \<noteq> NULL" "i < table_count 2 m ?rsdt" for i
      using that by (auto simp: d2_def intro!: map_tables)
    then have rs: "?rsdt \<noteq> NULL \<longrightarrow> (\<forall>i<table_count 2 m ?rsdt. mapped page_map d3 (rsdt_table m ?rsdt i))"
      by (simp add: keep3)
    have xs: "?xsdt \<noteq> NULL \<longrightarrow> (\<forall>i<table_count 4 m ?xsdt. mapped page_map d3 (xsdt_table m ?xsdt i))"
      by (auto simp: d3_def intro!: map_tables)
    show ?thesis
      using at False roots rs xs find_psdt_table_found [of apic_sig m rsdp] find_psdt_table_found [of srat_sig m rsdp]
      unfolding run t by (simp add: Let_def)
  qed
qed

text \<open>A root pointer in the BIOS ROM, an RSDT with a FADT and a MADT, the three signatures.\<close>

definition xroot :: mem where
  "xroot a = (if a = 0xE0000 then 0x52 else if a = 0xE0001 then 0x53 else if a = 0xE0002 then 0x44 else if a = 0xE0003 then 0x20
     else if a = 0xE0004 then 0x50 else if a = 0xE0005 then 0x54 else if a = 0xE0006 then 0x52 else if a = 0xE0007 then 0x20
     else if a = 0xE0011 then 0x50
     else if a = 0x5004 then 44 else if a = 0x5025 then 0x60 else if a = 0x5029 then 0x10
     else if a = 0x6000 then 0x46 else if a = 0x6001 then 0x41 else if a = 0x6002 then 0x43 else if a = 0x6003 then 0x50
     else if a = 0x1000 then 0x41 else if a = 0x1001 then 0x50 else if a = 0x1002 then 0x49 else if a = 0x1003 then 0x43
     else if a = 0x7000 then 0x41 else if a = 0x7001 then 0x50 else if a = 0x7002 then 0x49 else if a = 0x7003 then 0x43
     else if a = 0x7010 then 0x53 else if a = 0x7011 then 0x52 else if a = 0x7012 then 0x41 else if a = 0x7013 then 0x54
     else if a = 0x7020 then 0x52 else if a = 0x7021 then 0x53 else if a = 0x7022 then 0x44 else if a = 0x7023 then 0x20
     else if a = 0x7024 then 0x50 else if a = 0x7025 then 0x54 else if a = 0x7026 then 0x52 else if a = 0x7027 then 0x20
     else 0)"

lemma xroot_rsdp: "rsdp_at 0x7020 xroot a \<longleftrightarrow> a = 0xE0000"
proof
  assume r: "rsdp_at 0x7020 xroot a"
  then have "bytes xroot a 8 = bytes xroot 0x7020 8" by (simp add: rsdp_at_def)
  then have "xroot a = xroot 0x7020" "xroot (a + 1) = xroot (0x7020 + 1)"
    by (simp_all add: numeral_eq_Suc bytes_Suc)
  then have "xroot a = 0x52" "xroot (a + 1) = 0x53" by (simp_all add: xroot_def)
  moreover have "0x9FC00 \<le> a" using r by (auto simp: rsdp_at_def word_le_nat_alt)
  ultimately show "a = 0xE0000" by (auto simp: xroot_def split: if_splits)
next
  have "rsdp_at 0x7020 xroot 0xE0000" by code_simp
  then show "a = 0xE0000 \<Longrightarrow> rsdp_at 0x7020 xroot a" by simp
qed

theorem init_acpi_finds_tables_witness:
  "\<exists>A d'. init_acpi 0x200000 0x7020 0x7000 0x7010 xroot (\<lambda>_. zero_desc) = Ret (A, d') \<and>
    ac_rsdp A = 0xE0000 \<and> ac_madt A = 0x1000 \<and> ac_srat A = NULL \<and>
    mapped 0x200000 d' 0x5000 \<and> mapped 0x200000 d' 0x6000 \<and> mapped 0x200000 d' 0x1000"
proof -
  have root: "ucast (rp_rsdt_addr (get_rsdp xroot 0xE0000)) = (0x5000 :: ptr)" by code_simp
  have num: "table_count 2 xroot 0x5000 = 2" and tbl: "rsdt_table xroot 0x5000 0 = 0x6000" "rsdt_table xroot 0x5000 1 = 0x1000"
    by code_simp+
  have sig: "bytes xroot 0x6000 4 \<noteq> bytes xroot 0x7000 4" "bytes xroot 0x1000 4 = bytes xroot 0x7000 4"
    "bytes xroot 0x6000 4 \<noteq> bytes xroot 0x7010 4" "bytes xroot 0x7000 4 \<noteq> bytes xroot 0x7010 4"
    by code_simp+
  have two: "i < 2 \<longleftrightarrow> i = 0 \<or> i = Suc 0" for i :: nat by auto
  have madt: "found_table 0x7000 xroot 0x5000 t \<longleftrightarrow> t = 0x1000" for t
    unfolding found_table_def num Let_def by (auto simp: two tbl [unfolded One_nat_def] sig)
  have srat: "found_table 0x7010 xroot 0x5000 t \<longleftrightarrow> t = NULL" for t
    unfolding found_table_def num Let_def by (auto simp: two tbl [unfolded One_nat_def] sig)
  show ?thesis
    using init_acpi_finds_tables [where page_map = "0x200000" and sig = "0x7020" and apic_sig = "0x7000" and srat_sig = "0x7010"
        and m = xroot and d = "\<lambda>_. zero_desc"]
    by (cases "init_acpi 0x200000 0x7020 0x7000 0x7010 xroot (\<lambda>_. zero_desc)")
      (auto simp: xroot_rsdp Let_def root num two tbl [unfolded One_nat_def] madt srat)
qed

text \<open>C26: Walking a table whose entries all have a length: null leads to its first entry of the
  type asked for, an entry leads to the next one, any type for -1, and \<open>ERR_NO_MORE\<close> tells that
  there is none. The walk ends. Anything but the two known tables is refused.\<close>

theorem acpi_entries_enumerate:
  assumes "acpi_table A m table es"
  shows "found_next m type es (get_next_acpi_entry A m table (Some NULL) type) \<and>
    (es = xs @ e # ys \<longrightarrow> found_next m type ys (get_next_acpi_entry A m table (Some e) type)) \<and>
    (table' \<noteq> ac_madt A \<and> table' \<noteq> ac_srat A \<or> table' = NULL \<longrightarrow>
      get_next_acpi_entry A m table' (Some e) type = Ret (ERR_BAD_INPUT, Some e))"
  using get_next_first [OF assms] get_next_after [OF assms] by (auto simp: get_next_acpi_entry_def)

text \<open>A MADT of two processors and an I/O APIC at \<open>0x1000\<close>.\<close>

definition xmadt :: mem where
  "xmadt a = (if a = 0x1004 then 72
     else if a = 0x102D then 8 else if a = 0x102F then 0 else if a = 0x1030 then 1
     else if a = 0x1034 then 1 else if a = 0x1035 then 12
     else if a = 0x1041 then 8 else if a = 0x1043 then 4 else if a = 0x1044 then 1 else 0)"

definition xacpi :: acpi where
  "xacpi = \<lparr>ac_rsdp = 0xE0000, ac_madt = 0x1000, ac_srat = NULL\<rparr>"

lemma xmadt: "acpi_table xacpi xmadt 0x1000 [0x102C, 0x1034, 0x1040]"
  by code_simp

theorem acpi_entries_enumerate_witness:
  "get_next_acpi_entry xacpi xmadt 0x1000 (Some NULL) 0 = Ret (ERR_NONE, Some 0x102C) \<and>
   get_next_acpi_entry xacpi xmadt 0x1000 (Some 0x102C) 0 = Ret (ERR_NONE, Some 0x1040) \<and>
   get_next_acpi_entry xacpi xmadt 0x2000 (Some 0x102C) 0 = Ret (ERR_BAD_INPUT, Some 0x102C)"
proof -
  have t: "of_entry_type xmadt 0 0x102C" "\<not> of_entry_type xmadt 0 0x1034" "of_entry_type xmadt 0 0x1040"
    by code_simp+
  show ?thesis
    using acpi_entries_enumerate [OF xmadt, where type = 0 and xs = "[]" and e = "0x102C" and ys = "[0x1034, 0x1040]" and table' = "0x2000"] t
    by (simp add: found_next_def xacpi_def)
qed

end
