(* ===== verification/Cpu_Info.thy ===== *)
theory Cpu_Info
  imports Acpi
begin

text \<open>
  What is known of the CPUs (\<open>x86_64/cpu_info.c\<close>, \<open>x86_64/cpu_info.inc\<close>, \<open>cpu_info.h\<close>): the
  vendor, how an APIC identifier splits into chip, core and thread, and the table of CPUs
  read from the ACPI tables.
\<close>

section \<open>State\<close>

record cpu_desc =
  cd_id :: u8
  cd_thread :: u8
  cd_core :: u8
  cd_chip :: u8
  cd_domain :: u32

record cpu_info =
  ci_vendor :: i32
  ci_num :: nat
  ci_descs :: "nat \<Rightarrow> cpu_desc"
  ci_indexes :: "u8 \<Rightarrow> u8"
  ci_bsp :: nat

text \<open>The answer of the instruction \<open>cpuid\<close> to a function and a subfunction.\<close>

record cpuid_regs =
  cp_eax :: u32
  cp_ebx :: u32
  cp_ecx :: u32
  cp_edx :: u32

type_synonym cpuid = "u32 \<Rightarrow> u32 \<Rightarrow> cpuid_regs"

abbreviation CPU_VENDOR_UNKNOWN :: i32 where "CPU_VENDOR_UNKNOWN \<equiv> 0"
abbreviation CPU_VENDOR_INTEL :: i32 where "CPU_VENDOR_INTEL \<equiv> 1"
abbreviation CPU_VENDOR_AMD :: i32 where "CPU_VENDOR_AMD \<equiv> 2"

abbreviation MAX_CPUS :: nat where "MAX_CPUS \<equiv> 16"

definition get_cpu :: "cpuid \<Rightarrow> cpu_info \<Rightarrow> nat" where
  "get_cpu cpuid I = unat (ci_indexes I (ucast (INT_BITS (cp_ebx (cpuid 1 0)) 24 31)))"

definition get_bsp_cpu :: "cpu_info \<Rightarrow> nat" where
  "get_bsp_cpu I = ci_bsp I"

definition get_cpus :: "cpu_info \<Rightarrow> nat" where
  "get_cpus I = ci_num I"

definition get_cpu_desc :: "nat \<Rightarrow> cpu_info \<Rightarrow> cpu_desc" where
  "get_cpu_desc cpu I = ci_descs I cpu"

section \<open>Vendor\<close>

definition word_bytes :: "u32 \<Rightarrow> u8 list" where
  "word_bytes w = [ucast w, ucast (drop_bit 8 w), ucast (drop_bit 16 w), ucast (drop_bit 24 w)]"

text \<open>The characters of \<open>GenuineIntel\<close> and \<open>AuthenticAMD\<close>.\<close>

definition intel_name :: "u8 list" where
  "intel_name = [71, 101, 110, 117, 105, 110, 101, 73, 110, 116, 101, 108]"

definition amd_name :: "u8 list" where
  "amd_name = [65, 117, 116, 104, 101, 110, 116, 105, 99, 65, 77, 68]"

definition get_cpu_vendor :: "cpuid \<Rightarrow> cpu_info \<Rightarrow> i32 \<times> cpu_info" where
  "get_cpu_vendor cpuid I =
     (if ci_vendor I \<noteq> 0 then (ci_vendor I, I)
      else
        let r = cpuid 0 0;
            buf = word_bytes (cp_ebx r) @ word_bytes (cp_edx r) @ word_bytes (cp_ecx r);
            vendor = (if buf = intel_name then CPU_VENDOR_INTEL
                      else if buf = amd_name then CPU_VENDOR_AMD else CPU_VENDOR_UNKNOWN) in
        (vendor, I\<lparr>ci_vendor := vendor\<rparr>))"

section \<open>Bits of an APIC identifier\<close>

definition get_chip_multithreading :: "cpuid \<Rightarrow> bool \<times> i32" where
  "get_chip_multithreading cpuid =
     (let r = cpuid 1 0 in (bit (cp_edx r) 28, INT_BITS (cp_ebx r) 16 23))"

text \<open>\<open>bsrq\<close> with its argument an \<open>int\<close>; \<open>undef\<close> is what it leaves for zero.\<close>

definition bsrq_int :: "int \<Rightarrow> i32 \<Rightarrow> int" where
  "bsrq_int undef v = (case bsrq (scast v) of Some n \<Rightarrow> int n | None \<Rightarrow> undef)"

definition get_thread_core_bits_intel :: "int \<Rightarrow> cpuid \<Rightarrow> u32 \<Rightarrow> i32 \<Rightarrow> int \<times> int" where
  "get_thread_core_bits_intel undef cpuid cpuid_func_max chip_threads_max =
     (if 0xB \<le> cpuid_func_max then
        let thread_bits = uint (INT_BITS (cp_eax (cpuid 0xB 0)) 0 4) in
        (thread_bits, uint (INT_BITS (cp_eax (cpuid 0xB 1)) 0 4) - thread_bits)
      else if 0x4 \<le> cpuid_func_max then
        let core_index_max = INT_BITS (cp_eax (cpuid 0x4 0)) 26 31;
            core_bits = (if core_index_max \<noteq> 0 then bsrq_int undef core_index_max + 1 else 0);
            chip_thread_bits = bsrq_int undef (chip_threads_max - 1) + 1 in
        (chip_thread_bits - core_bits, core_bits)
      else (bsrq_int undef (chip_threads_max - 1) + 1, 0))"

definition get_thread_core_bits_amd :: "int \<Rightarrow> cpuid \<Rightarrow> u32 \<Rightarrow> i32 \<Rightarrow> int \<times> int" where
  "get_thread_core_bits_amd undef cpuid cpuid_ex_func_max chip_threads_max =
     (if 0x80000008 \<le> cpuid_ex_func_max then
        let ecx = cp_ecx (cpuid 0x80000008 0);
            core_bits0 = uint (INT_BITS ecx 12 15);
            core_index_max = INT_BITS ecx 0 7;
            core_bits = (if core_bits0 = 0 then
                if core_index_max \<noteq> 0 then bsrq_int undef core_index_max + 1 else 0
              else core_bits0);
            chip_thread_bits = bsrq_int undef (chip_threads_max - 1) + 1 in
        (chip_thread_bits - core_bits, core_bits)
      else (0, bsrq_int undef (chip_threads_max - 1) + 1))"

definition get_thread_core_bits :: "int \<Rightarrow> cpuid \<Rightarrow> cpu_info \<Rightarrow> (int \<times> int) \<times> cpu_info" where
  "get_thread_core_bits undef cpuid I =
     (let cpuid_func_max = cp_eax (cpuid 0 0);
          cpuid_ex_func_max = cp_eax (cpuid 0x80000000 0);
          (vendor, I1) = get_cpu_vendor cpuid I;
          (support, chip_threads_max) = get_chip_multithreading cpuid in
      if vendor \<noteq> CPU_VENDOR_UNKNOWN \<and> support then
        (if vendor = CPU_VENDOR_INTEL
         then get_thread_core_bits_intel undef cpuid cpuid_func_max chip_threads_max
         else get_thread_core_bits_amd undef cpuid cpuid_ex_func_max chip_threads_max, I1)
      else ((0, 0), I1))"

section \<open>The table of CPUs\<close>

definition srat_domain :: "acpi_srat_lapic \<Rightarrow> u32" where
  "srat_domain l = ucast (sl_prox_domain0 l) + push_bit 8 (ucast (sl_prox_domain1 l)) + push_bit 24 (ucast (sl_prox_domain2 l))"

text \<open>The inner loop: the domain of the last entry for this APIC identifier.\<close>

partial_function (option) domain_loop :: "acpi \<Rightarrow> mem \<Rightarrow> u8 \<Rightarrow> ptr \<Rightarrow> u32 \<Rightarrow> u32 outcome option" where
  "domain_loop A m apic sentry domain =
     (case get_next_acpi_entry A m (ac_srat A) (Some sentry) 0 of
        Ret (err, entry) \<Rightarrow>
          (case entry of
             Some e \<Rightarrow>
               if err \<noteq> ERR_NONE then Some (Ret domain)
               else
                 let l = get_srat_lapic m e in
                 domain_loop A m apic e (if sl_enabled l \<and> sl_apic_id l = apic then srat_domain l else domain)
           | None \<Rightarrow> Some Undef)
      | Hang \<Rightarrow> None
      | _ \<Rightarrow> Some Undef)"

text \<open>The C shifts are defined for these counts only.\<close>

definition shifts_ok :: "int \<Rightarrow> int \<Rightarrow> bool" where
  "shifts_ok thread_bits core_bits \<longleftrightarrow>
     0 \<le> thread_bits \<and> thread_bits < 31 \<and> 0 \<le> core_bits \<and> core_bits < 31 \<and> thread_bits + core_bits < 32"

definition split_id :: "int \<Rightarrow> int \<Rightarrow> u8 \<Rightarrow> cpu_desc \<Rightarrow> cpu_desc" where
  "split_id thread_bits core_bits apic d =
     (let id32 = ucast apic :: i32 in
      d\<lparr>cd_id := apic,
        cd_thread := ucast (id32 AND (push_bit (nat thread_bits) 1 - 1)),
        cd_core := ucast (drop_bit (nat thread_bits) id32 AND (push_bit (nat core_bits) 1 - 1)),
        cd_chip := ucast (drop_bit (nat (thread_bits + core_bits)) id32)\<rparr>)"

partial_function (option) desc_loop ::
  "acpi \<Rightarrow> mem \<Rightarrow> int \<Rightarrow> int \<Rightarrow> ptr \<Rightarrow> nat \<Rightarrow> cpu_info \<Rightarrow> (nat \<times> cpu_info) outcome option" where
  "desc_loop A m thread_bits core_bits mentry i I =
     (case get_next_acpi_entry A m (ac_madt A) (Some mentry) 0 of
        Ret (err, entry) \<Rightarrow>
          (case entry of
             Some e \<Rightarrow>
               if err \<noteq> ERR_NONE then Some (Ret (i, I))
               else if \<not> ml_enabled (get_madt_lapic m e) then desc_loop A m thread_bits core_bits e i I
               else if MAX_CPUS \<le> i then Some (Ret (i, I))
               else if \<not> shifts_ok thread_bits core_bits then Some Undef
               else
                 let apic = ml_apic_id (get_madt_lapic m e);
                     I1 = I\<lparr>ci_indexes := (ci_indexes I)(apic := word_of_nat i),
                       ci_descs := (ci_descs I)(i := split_id thread_bits core_bits apic (ci_descs I i))\<rparr> in
                 Option.bind (domain_loop A m apic NULL (cd_domain (ci_descs I1 i))) (\<lambda>r.
                   case r of
                     Ret domain \<Rightarrow> desc_loop A m thread_bits core_bits e (Suc i)
                       (I1\<lparr>ci_descs := (ci_descs I1)(i := (ci_descs I1 i)\<lparr>cd_domain := domain\<rparr>)\<rparr>)
                   | _ \<Rightarrow> Some Undef)
           | None \<Rightarrow> Some Undef)
      | Hang \<Rightarrow> None
      | _ \<Rightarrow> Some Undef)"

definition fill_cpu_descs :: "acpi \<Rightarrow> mem \<Rightarrow> int \<Rightarrow> int \<Rightarrow> cpu_info \<Rightarrow> cpu_info outcome" where
  "fill_cpu_descs A m thread_bits core_bits I =
     (case desc_loop A m thread_bits core_bits NULL 0 I of
        None \<Rightarrow> Hang
      | Some r \<Rightarrow> obind r (\<lambda>(i, I1). Ret (I1\<lparr>ci_num := i\<rparr>)))"

definition init_cpu_info :: "int \<Rightarrow> cpuid \<Rightarrow> acpi \<Rightarrow> mem \<Rightarrow> cpu_info \<Rightarrow> cpu_info outcome" where
  "init_cpu_info undef cpuid A m I =
     (let ((thread_bits, core_bits), I1) = get_thread_core_bits undef cpuid I in
      obind (fill_cpu_descs A m thread_bits core_bits I1) (\<lambda>I2. Ret (I2\<lparr>ci_bsp := get_cpu cpuid I2\<rparr>)))"

section \<open>Walking a table\<close>

text \<open>Where a walk stands after the entries \<open>xs\<close>.\<close>

definition walked :: "ptr list \<Rightarrow> ptr \<Rightarrow> bool" where
  "walked xs p \<longleftrightarrow> p = (if xs = [] then NULL else last xs)"

lemma get_next_walked:
  assumes "acpi_table A m table (xs @ zs)" "walked xs p"
  shows "found_next m type zs (get_next_acpi_entry A m table (Some p) type)"
proof (cases "xs = []")
  case True
  then show ?thesis using get_next_first [of A m table "xs @ zs" type] assms by (simp add: walked_def)
next
  case False
  then have "xs @ zs = butlast xs @ p # zs" using assms(2) by (simp add: walked_def)
  then show ?thesis using get_next_after [OF assms(1)] by metis
qed

text \<open>One step of a walk over the entries of a type.\<close>

lemma walk_step:
  assumes "acpi_table A m table (xs @ zs)" "walked xs p"
  obtains (stop) l where "filter (of_entry_type m type) zs = []"
      "get_next_acpi_entry A m table (Some p) type = Ret (ERR_NO_MORE, Some l)"
    | (go) e us vs where "zs = us @ e # vs" "filter (of_entry_type m type) zs = e # filter (of_entry_type m type) vs"
      "get_next_acpi_entry A m table (Some p) type = Ret (ERR_NONE, Some e)"
      "walked (xs @ us @ [e]) e" "acpi_table A m table ((xs @ us @ [e]) @ vs)"
proof (cases "find (of_entry_type m type) zs")
  case None
  then obtain l where "get_next_acpi_entry A m table (Some p) type = Ret (ERR_NO_MORE, Some l)"
    using get_next_walked [OF assms, of type] by (auto simp: found_next_def)
  with None show thesis by (intro stop) (simp_all add: find_None_iff filter_empty_conv)
next
  case (Some e)
  then have "\<exists>x\<in>set zs. of_entry_type m type x" by (auto simp: find_Some_iff)
  then obtain us x vs where z: "zs = us @ x # vs" "of_entry_type m type x" "\<forall>u\<in>set us. \<not> of_entry_type m type u"
    using split_list_first_prop [of zs "of_entry_type m type"] by metis
  have "find (of_entry_type m type) (us @ x # vs) = Some x" using z(2,3) by (induction us) auto
  then have "x = e" using Some z(1) by simp
  with z show thesis
    using get_next_walked [OF assms, of type] Some assms(1)
    by (intro go [of us e vs]) (auto simp: found_next_def walked_def filter_empty_conv)
qed

definition domain_of :: "mem \<Rightarrow> u8 \<Rightarrow> ptr list \<Rightarrow> u32 \<Rightarrow> u32" where
  "domain_of m apic es d =
     fold (\<lambda>e d. let l = get_srat_lapic m e in if sl_enabled l \<and> sl_apic_id l = apic then srat_domain l else d)
       (filter (of_entry_type m 0) es) d"

lemma domain_loop_fold:
  assumes "acpi_table A m (ac_srat A) (xs @ zs)" "walked xs p"
  shows "domain_loop A m apic p d = Some (Ret (domain_of m apic zs d))"
  using assms
proof (induction "length zs" arbitrary: zs xs p d rule: less_induct)
  case less
  show ?case
  proof (cases rule: walk_step [OF less.prems, of 0])
    case (1 l)
    then show ?thesis by (subst domain_loop.simps) (simp add: domain_of_def)
  next
    case go: (2 e us vs)
    have "domain_loop A m apic e d' = Some (Ret (domain_of m apic vs d'))" for d'
      by (rule less.hyps [OF _ go(5,4)]) (simp add: go(1))
    then show ?thesis by (subst domain_loop.simps) (simp add: go(2,3) domain_of_def Let_def)
  qed
qed

definition srat_entries :: "acpi \<Rightarrow> mem \<Rightarrow> ptr list \<Rightarrow> bool" where
  "srat_entries A m ss \<longleftrightarrow> (if ac_srat A = NULL then ss = [] else acpi_table A m (ac_srat A) ss)"

lemma domain_loop_srat:
  assumes "srat_entries A m ss"
  shows "domain_loop A m apic NULL d = Some (Ret (domain_of m apic ss d))"
proof (cases "ac_srat A = NULL")
  case True
  then show ?thesis
    using assms by (subst domain_loop.simps) (simp add: get_next_acpi_entry_def srat_entries_def domain_of_def)
next
  case False
  then show ?thesis
    using domain_loop_fold [of A m "[]" ss NULL apic d] assms by (simp add: srat_entries_def walked_def)
qed

text \<open>What the loop does for one processor, and for all of them.\<close>

definition enter_cpu :: "mem \<Rightarrow> ptr list \<Rightarrow> int \<Rightarrow> int \<Rightarrow> u8 \<Rightarrow> nat \<times> cpu_info \<Rightarrow> nat \<times> cpu_info" where
  "enter_cpu m ss thread_bits core_bits apic s = (case s of (i, I) \<Rightarrow>
     (Suc i, I\<lparr>ci_indexes := (ci_indexes I)(apic := word_of_nat i),
       ci_descs := (ci_descs I)(i := (split_id thread_bits core_bits apic (ci_descs I i))
         \<lparr>cd_domain := domain_of m apic ss (cd_domain (ci_descs I i))\<rparr>)\<rparr>))"

definition lapic_ids :: "mem \<Rightarrow> ptr list \<Rightarrow> u8 list" where
  "lapic_ids m es = map (\<lambda>e. ml_apic_id (get_madt_lapic m e))
     (filter (\<lambda>e. ml_enabled (get_madt_lapic m e)) (filter (of_entry_type m 0) es))"

lemma desc_loop_fold:
  assumes "acpi_table A m (ac_madt A) (xs @ zs)" "walked xs p" "srat_entries A m ss"
    and "shifts_ok thread_bits core_bits" "i \<le> MAX_CPUS"
  shows "desc_loop A m thread_bits core_bits p i I =
    Some (Ret (fold (enter_cpu m ss thread_bits core_bits) (take (MAX_CPUS - i) (lapic_ids m zs)) (i, I)))"
  using assms(1,2,5)
proof (induction "length zs" arbitrary: zs xs p i I rule: less_induct)
  case less
  show ?case
  proof (cases rule: walk_step [OF less.prems(1,2), of 0])
    case (1 l)
    then show ?thesis by (subst desc_loop.simps) (simp add: lapic_ids_def)
  next
    case go: (2 e us vs)
    have ih: "j \<le> MAX_CPUS \<Longrightarrow> desc_loop A m thread_bits core_bits e j J =
        Some (Ret (fold (enter_cpu m ss thread_bits core_bits) (take (MAX_CPUS - j) (lapic_ids m vs)) (j, J)))" for j J
      by (rule less.hyps [OF _ go(5,4)]) (simp_all add: go(1))
    show ?thesis
    proof (cases "ml_enabled (get_madt_lapic m e)")
      case False
      then have "lapic_ids m zs = lapic_ids m vs" by (simp add: lapic_ids_def go(2))
      then show ?thesis using False go(3) ih [OF less.prems(3)] by (subst desc_loop.simps) simp
    next
      case en: True
      let ?apic = "ml_apic_id (get_madt_lapic m e)"
      have ids: "lapic_ids m zs = ?apic # lapic_ids m vs" using en by (simp add: lapic_ids_def go(2))
      show ?thesis
      proof (cases "MAX_CPUS \<le> i")
        case True
        then show ?thesis using en go(3) by (subst desc_loop.simps) simp
      next
        case False
        let ?I = "snd (enter_cpu m ss thread_bits core_bits ?apic (i, I))"
        have "desc_loop A m thread_bits core_bits p i I = desc_loop A m thread_bits core_bits e (Suc i) ?I"
          using en False go(3) assms(4)
          by (subst desc_loop.simps) (simp add: domain_loop_srat [OF assms(3)] Let_def enter_cpu_def split_id_def)
        also have "\<dots> = Some (Ret (fold (enter_cpu m ss thread_bits core_bits) (take (MAX_CPUS - Suc i) (lapic_ids m vs)) (Suc i, ?I)))"
          using False by (intro ih) simp
        also have "take (MAX_CPUS - i) (lapic_ids m zs) = ?apic # take (MAX_CPUS - Suc i) (lapic_ids m vs)"
          using False by (simp add: ids take_Cons' Suc_diff_le)
        then have "fold (enter_cpu m ss thread_bits core_bits) (take (MAX_CPUS - Suc i) (lapic_ids m vs)) (Suc i, ?I) =
            fold (enter_cpu m ss thread_bits core_bits) (take (MAX_CPUS - i) (lapic_ids m zs)) (i, I)"
          by (simp add: enter_cpu_def)
        finally show ?thesis .
      qed
    qed
  qed
qed

section \<open>The table filled in\<close>

lemma unat_and_mask: "unat (w AND (push_bit n 1 - 1) :: i32) = unat w mod 2 ^ n"
proof -
  have "push_bit n 1 - 1 = (mask n :: i32)" by (simp add: mask_eq_exp_minus_1 push_bit_of_1)
  then have "w AND (push_bit n 1 - 1) = take_bit n w" by (simp add: take_bit_eq_mask)
  then have "unat (w AND (push_bit n 1 - 1)) = take_bit n (unat w)" by (metis unsigned_take_bit_eq)
  then show ?thesis by (simp only: take_bit_eq_mod)
qed

lemma unat_drop32: "unat (drop_bit k (v :: i32)) = unat v div 2 ^ k"
proof -
  have "take_bit LENGTH(32) (unat v) = unat v" using take_bit_nat_eq_self [OF unat_lt32 [of v]] by simp
  then show ?thesis unfolding unsigned_drop_bit_eq by (simp only: drop_bit_eq_div)
qed

lemma unat_narrow: "unat (w :: i32) < 256 \<Longrightarrow> unat (ucast w :: u8) = unat w"
  by (simp add: unsigned_ucast_eq take_bit_nat_eq_self)

definition id_split :: "nat \<Rightarrow> nat \<Rightarrow> cpu_desc \<Rightarrow> bool" where
  "id_split t c d \<longleftrightarrow>
     unat (cd_id d) = unat (cd_chip d) * 2 ^ (t + c) + unat (cd_core d) * 2 ^ t + unat (cd_thread d) \<and>
     unat (cd_thread d) < 2 ^ t \<and> unat (cd_core d) < 2 ^ c"

lemma split_id_parts:
  assumes "0 \<le> thread_bits" "0 \<le> core_bits"
  shows "id_split (nat thread_bits) (nat core_bits) (split_id thread_bits core_bits apic d)"
proof -
  let ?t = "nat thread_bits" and ?c = "nat core_bits" and ?n = "unat apic" and ?d = "split_id thread_bits core_bits apic d"
  have n: "?n < 256" using unsigned_less [of apic, where ?'a = nat] by simp
  have u: "unat (ucast apic :: i32) = ?n"
    using n by (simp add: unsigned_ucast_eq take_bit_nat_eq_self)
  have tc: "nat (thread_bits + core_bits) = ?t + ?c" using assms by simp
  have le: "?n mod 2 ^ ?t < 256" "?n div 2 ^ ?t < 256" "?n div 2 ^ ?t mod 2 ^ ?c < 256" "?n div 2 ^ (?t + ?c) < 256"
    using n by (meson le_less_trans mod_less_eq_dividend div_le_dividend)+
  let ?i = "ucast apic :: i32"
  have f: "cd_thread ?d = ucast (?i AND (push_bit ?t 1 - 1))"
    "cd_core ?d = ucast (drop_bit ?t ?i AND (push_bit ?c 1 - 1))" "cd_chip ?d = ucast (drop_bit (?t + ?c) ?i)"
    unfolding split_id_def Let_def tc by simp_all
  have thread: "unat (cd_thread ?d) = ?n mod 2 ^ ?t"
    unfolding f using unat_narrow [of "?i AND (push_bit ?t 1 - 1)"] le(1) unfolding unat_and_mask u by simp
  have core: "unat (cd_core ?d) = ?n div 2 ^ ?t mod 2 ^ ?c"
    unfolding f using unat_narrow [of "drop_bit ?t ?i AND (push_bit ?c 1 - 1)"] le(3) unfolding unat_and_mask unat_drop32 u by simp
  have chip: "unat (cd_chip ?d) = ?n div 2 ^ (?t + ?c)"
    unfolding f using unat_narrow [of "drop_bit (?t + ?c) ?i"] le(4) unfolding unat_drop32 u by simp
  have "?n = ?n div 2 ^ (?t + ?c) * 2 ^ (?t + ?c) + ?n div 2 ^ ?t mod 2 ^ ?c * 2 ^ ?t + ?n mod 2 ^ ?t"
  proof -
    have "?n div 2 ^ ?t = ?n div 2 ^ (?t + ?c) * 2 ^ ?c + ?n div 2 ^ ?t mod 2 ^ ?c"
      unfolding power_add div_mult2_eq by (rule div_mult_mod_eq [symmetric])
    then have "?n div 2 ^ ?t * 2 ^ ?t = (?n div 2 ^ (?t + ?c) * 2 ^ ?c + ?n div 2 ^ ?t mod 2 ^ ?c) * 2 ^ ?t"
      by (rule arg_cong)
    then have "?n div 2 ^ ?t * 2 ^ ?t = ?n div 2 ^ (?t + ?c) * 2 ^ (?t + ?c) + ?n div 2 ^ ?t mod 2 ^ ?c * 2 ^ ?t"
      unfolding add_mult_distrib power_add [of 2 ?t ?c] by (simp only: mult.assoc mult.commute mult.left_commute)
    then show ?thesis by (metis div_mult_mod_eq)
  qed
  moreover have "cd_id ?d = apic" by (simp add: split_id_def Let_def)
  ultimately show ?thesis unfolding id_split_def thread core chip by simp
qed

lemma enter_cpus:
  fixes I :: cpu_info and m :: mem and ss :: "ptr list" and t c :: int
  defines "r \<equiv> \<lambda>xs. fold (enter_cpu m ss t c) xs (0, I)"
  shows "fst (r xs) = length xs \<and> ci_vendor (snd (r xs)) = ci_vendor I \<and>
    (\<forall>j<length xs. ci_descs (snd (r xs)) j =
      (split_id t c (xs ! j) (ci_descs I j))\<lparr>cd_domain := domain_of m (xs ! j) ss (cd_domain (ci_descs I j))\<rparr>) \<and>
    (\<forall>j\<ge>length xs. ci_descs (snd (r xs)) j = ci_descs I j) \<and>
    (distinct xs \<longrightarrow> (\<forall>j<length xs. ci_indexes (snd (r xs)) (xs ! j) = word_of_nat j))"
proof (induction xs rule: rev_induct)
  case (snoc x xs)
  have step: "r (xs @ [x]) = enter_cpu m ss t c x (r xs)" by (simp add: r_def)
  obtain i J where rj: "r xs = (i, J)" by (cases "r xs") auto
  from snoc rj have i: "i = length xs" by simp
  have old: "ci_descs J i = ci_descs I i" using snoc rj i by simp
  show ?case
    unfolding step rj using snoc unfolding rj
    by (auto simp: enter_cpu_def i nth_append less_Suc_eq old [unfolded i])
qed (simp add: r_def)

text \<open>\<open>bsrq\<close> of one less counts the bits that number as many things take.\<close>

lemma chip_bits:
  assumes "2 \<le> unat (v :: i32)" "unat v < 2 ^ 31"
  obtains k where "bsrq_int undef (v - 1) + 1 = int k" "unat v \<le> 2 ^ k" "2 ^ (k - 1) < unat v"
proof -
  have u: "unat (v - 1) = unat v - 1" using assms(1) by (intro unat_minus_one) auto
  then have "sint (v - 1) = int (unat v - 1)" using assms sint_small [of "v - 1"] by simp
  then have s: "unat (scast (v - 1) :: u64) = unat v - 1" using unat_scast_nonneg [of "v - 1"] by simp
  have "(scast (v - 1) :: u64) \<noteq> 0"
  proof
    assume "(scast (v - 1) :: u64) = 0"
    then have "unat v - 1 = 0" using s by simp
    then show False using assms(1) by simp
  qed
  then obtain n where n: "bsrq (scast (v - 1)) = Some n" using bsrq_None [of "scast (v - 1)"] by (cases "bsrq (scast (v - 1))") auto
  have "2 ^ n \<le> unat v - 1" "unat v - 1 < 2 ^ Suc n" using bsrq_bounds [OF n] unfolding s by simp_all
  then show thesis using n by (intro that [of "Suc n"]) (simp_all add: bsrq_int_def)
qed

text \<open>
  Where the bits are not read from a function made for it, the thread and core bits together
  number as many threads as the chip reports, at least 2 of them, with no bit to spare.
\<close>

lemma thread_core_bits_cover:
  assumes "2 \<le> unat chip_threads_max" "unat chip_threads_max < 2 ^ 31"
    and "bits = get_thread_core_bits_intel undef cpuid func_max chip_threads_max \<and> func_max < 0xB \<or>
      bits = get_thread_core_bits_amd undef cpuid ex_func_max chip_threads_max"
  obtains k where "fst bits + snd bits = int k" "unat chip_threads_max \<le> 2 ^ k" "2 ^ (k - 1) < unat chip_threads_max"
proof -
  obtain k where k: "bsrq_int undef (chip_threads_max - 1) + 1 = int k" "unat chip_threads_max \<le> 2 ^ k"
    "2 ^ (k - 1) < unat chip_threads_max" by (rule chip_bits [OF assms(1,2)])
  have "fst bits + snd bits = int k"
    using assms(3) k(1) by (auto simp: get_thread_core_bits_intel_def get_thread_core_bits_amd_def Let_def)
  with k show thesis by (intro that)
qed

section \<open>Properties\<close>

text \<open>C27: When both tables can be walked and the bit counts can be shift counts, filling in the CPU table ends: it has one entry per
  enabled processor of the MADT, in their order, up to 16; each identifier splits without loss
  into chip, core and thread; the domain is that of the last matching SRAT entry; and, the
  identifiers being distinct, every processor finds its own place in the table.\<close>

theorem fill_cpu_descs_table:
  assumes "acpi_table A m (ac_madt A) es" "srat_entries A m ss" "shifts_ok thread_bits core_bits"
    and "ids = take MAX_CPUS (lapic_ids m es)"
  shows "\<exists>I'. fill_cpu_descs A m thread_bits core_bits I = Ret I' \<and> get_cpus I' = length ids \<and>
    (\<forall>i<length ids. cd_id (get_cpu_desc i I') = ids ! i \<and>
       id_split (nat thread_bits) (nat core_bits) (get_cpu_desc i I') \<and>
       cd_domain (get_cpu_desc i I') = domain_of m (ids ! i) ss (cd_domain (get_cpu_desc i I))) \<and>
    (distinct ids \<longrightarrow> (\<forall>i<length ids. \<forall>cpuid. ucast (INT_BITS (cp_ebx (cpuid 1 0)) 24 31) = ids ! i \<longrightarrow> get_cpu cpuid I' = i))"
proof -
  let ?r = "fold (enter_cpu m ss thread_bits core_bits) ids (0, I)"
  have "desc_loop A m thread_bits core_bits NULL 0 I = Some (Ret ?r)"
    using desc_loop_fold [of A m "[]" es NULL ss thread_bits core_bits 0 I] assms by (simp add: walked_def)
  then have run: "fill_cpu_descs A m thread_bits core_bits I = Ret ((snd ?r)\<lparr>ci_num := fst ?r\<rparr>)"
    by (simp add: fill_cpu_descs_def case_prod_unfold)
  note e = enter_cpus [of m ss thread_bits core_bits ids I]
  have tc: "0 \<le> thread_bits" "0 \<le> core_bits" using assms(3) by (auto simp: shifts_ok_def)
  have dom: "id_split t c (d\<lparr>cd_domain := x\<rparr>) = id_split t c d" for t c d x by (simp add: id_split_def)
  have len: "length ids \<le> 16" by (simp add: assms(4))
  have small: "unat (word_of_nat i :: u8) = i" if "i < length ids" for i
    by (rule of_nat_inverse [OF refl]) (use that len in simp)
  show ?thesis
    unfolding run
    by (rule exI [of _ "(snd ?r)\<lparr>ci_num := fst ?r\<rparr>"])
      (use e split_id_parts [OF tc] small in \<open>auto simp: get_cpus_def get_cpu_desc_def dom get_cpu_def split_id_def Let_def\<close>)
qed

definition xinfo :: cpu_info where
  "xinfo = \<lparr>ci_vendor = 0, ci_num = 0, ci_descs = \<lambda>_. \<lparr>cd_id = 0, cd_thread = 0, cd_core = 0, cd_chip = 0, cd_domain = 0\<rparr>,
     ci_indexes = \<lambda>_. 0, ci_bsp = 0\<rparr>"

theorem fill_cpu_descs_table_witness:
  "\<exists>I'. fill_cpu_descs xacpi xmadt 1 1 xinfo = Ret I' \<and> get_cpus I' = 2 \<and> cd_id (get_cpu_desc 1 I') = 4 \<and>
    id_split 1 1 (get_cpu_desc 1 I') \<and>
    get_cpu (\<lambda>f sub. \<lparr>cp_eax = 0, cp_ebx = 0x04000000, cp_ecx = 0, cp_edx = 0\<rparr>) I' = 1"
proof -
  have a: "acpi_table xacpi xmadt (ac_madt xacpi) [0x102C, 0x1034, 0x1040]" using xmadt by (simp add: xacpi_def)
  have s: "srat_entries xacpi xmadt []" by (simp add: srat_entries_def xacpi_def)
  have o: "shifts_ok 1 1" by (simp add: shifts_ok_def)
  have i: "[0, 4] = take MAX_CPUS (lapic_ids xmadt [0x102C, 0x1034, 0x1040])" by code_simp
  have c: "ucast (INT_BITS (0x04000000 :: u32) 24 31) = (4 :: u8)" by code_simp
  let ?cpuid = "\<lambda>f sub. \<lparr>cp_eax = 0, cp_ebx = 0x04000000, cp_ecx = 0, cp_edx = 0\<rparr>"
  have t: "ucast (INT_BITS (cp_ebx (?cpuid 1 0)) 24 31) = [0, 4 :: u8] ! 1" using c by simp
  from fill_cpu_descs_table [OF a s o i, of xinfo] obtain I' where
    I': "fill_cpu_descs xacpi xmadt 1 1 xinfo = Ret I'" "get_cpus I' = length [0, 4 :: u8]"
    "\<forall>i<length [0, 4 :: u8]. cd_id (get_cpu_desc i I') = [0, 4] ! i \<and>
       id_split (nat 1) (nat 1) (get_cpu_desc i I') \<and>
       cd_domain (get_cpu_desc i I') = domain_of xmadt ([0, 4] ! i) [] (cd_domain (get_cpu_desc i xinfo))"
    "distinct [0, 4 :: u8] \<longrightarrow> (\<forall>i<length [0, 4 :: u8]. \<forall>cpuid.
       ucast (INT_BITS (cp_ebx (cpuid 1 0)) 24 31) = [0, 4 :: u8] ! i \<longrightarrow> get_cpu cpuid I' = i)"
    by blast
  have "get_cpu ?cpuid I' = 1" using I'(4) t by simp
  moreover have "cd_id (get_cpu_desc 1 I') = 4" "id_split 1 1 (get_cpu_desc 1 I')" using I'(3) [rule_format, of 1] by simp_all
  ultimately show ?thesis using I'(1,2) by (intro exI [of _ I']) simp
qed

end
