(* ===== verification/Driver.thy ===== *)
theory Driver
  imports Sync_Mutex
begin

text \<open>
  The registry of drivers (\<open>driver.c\<close>, \<open>driver.h\<close>): a doubly linked list under a mutex,
  with stamped identifiers.
\<close>

section \<open>State\<close>

abbreviation DRIVER_MAGIC :: u64 where "DRIVER_MAGIC \<equiv> 0x0288419716939937"

text \<open>The four operations of a driver are function pointers.\<close>

record driver =
  dv_magic :: u64
  dv_prev :: ptr
  dv_next :: ptr
  dv_stamp :: i32
  dv_type :: i32
  dv_scan_devices :: ptr
  dv_get_next_device :: ptr
  dv_start_device :: ptr
  dv_stop_device :: ptr

record drivers = sync +
  dr_stamp :: i32
  dr_tail :: ptr
  dr_heap :: "ptr \<Rightarrow> driver"

definition on_driver :: "ptr \<Rightarrow> (driver \<Rightarrow> driver) \<Rightarrow> (ptr \<Rightarrow> driver) \<Rightarrow> ptr \<Rightarrow> driver" where
  "on_driver a f h = h(a := f (h a))"

definition drv_next :: "(ptr \<Rightarrow> driver) \<Rightarrow> ptr \<Rightarrow> ptr" where "drv_next h a = dv_next (h a)"
definition drv_prev :: "(ptr \<Rightarrow> driver) \<Rightarrow> ptr \<Rightarrow> ptr" where "drv_prev h a = dv_prev (h a)"
definition set_drv_next :: "ptr \<Rightarrow> ptr \<Rightarrow> (ptr \<Rightarrow> driver) \<Rightarrow> ptr \<Rightarrow> driver" where
  "set_drv_next a v = on_driver a (\<lambda>d. d\<lparr>dv_next := v\<rparr>)"
definition set_drv_prev :: "ptr \<Rightarrow> ptr \<Rightarrow> (ptr \<Rightarrow> driver) \<Rightarrow> ptr \<Rightarrow> driver" where
  "set_drv_prev a v = on_driver a (\<lambda>d. d\<lparr>dv_prev := v\<rparr>)"

lemmas drv_field_defs = drv_next_def drv_prev_def set_drv_next_def set_drv_prev_def on_driver_def

interpretation drv: link_fields drv_next drv_prev set_drv_next set_drv_prev
  by unfold_locales (auto simp: drv_field_defs)

section \<open>Operations\<close>

text \<open>
  A section under the mutex at address \<open>a\<close>. A caller that had to wait goes on from what the
  other threads have made of the state by the time it is resumed: \<open>env\<close>. When the mutex was
  free it goes on at once.
\<close>

definition under_mutex ::
  "machine \<Rightarrow> ('z sync_scheme \<Rightarrow> 'z sync_scheme) \<Rightarrow> nat \<Rightarrow> ptr \<Rightarrow>
   ('z sync_scheme \<Rightarrow> err_code \<times> 'r \<times> 'z sync_scheme) \<Rightarrow> 'r \<Rightarrow> 'z sync_scheme \<Rightarrow>
   (err_code \<times> 'r \<times> 'z sync_scheme) outcome" where
  "under_mutex E env c a body r s =
     obind (acquire_mutex E c a s) (\<lambda>(err, s1).
       if err \<noteq> ERR_NONE then Ret (err, r, s1)
       else
         let (err1, r1, s2) = body (if hw_busy s (Lock_mlock a) = 0 then s1 else env s1) in
         obind (release_mutex E c a s2) (\<lambda>s3. Ret (err1, r1, s3)))"

text \<open>
  Lines 16 to 22. The write to the previous front goes through \<open>tail\<close> even when it is null;
  the null page is mapped, so it lands in the record at address 0.
\<close>

definition push_driver :: "ptr \<Rightarrow> 'z drivers_scheme \<Rightarrow> stamp_id \<times> 'z drivers_scheme" where
  "push_driver d s =
     (let (st, g) = assign_stamp_id_stamp (dr_stamp s);
          h1 = on_driver d (\<lambda>x. x\<lparr>dv_magic := DRIVER_MAGIC, dv_stamp := st, dv_prev := NULL, dv_next := dr_tail s\<rparr>) (dr_heap s);
          h2 = set_drv_prev (dr_tail s) d h1 in
      (get_stamp_id d (dv_stamp (h2 d)), s\<lparr>dr_stamp := g, dr_heap := h2, dr_tail := d\<rparr>))"

definition add_driver ::
  "machine \<Rightarrow> ('z drivers_scheme \<Rightarrow> 'z drivers_scheme) \<Rightarrow> nat \<Rightarrow> ptr \<Rightarrow> ptr \<Rightarrow> 'z drivers_scheme \<Rightarrow>
   (err_code \<times> stamp_id option \<times> 'z drivers_scheme) outcome" where
  "add_driver E env c a d s =
     (if dv_magic (dr_heap s d) = DRIVER_MAGIC then Ret (ERR_BAD_STATE, None, s)
      else under_mutex E env c a (\<lambda>s1. let (i, s2) = push_driver d s1 in (ERR_NONE, Some i, s2)) None s)"

definition find_driver :: "stamp_id \<Rightarrow> 'z drivers_scheme \<Rightarrow> err_code + ptr" where
  "find_driver i s = WITH_STAMP_ID (\<lambda>a. dv_magic (dr_heap s a)) (\<lambda>a. dv_stamp (dr_heap s a)) DRIVER_MAGIC i"

definition drop_driver :: "ptr \<Rightarrow> 'z drivers_scheme \<Rightarrow> 'z drivers_scheme" where
  "drop_driver d s =
     (let h = dr_heap s;
          h1 = (if drv_prev h d \<noteq> NULL then set_drv_next (drv_prev h d) (drv_next h d) h else h);
          h2 = (if drv_next h1 d \<noteq> NULL then set_drv_prev (drv_next h1 d) (drv_prev h1 d) h1 else h1);
          tl = (if dr_tail s = d then drv_next h2 (dr_tail s) else dr_tail s) in
      s\<lparr>dr_heap := on_driver d (\<lambda>x. x\<lparr>dv_magic := 0\<rparr>) h2, dr_tail := tl\<rparr>)"

definition remove_driver ::
  "machine \<Rightarrow> ('z drivers_scheme \<Rightarrow> 'z drivers_scheme) \<Rightarrow> nat \<Rightarrow> ptr \<Rightarrow> stamp_id \<Rightarrow> 'z drivers_scheme \<Rightarrow>
   (err_code \<times> unit \<times> 'z drivers_scheme) outcome" where
  "remove_driver E env c a i s =
     under_mutex E env c a (\<lambda>s1. case find_driver i s1 of
         Inl e \<Rightarrow> (e, (), s1)
       | Inr d \<Rightarrow> (ERR_NONE, (), drop_driver d s1)) () s"

text \<open>The loop of \<open>get_next_driver\<close> behind its first step; the type \<open>-1\<close> accepts every driver.\<close>

partial_function (option) skip_drivers :: "(ptr \<Rightarrow> driver) \<Rightarrow> i32 \<Rightarrow> ptr \<Rightarrow> ptr option" where
  "skip_drivers h type d =
     (if type \<noteq> - 1 \<and> d \<noteq> NULL \<and> dv_type (h d) \<noteq> type then skip_drivers h type (drv_next h d) else Some d)"

definition driver_id_of :: "ptr \<Rightarrow> 'z drivers_scheme \<Rightarrow> stamp_id" where
  "driver_id_of d s = (if d \<noteq> NULL then get_stamp_id d (dv_stamp (dr_heap s d)) else 0)"

text \<open>The section under the mutex: the error and the identifier, \<open>None\<close> when the loop never ends.\<close>

definition next_driver :: "stamp_id \<Rightarrow> i32 \<Rightarrow> 'z drivers_scheme \<Rightarrow> (err_code \<times> stamp_id) option" where
  "next_driver i type s =
     (if i \<noteq> 0 then
        (case find_driver i s of
           Inl e \<Rightarrow> Some (e, i)
         | Inr d \<Rightarrow> map_option (\<lambda>x. (ERR_NONE, driver_id_of x s)) (skip_drivers (dr_heap s) type (drv_next (dr_heap s) d)))
      else Some (ERR_NONE, driver_id_of (dr_tail s) s))"

definition get_next_driver ::
  "machine \<Rightarrow> ('z drivers_scheme \<Rightarrow> 'z drivers_scheme) \<Rightarrow> nat \<Rightarrow> ptr \<Rightarrow> stamp_id option \<Rightarrow> i32 \<Rightarrow> 'z drivers_scheme \<Rightarrow>
   (err_code \<times> stamp_id option \<times> 'z drivers_scheme) outcome" where
  "get_next_driver E env c a id_ptr type s =
     (case id_ptr of
        None \<Rightarrow> Ret (ERR_BAD_INPUT, None, s)
      | Some i \<Rightarrow>
          obind (under_mutex E env c a (\<lambda>s1. case next_driver i type s1 of
                None \<Rightarrow> (ERR_NONE, None, s1)
              | Some (err, j) \<Rightarrow> (err, Some j, s1)) (Some i) s) (\<lambda>(err, r, s1).
            case r of
              None \<Rightarrow> Hang
            | Some j \<Rightarrow> Ret (if err = ERR_NONE \<and> j = 0 then ERR_NO_MORE else err, Some j, s1)))"

definition init_drivers :: "ptr \<Rightarrow> ('z drivers_scheme \<Rightarrow> 'z drivers_scheme outcome) \<Rightarrow> 'z drivers_scheme \<Rightarrow> 'z drivers_scheme outcome" where
  "init_drivers a init_builtin_drivers s =
     (let (err, s1) = create_mutex a s in if err \<noteq> ERR_NONE then Halted else init_builtin_drivers s1)"

section \<open>The registry\<close>

definition registry :: "'z drivers_scheme \<Rightarrow> ptr list \<Rightarrow> bool" where
  "registry s xs \<longleftrightarrow> dlist (drv_next (dr_heap s)) (drv_prev (dr_heap s)) (dr_tail s) xs \<and>
     (\<forall>x. dv_magic (dr_heap s x) = DRIVER_MAGIC \<longleftrightarrow> x \<in> set xs) \<and>
     (\<forall>x\<in>set xs. ptr_ok x \<and> stamp_ok (dv_stamp (dr_heap s x))) \<and> stamp_ok (dr_stamp s)"

text \<open>What the link operations leave alone.\<close>

definition drv_data :: "driver \<Rightarrow> driver" where
  "drv_data d = d\<lparr>dv_prev := NULL, dv_next := NULL\<rparr>"

lemma drv_dataD:
  assumes "drv_data d' = drv_data d"
  shows "dv_magic d' = dv_magic d" "dv_stamp d' = dv_stamp d" "dv_type d' = dv_type d"
  using assms by (cases d; cases d'; simp add: drv_data_def)+

lemma drv_data_set [simp]:
  "drv_data (set_drv_next a v h x) = drv_data (h x)" "drv_data (set_drv_prev a v h x) = drv_data (h x)"
  by (simp_all add: drv_data_def drv_field_defs)

lemma drv_fields_set:
  "drv_next (set_drv_next a v h) = (drv_next h)(a := v)" "drv_prev (set_drv_next a v h) = drv_prev h"
  "drv_prev (set_drv_prev a v h) = (drv_prev h)(a := v)" "drv_next (set_drv_prev a v h) = drv_next h"
  by (auto simp: drv_field_defs)

lemma push_driver_registry:
  assumes "registry s xs" "d \<noteq> NULL" "ptr_ok d" "d \<notin> set xs" "push_driver d s = (i, s')"
  shows "registry s' (d # xs)" "i = get_stamp_id d (dr_stamp s)" "find_driver i s' = Inr d"
    "\<And>x. x \<noteq> d \<Longrightarrow> drv_data (dr_heap s' x) = drv_data (dr_heap s x)" "same_hw s s'" "sy_mutex s' = sy_mutex s"
proof -
  define h1 where "h1 = on_driver d (\<lambda>x. x\<lparr>dv_magic := DRIVER_MAGIC, dv_stamp := dr_stamp s, dv_prev := NULL,
    dv_next := dr_tail s\<rparr>) (dr_heap s)"
  have s': "s' = s\<lparr>dr_stamp := snd (assign_stamp_id_stamp (dr_stamp s)), dr_heap := set_drv_prev (dr_tail s) d h1, dr_tail := d\<rparr>"
    and i: "i = get_stamp_id d (dv_stamp (set_drv_prev (dr_tail s) d h1 d))"
    using assms(5) by (simp_all add: push_driver_def Let_def h1_def split: prod.splits) (simp_all add: assign_stamp_id_stamp_def)
  have r: "dlist (drv_next (dr_heap s)) (drv_prev (dr_heap s)) (dr_tail s) xs" "stamp_ok (dr_stamp s)"
    using assms(1) by (simp_all add: registry_def)
  have data: "drv_data (dr_heap s' x) = drv_data (h1 x)" for x by (simp add: s')
  show other: "drv_data (dr_heap s' x) = drv_data (dr_heap s x)" if "x \<noteq> d" for x
    using that by (simp add: data h1_def on_driver_def)
  have own: "dv_magic (dr_heap s' d) = DRIVER_MAGIC" "dv_stamp (dr_heap s' d) = dr_stamp s"
    using drv_dataD(1,2) [OF data [of d]] by (simp_all add: h1_def on_driver_def)
  then show id: "i = get_stamp_id d (dr_stamp s)" unfolding i by (simp add: s')
  have dl: "dlist (drv_next (dr_heap s')) (drv_prev (dr_heap s')) d (d # xs)"
  proof -
    have e: "dlist (drv_next h1) (drv_prev h1) (dr_tail s) xs"
      using r(1) assms(4) by (subst dlist_cong [where n' = "drv_next (dr_heap s)" and p' = "drv_prev (dr_heap s)"])
        (auto simp: h1_def drv_field_defs)
    have "h1 d = (dr_heap s d)\<lparr>dv_magic := DRIVER_MAGIC, dv_stamp := dr_stamp s, dv_prev := NULL, dv_next := dr_tail s\<rparr>"
      by (simp add: h1_def on_driver_def)
    then have p: "drv_prev h1 d = NULL" "drv_next h1 d = dr_tail s" by (simp_all add: drv_field_defs)
    have nodes: "x \<noteq> NULL" if "x \<in> set (d # xs)" for x using that assms(2) dlist_nonnull [OF e] by auto
    have fr: "drv_next (link_front set_drv_next set_drv_prev (dr_tail s) d h1) = drv_next h1"
      using p(2) by (simp add: drv.front_fields fun_eq_iff)
    show ?thesis
      using drv.front_dlist [OF e assms(2,4) p(1)]
      by (rule iffD1 [OF dlist_cong, rotated -1])
        (use nodes p(2) in \<open>auto simp: fr drv.front_fields s' drv_fields_set\<close>)
  qed
  have magic: "dv_magic (dr_heap s' x) = DRIVER_MAGIC \<longleftrightarrow> x \<in> set (d # xs)" for x
    using assms(1) own(1) drv_dataD(1) [OF other [of x]] by (cases "x = d") (auto simp: registry_def)
  have ok: "ptr_ok x \<and> stamp_ok (dv_stamp (dr_heap s' x))" if "x \<in> set (d # xs)" for x
    using that assms(1,3) own(2) r(2) drv_dataD(2) [OF other [of x]] by (cases "x = d") (auto simp: registry_def)
  have "dr_tail s' = d" "stamp_ok (dr_stamp s')" using assign_stamp_ok [OF r(2)] by (simp_all add: s')
  with dl magic ok show "registry s' (d # xs)" unfolding registry_def by metis
  show "find_driver i s' = Inr d"
    using own assms(3) r(2) by (simp add: find_driver_def WITH_STAMP_ID_Inr id)
  show "same_hw s s'" "sy_mutex s' = sy_mutex s" by (simp_all add: s' same_hw_def)
qed

lemma drop_driver_registry:
  assumes "registry s xs" "d \<in> set xs"
  defines "s' \<equiv> drop_driver d s"
  shows "registry s' (remove1 d xs)" "\<And>x. x \<noteq> d \<Longrightarrow> drv_data (dr_heap s' x) = drv_data (dr_heap s x)"
    "dv_magic (dr_heap s' d) = 0" "same_hw s s'" "sy_mutex s' = sy_mutex s"
proof -
  let ?h = "dr_heap s"
  define h' where "h' = unlink_node drv_next drv_prev set_drv_next set_drv_prev d ?h"
  have dl: "dlist (drv_next ?h) (drv_prev ?h) (dr_tail s) xs" using assms(1) by (simp add: registry_def)
  obtain ys zs where xs: "xs = ys @ d # zs" using assms(2) by (meson split_list)
  note sp = dlist_split [OF dl [unfolded xs]]
  have dist: "distinct (ys @ d # zs)" using dlist_distinct [OF dl] xs by simp
  have l: "ys \<noteq> [] \<Longrightarrow> last ys \<noteq> d" using dist last_in_set [of ys] by (auto simp del: last_in_set)
  have "hd (zs @ [NULL]) \<noteq> d" using dist dlist_nonnull [OF dl assms(2)] by (cases zs) auto
  with l have ne: "drv_prev ?h d \<noteq> d" "drv_next ?h d \<noteq> d"
    using sp dlist_nonnull [OF dl assms(2)] by (auto split: if_splits)
  have h2: "(let h1 = (if drv_prev ?h d \<noteq> NULL then set_drv_next (drv_prev ?h d) (drv_next ?h d) ?h else ?h)
      in if drv_next h1 d \<noteq> NULL then set_drv_prev (drv_next h1 d) (drv_prev h1 d) h1 else h1) = h'"
    using ne by (auto simp: h'_def unlink_node_def Let_def drv_field_defs fun_eq_iff)
  have s': "s' = s\<lparr>dr_heap := on_driver d (\<lambda>x. x\<lparr>dv_magic := 0\<rparr>) h',
      dr_tail := (if dr_tail s = d then drv_next h' (dr_tail s) else dr_tail s)\<rparr>"
    unfolding s'_def drop_driver_def h2 [symmetric] by (simp add: Let_def cong: if_cong)
  note u = drv.unlink_dlist [OF dl assms(2), folded h'_def]
  have fld: "drv_next (on_driver d (\<lambda>x. x\<lparr>dv_magic := 0\<rparr>) h') = drv_next h'"
    "drv_prev (on_driver d (\<lambda>x. x\<lparr>dv_magic := 0\<rparr>) h') = drv_prev h'"
    by (auto simp: drv_field_defs)
  have data: "drv_data (h' x) = drv_data (?h x)" for x by (auto simp: h'_def unlink_node_def Let_def)
  show other: "drv_data (dr_heap s' x) = drv_data (dr_heap s x)" if "x \<noteq> d" for x
    using that data by (simp add: s' on_driver_def)
  show own: "dv_magic (dr_heap s' d) = 0" by (simp add: s' on_driver_def)
  have "dlist (drv_next (dr_heap s')) (drv_prev (dr_heap s')) (dr_tail s') (remove1 d xs)"
  proof -
    have "dr_tail s' = (if dr_tail s = d then drv_next h' d else dr_tail s)" by (auto simp: s')
    moreover have "drv_next (dr_heap s') = drv_next h'" "drv_prev (dr_heap s') = drv_prev h'" by (simp_all add: s' fld)
    ultimately show ?thesis using u(1) by simp
  qed
  moreover have "dv_magic (dr_heap s' x) = DRIVER_MAGIC \<longleftrightarrow> x \<in> set (remove1 d xs)" for x
    using assms(1) own drv_dataD(1) [OF other [of x]] dist
    by (cases "x = d") (auto simp: registry_def xs remove1_append)
  moreover have "ptr_ok x \<and> stamp_ok (dv_stamp (dr_heap s' x))" if "x \<in> set (remove1 d xs)" for x
    using that assms(1) drv_dataD(2) [OF other [of x]] dist
    by (cases "x = d") (auto simp: registry_def xs remove1_append)
  moreover have "stamp_ok (dr_stamp s')" using assms(1) by (simp add: s' registry_def)
  ultimately show "registry s' (remove1 d xs)" unfolding registry_def by blast
  show "same_hw s s'" "sy_mutex s' = sy_mutex s" by (simp_all add: s' same_hw_def)
qed

section \<open>Sections under a free mutex\<close>

definition mutex_free :: "nat \<Rightarrow> ptr \<Rightarrow> 'z sync_scheme \<Rightarrow> bool" where
  "mutex_free c a s \<longleftrightarrow> hw_busy s (Lock_mlock a) = 0 \<and> lock_free c (Lock_ilock a) s \<and> mx_tail (sy_mutex s a) = NULL"

lemma under_mutex_free:
  assumes "mutex_free c a s" "body (s\<lparr>hw_busy := (hw_busy s)(Lock_mlock a := 1)\<rparr>) = (err, r, s2)"
    and "same_hw (s\<lparr>hw_busy := (hw_busy s)(Lock_mlock a := 1)\<rparr>) s2" "sy_mutex s2 = sy_mutex s"
  shows "under_mutex E env c a body r0 s = Ret (err, r, hw_put (hw_busy s) (hw_outer s) (hw_if s) s2)"
proof -
  have acq: "acquire_mutex E c a s = Ret (ERR_NONE, s\<lparr>hw_busy := (hw_busy s)(Lock_mlock a := 1)\<rparr>)"
    using assms(1) by (simp add: mutex_free_def acquire_mutex_def acquire_spinlock_int_eq)
  have hw: "hw_busy s2 = (hw_busy s)(Lock_mlock a := 1)" "hw_outer s2 = hw_outer s" "hw_if s2 = hw_if s"
    using assms(3) by (simp_all add: same_hw_def)
  have "release_mutex E c a s2 = Ret (release_spinlock c (Lock_ilock a)
      (release_spinlock_int (Lock_mlock a) (snd (acquire_spinlock c (Lock_ilock a) 0 s2))))"
    using assms(1,4) by (simp add: release_mutex_def Let_def mutex_free_def)
  also have "\<dots> = Ret (hw_put (hw_busy s) (hw_outer s) (hw_if s) s2)"
  proof -
    have free: "hw_busy s (Lock_mlock a) = 0" "hw_busy s (Lock_ilock a) = 0" "hw_outer s c \<noteq> Lock_ilock a"
      "hw_outer s c = Lock_null \<Longrightarrow> hw_if s c"
      using assms(1) by (auto simp: mutex_free_def lock_free_def)
    have "hw_busy s2 (Lock_ilock a) = 0" using free(2) hw(1) by simp
    note acquire_spinlock_free [OF this]
    moreover have "((((hw_busy s)(Lock_mlock a := 1))(Lock_ilock a := 1))(Lock_mlock a := 0))(Lock_ilock a := 0) = hw_busy s"
      using free(1,2) by auto
    ultimately show ?thesis
      using free(3,4) by (cases "hw_outer s c = Lock_null") (simp_all add: release_spinlock_eq release_int_eq hw fun_upd_idem)
  qed
  finally show ?thesis using assms(1,2) by (simp add: under_mutex_def acq mutex_free_def)
qed

lemma driver_hw_put [simp]:
  "dr_heap (hw_put b r i s) = dr_heap s" "dr_tail (hw_put b r i s) = dr_tail s" "dr_stamp (hw_put b r i s) = dr_stamp s"
  "registry (hw_put b r i s) xs \<longleftrightarrow> registry s xs" "find_driver j (hw_put b r i s) = find_driver j s"
  by (simp_all add: hw_put_def registry_def find_driver_def)

lemma driver_busy [simp]:
  "registry (s\<lparr>hw_busy := b\<rparr>) xs \<longleftrightarrow> registry s xs" "find_driver j (s\<lparr>hw_busy := b\<rparr>) = find_driver j s"
  "driver_id_of d (s\<lparr>hw_busy := b\<rparr>) = driver_id_of d s"
  by (simp_all add: registry_def find_driver_def driver_id_of_def)

lemma next_driver_busy [simp]: "next_driver i type (s\<lparr>hw_busy := b\<rparr>) = next_driver i type s"
  by (simp add: next_driver_def split: sum.split)

lemma find_driver_cases:
  assumes "registry s xs"
  shows "case find_driver i s of Inl e \<Rightarrow> e = ERR_NOT_FOUND \<or> e = ERR_EXPIRED | Inr d \<Rightarrow> d \<in> set xs"
  using assms by (auto simp: registry_def find_driver_def WITH_STAMP_ID_Inr WITH_STAMP_ID_Inl split: sum.splits)

lemma find_driver_id: "registry s xs \<Longrightarrow> d \<in> set xs \<Longrightarrow> find_driver (driver_id_of d s) s = Inr d"
  by (auto simp: registry_def find_driver_def WITH_STAMP_ID_Inr driver_id_of_def dest: dlist_nonnull)

lemma driver_id_nonzero: "registry s xs \<Longrightarrow> d \<in> set xs \<Longrightarrow> driver_id_of d s \<noteq> 0"
  using get_stamp_id_ptr_inverse [of d "dv_stamp (dr_heap s d)"]
  by (auto simp: registry_def driver_id_of_def get_stamp_id_ptr_def dest: dlist_nonnull)

text \<open>Skipping finds the next driver of the type.\<close>

lemma skip_drivers_find:
  assumes "dlist (drv_next h) (drv_prev h) t (ys @ zs)"
  shows "skip_drivers h type (hd (zs @ [NULL])) =
    Some (case find (\<lambda>d. type = - 1 \<or> dv_type (h d) = type) zs of None \<Rightarrow> NULL | Some d \<Rightarrow> d)"
  using assms
proof (induction zs arbitrary: ys)
  case Nil
  then show ?case by (subst skip_drivers.simps) simp
next
  case (Cons z zs)
  have "drv_next h z = hd (zs @ [NULL])" "z \<noteq> NULL"
    using dlist_split(2) [OF Cons.prems] dlist_nonnull [OF Cons.prems, of z] by auto
  with Cons.IH [of "ys @ [z]"] Cons.prems show ?case by (subst skip_drivers.simps) auto
qed

section \<open>A concrete registry\<close>

text \<open>Two drivers, the one at \<open>0x6000\<close> added last.\<close>

definition xdriver :: "u64 \<Rightarrow> ptr \<Rightarrow> ptr \<Rightarrow> i32 \<Rightarrow> i32 \<Rightarrow> driver" where
  "xdriver magic prev nxt st type = \<lparr>dv_magic = magic, dv_prev = prev, dv_next = nxt, dv_stamp = st, dv_type = type,
     dv_scan_devices = NULL, dv_get_next_device = NULL, dv_start_device = NULL, dv_stop_device = NULL\<rparr>"

definition xregistry :: drivers where
  "xregistry = \<lparr>hw_busy = hw_busy xkm, hw_outer = hw_outer xkm, hw_if = hw_if xkm, hw_spun = hw_spun xkm,
     ks_thr = ks_thr xkm, ks_mem = ks_mem xkm, ks_cpus = ks_cpus xkm, ks_all = ks_all xkm, ks_inactive = ks_inactive xkm,
     ks_stamp = ks_stamp xkm, ks_ticks = ks_ticks xkm, ks_timer_ticks = ks_timer_ticks xkm, ks_timer_proc = ks_timer_proc xkm,
     ks_ctx = ks_ctx xkm, ks_fs_base = ks_fs_base xkm, ks_eoi = ks_eoi xkm, km_next_free = 0x10000,
     sy_mutex = \<lambda>_. \<lparr>mx_head = NULL, mx_tail = NULL, mx_pool = \<lparr>mp_block_size = 16\<rparr>\<rparr>,
     sy_nodes = \<lambda>_. \<lparr>mn_next = NULL, mn_id = 0\<rparr>,
     sy_sleep_nodes = \<lambda>_. \<lparr>sn_next = NULL, sn_thread = 0, sn_ticks = 0\<rparr>,
     sy_sleeping = \<lambda>_. \<lparr>sd_tail = NULL, sd_pool = \<lparr>mp_block_size = 24\<rparr>\<rparr>,
     dr_stamp = 2, dr_tail = 0x6000,
     dr_heap = \<lambda>a. if a = 0x6000 then xdriver DRIVER_MAGIC NULL 0x5000 1 2
       else if a = 0x5000 then xdriver DRIVER_MAGIC 0x6000 NULL 0 1 else xdriver 0 NULL NULL 0 0\<rparr>"

lemma xregistry:
  "registry xregistry [0x6000, 0x5000]" "mutex_free c a xregistry" "dr_stamp xregistry = 2"
  "driver_id_of 0x6000 xregistry = 0x0010000000006000" "driver_id_of 0x5000 xregistry = 0x5000"
  by (auto simp: registry_def xregistry_def xdriver_def dlist_def drv_next_def drv_prev_def ptr_ok_def stamp_ok_def
      mutex_free_def lock_free_def xkm_def driver_id_of_def get_stamp_id_def)

section \<open>Properties\<close>

text \<open>C18: While its mutex is free the registry works as a list of drivers. Adding an unregistered driver puts it in front and
  hands out an identifier that names it; removing a registered driver takes it out and leaves
  its identifier unknown; the other drivers and their order stay as they are. Adding a driver
  twice and removing one by an identifier that names none fail and change nothing.\<close>

theorem driver_registry_correct:
  assumes "registry s xs" "mutex_free c a s" "d \<noteq> NULL" "ptr_ok d"
  shows "(if d \<in> set xs then add_driver E env c a d s = Ret (ERR_BAD_STATE, None, s)
      else \<exists>s'. add_driver E env c a d s = Ret (ERR_NONE, Some (get_stamp_id d (dr_stamp s)), s') \<and>
        registry s' (d # xs) \<and> find_driver (get_stamp_id d (dr_stamp s)) s' = Inr d \<and> same_hw s s') \<and>
    (case find_driver i s of
      Inl e \<Rightarrow> (e = ERR_NOT_FOUND \<or> e = ERR_EXPIRED) \<and> remove_driver E env c a i s = Ret (e, (), s)
    | Inr x \<Rightarrow> x \<in> set xs \<and> (\<exists>s'. remove_driver E env c a i s = Ret (ERR_NONE, (), s') \<and>
        registry s' (remove1 x xs) \<and> find_driver i s' = Inl ERR_NOT_FOUND \<and> same_hw s s'))"
proof
  let ?s1 = "s\<lparr>hw_busy := (hw_busy s)(Lock_mlock a := 1)\<rparr>"
  let ?put = "hw_put (hw_busy s) (hw_outer s) (hw_if s)"
  have r1: "registry ?s1 xs" using assms(1) by simp
  have undo: "?put ?s1 = s" by (simp add: hw_put_def)
  have m: "d \<in> set xs \<longleftrightarrow> dv_magic (dr_heap s d) = DRIVER_MAGIC" using assms(1) by (simp add: registry_def)
  show "if d \<in> set xs then add_driver E env c a d s = Ret (ERR_BAD_STATE, None, s)
      else \<exists>s'. add_driver E env c a d s = Ret (ERR_NONE, Some (get_stamp_id d (dr_stamp s)), s') \<and>
        registry s' (d # xs) \<and> find_driver (get_stamp_id d (dr_stamp s)) s' = Inr d \<and> same_hw s s'"
  proof (cases "d \<in> set xs")
    case False
    obtain j s2 where p: "push_driver d ?s1 = (j, s2)" by fastforce
    note q = push_driver_registry [OF r1 assms(3,4) False p]
    have "under_mutex E env c a (\<lambda>s1. let (i, s2) = push_driver d s1 in (ERR_NONE, Some i, s2)) None s =
        Ret (ERR_NONE, Some j, ?put s2)"
      by (rule under_mutex_free [OF assms(2)]) (use p q(5,6) in simp_all)
    then show ?thesis using False m q(1-3) by (auto simp: add_driver_def same_hw_def)
  qed (use m in \<open>simp add: add_driver_def\<close>)
  show "case find_driver i s of
      Inl e \<Rightarrow> (e = ERR_NOT_FOUND \<or> e = ERR_EXPIRED) \<and> remove_driver E env c a i s = Ret (e, (), s)
    | Inr x \<Rightarrow> x \<in> set xs \<and> (\<exists>s'. remove_driver E env c a i s = Ret (ERR_NONE, (), s') \<and>
        registry s' (remove1 x xs) \<and> find_driver i s' = Inl ERR_NOT_FOUND \<and> same_hw s s')"
  proof (cases "find_driver i s")
    case (Inl e)
    have "remove_driver E env c a i s = Ret (e, (), ?put ?s1)"
      unfolding remove_driver_def by (rule under_mutex_free [OF assms(2)]) (simp_all add: Inl same_hw_def)
    then show ?thesis using find_driver_cases [OF assms(1), of i] Inl undo by simp
  next
    case (Inr x)
    have x: "x \<in> set xs" using find_driver_cases [OF assms(1), of i] Inr by simp
    note q = drop_driver_registry [OF r1 x]
    have "remove_driver E env c a i s = Ret (ERR_NONE, (), ?put (drop_driver x ?s1))"
      unfolding remove_driver_def by (rule under_mutex_free [OF assms(2)]) (use q(4,5) in \<open>simp_all add: Inr\<close>)
    moreover have "x = get_stamp_id_ptr i" using Inr by (simp add: find_driver_def WITH_STAMP_ID_Inr)
    then have "find_driver i (drop_driver x ?s1) = Inl ERR_NOT_FOUND"
      using q(3) by (simp add: find_driver_def WITH_STAMP_ID_Inl)
    ultimately show ?thesis using Inr x q(1) by (auto simp: same_hw_def)
  qed
qed

theorem driver_registry_correct_witness:
  "(\<exists>s'. add_driver xE id 0 0x500 0x7000 xregistry = Ret (ERR_NONE, Some 0x0020000000007000, s') \<and>
      registry s' [0x7000, 0x6000, 0x5000]) \<and>
   (\<exists>s'. remove_driver xE id 0 0x500 0x5000 xregistry = Ret (ERR_NONE, (), s') \<and> registry s' [0x6000])"
proof -
  have i: "find_driver 0x5000 xregistry = Inr 0x5000"
    using find_driver_id [OF xregistry(1), of "0x5000"] by (simp add: xregistry)
  have j: "get_stamp_id 0x7000 2 = 0x0020000000007000" by (simp add: get_stamp_id_def)
  show ?thesis
    using driver_registry_correct [OF xregistry(1,2), of "0x7000" xE id 0 "0x500" "0x5000"]
    by (auto simp: i j xregistry(3) ptr_ok_def)
qed

text \<open>C19: Enumerating, while the mutex is free: the identifier 0 gives the first driver whatever its type, the identifier
  of a registered driver gives the next one of the type asked for (any type for -1), and
  \<open>ERR_NO_MORE\<close> with the identifier 0 tells that there is none; a stale identifier is
  reported. The search ends, and the state stays as it is.\<close>

theorem get_next_driver_enumerates:
  assumes "registry s xs" "mutex_free c a s"
  shows "get_next_driver E env c a (Some 0) type s =
      (case xs of [] \<Rightarrow> Ret (ERR_NO_MORE, Some 0, s) | d # _ \<Rightarrow> Ret (ERR_NONE, Some (driver_id_of d s), s)) \<and>
    (xs = ys @ d # zs \<longrightarrow> get_next_driver E env c a (Some (driver_id_of d s)) type s =
      (case find (\<lambda>d. type = - 1 \<or> dv_type (dr_heap s d) = type) zs of
        None \<Rightarrow> Ret (ERR_NO_MORE, Some 0, s)
      | Some e \<Rightarrow> Ret (ERR_NONE, Some (driver_id_of e s), s))) \<and>
    (\<forall>e. i \<noteq> 0 \<longrightarrow> find_driver i s = Inl e \<longrightarrow> get_next_driver E env c a (Some i) type s = Ret (e, Some i, s))"
proof -
  let ?s1 = "s\<lparr>hw_busy := (hw_busy s)(Lock_mlock a := 1)\<rparr>"
  have run: "get_next_driver E env c a (Some j) type s = Ret (if err = ERR_NONE \<and> k = 0 then ERR_NO_MORE else err, Some k, s)"
    if n: "next_driver j type s = Some (err, k)" for j err k
  proof -
    have "under_mutex E env c a (\<lambda>s1. case next_driver j type s1 of
          None \<Rightarrow> (ERR_NONE, None, s1) | Some (err, j) \<Rightarrow> (err, Some j, s1)) (Some j) s =
        Ret (err, Some k, hw_put (hw_busy s) (hw_outer s) (hw_if s) ?s1)"
      by (rule under_mutex_free [OF assms(2)]) (simp_all add: n same_hw_def)
    then show ?thesis by (simp add: get_next_driver_def) (simp add: hw_put_def)
  qed
  have dl: "dlist (drv_next (dr_heap s)) (drv_prev (dr_heap s)) (dr_tail s) xs" using assms(1) by (simp add: registry_def)
  have no: "e \<noteq> ERR_NONE" if "find_driver j s = Inl e" for j e
    using find_driver_cases [OF assms(1), of j] that by auto
  have 1: "next_driver 0 type s = Some (ERR_NONE, case xs of [] \<Rightarrow> 0 | d # _ \<Rightarrow> driver_id_of d s)"
    using dl by (auto simp: next_driver_def driver_id_of_def dlist_def split: list.splits)
  have 2: "next_driver (driver_id_of d s) type s = Some (ERR_NONE,
      case find (\<lambda>d. type = - 1 \<or> dv_type (dr_heap s d) = type) zs of None \<Rightarrow> 0 | Some e \<Rightarrow> driver_id_of e s)"
    if xs: "xs = ys @ d # zs"
  proof -
    have d: "d \<in> set xs" using xs by simp
    have "skip_drivers (dr_heap s) type (drv_next (dr_heap s) d) = Some (case find (\<lambda>d. type = - 1 \<or> dv_type (dr_heap s d) = type) zs of
        None \<Rightarrow> NULL | Some d \<Rightarrow> d)"
      using skip_drivers_find [of "dr_heap s" "dr_tail s" "ys @ [d]" zs type] dl dlist_split(2) [of "drv_next (dr_heap s)" "drv_prev (dr_heap s)" "dr_tail s" ys d zs] xs by simp
    then show ?thesis
      using find_driver_id [OF assms(1) d] driver_id_nonzero [OF assms(1) d]
      by (simp add: next_driver_def split: option.splits) (simp add: driver_id_of_def)
  qed
  have 3: "next_driver i type s = Some (e, i)" if "i \<noteq> 0" "find_driver i s = Inl e" for e
    using that by (simp add: next_driver_def)
  have first: "get_next_driver E env c a (Some 0) type s =
      (case xs of [] \<Rightarrow> Ret (ERR_NO_MORE, Some 0, s) | d # _ \<Rightarrow> Ret (ERR_NONE, Some (driver_id_of d s), s))"
    using run [OF 1] driver_id_nonzero [OF assms(1)] by (cases xs) auto
  have mem: "e \<in> set zs" if "find P zs = Some e" for P e using that by (auto simp: find_Some_iff)
  have step: "get_next_driver E env c a (Some (driver_id_of d s)) type s =
      (case find (\<lambda>d. type = - 1 \<or> dv_type (dr_heap s d) = type) zs of
        None \<Rightarrow> Ret (ERR_NO_MORE, Some 0, s)
      | Some e \<Rightarrow> Ret (ERR_NONE, Some (driver_id_of e s), s))" if "xs = ys @ d # zs"
    using run [OF 2 [OF that]] driver_id_nonzero [OF assms(1)] that
    by (cases "find (\<lambda>d. type = - 1 \<or> dv_type (dr_heap s d) = type) zs") (auto dest: mem)
  show ?thesis using first step run [OF 3] no by auto
qed

theorem get_next_driver_enumerates_witness:
  "get_next_driver xE id 0 0x500 (Some 0) 1 xregistry = Ret (ERR_NONE, Some 0x0010000000006000, xregistry) \<and>
   get_next_driver xE id 0 0x500 (Some 0x0010000000006000) 1 xregistry = Ret (ERR_NONE, Some 0x5000, xregistry) \<and>
   get_next_driver xE id 0 0x500 (Some 0x5000) 1 xregistry = Ret (ERR_NO_MORE, Some 0, xregistry)"
proof -
  have t: "dv_type (dr_heap xregistry 0x5000) = 1" by (simp add: xregistry_def xdriver_def)
  show ?thesis
    using get_next_driver_enumerates [OF xregistry(1,2), where ys = "[]" and d = "0x6000" and zs = "[0x5000]" and type = 1]
      get_next_driver_enumerates [OF xregistry(1,2), where ys = "[0x6000]" and d = "0x5000" and zs = "[]" and type = 1]
    by (simp add: xregistry(4,5) t)
qed

end
