(* ===== verification/Pci.thy ===== *)
theory Pci
  imports Driver Bits
begin

text \<open>
  The PCI bus (\<open>x86_64/pci.c\<close>, \<open>x86_64/pci.h\<close>): fields of configuration registers, and the
  scan of buses, slots and functions.
\<close>

section \<open>Configuration registers\<close>

text \<open>
  The configuration mechanism has two ports: a write to the first selects a register, the
  second reads and writes the selected one. The registers are plain storage here.
\<close>

record pci = drivers +
  pc_addr :: u32
  pc_regs :: "u32 \<Rightarrow> u32"

abbreviation ADDRESS_PORT :: u16 where "ADDRESS_PORT \<equiv> 0xCF8"
abbreviation VALUE_PORT :: u16 where "VALUE_PORT \<equiv> 0xCFC"

definition outl :: "u16 \<Rightarrow> u32 \<Rightarrow> 'z pci_scheme \<Rightarrow> 'z pci_scheme" where
  "outl port v s =
     (if port = ADDRESS_PORT then s\<lparr>pc_addr := v\<rparr>
      else if port = VALUE_PORT then s\<lparr>pc_regs := (pc_regs s)(pc_addr s := v)\<rparr> else s)"

definition inl :: "u16 \<Rightarrow> 'z pci_scheme \<Rightarrow> u32" where
  "inl port s =
     (if port = ADDRESS_PORT then pc_addr s else if port = VALUE_PORT then pc_regs s (pc_addr s) else 0)"

definition get_pci_bus :: "i32 \<Rightarrow> i32" where
  "get_pci_bus device = ucast (ucast (signed_drop_bit 16 device) :: u8)"

definition get_pci_slot :: "i32 \<Rightarrow> i32" where
  "get_pci_slot device = ucast (ucast (signed_drop_bit 8 device) :: u8)"

definition get_pci_func :: "i32 \<Rightarrow> i32" where
  "get_pci_func device = ucast (ucast device :: u8)"

definition get_pci_device :: "i32 \<Rightarrow> i32 \<Rightarrow> i32 \<Rightarrow> i32" where
  "get_pci_device bus slot func = push_bit 16 bus + push_bit 8 slot + func"

abbreviation PCI_FIELD_VENDOR_ID :: i32 where "PCI_FIELD_VENDOR_ID \<equiv> 0x00000F"
abbreviation PCI_FIELD_SUBCLASS :: i32 where "PCI_FIELD_SUBCLASS \<equiv> 0x021017"
abbreviation PCI_FIELD_CLASS :: i32 where "PCI_FIELD_CLASS \<equiv> 0x02181F"
abbreviation PCI_FIELD_MULTIPLE_FUNCTIONS :: i32 where "PCI_FIELD_MULTIPLE_FUNCTIONS \<equiv> 0x031717"
abbreviation PCI_FIELD_SECONDARY_BUS :: i32 where "PCI_FIELD_SECONDARY_BUS \<equiv> 0x06080F"
abbreviation PCI_FIELD_BAR5 :: i32 where "PCI_FIELD_BAR5 \<equiv> 0x09001F"
abbreviation PCI_TYPE_PCI_TO_PCI_BRIDGE :: i32 where "PCI_TYPE_PCI_TO_PCI_BRIDGE \<equiv> 0x0604"
abbreviation PCI_TYPE_SERIAL_ATA :: i32 where "PCI_TYPE_SERIAL_ATA \<equiv> 0x0106"

definition get_addr :: "i32 \<Rightarrow> i32 \<Rightarrow> u32" where
  "get_addr device field =
     (let reg = ucast (ucast (signed_drop_bit 16 field) :: u8) :: i32 in
      0x80000000 OR push_bit 16 (get_pci_bus device) OR push_bit 11 (get_pci_slot device) OR
      push_bit 8 (get_pci_func device) OR push_bit 2 reg)"

text \<open>A field: its register, its lowest and its highest bit, one byte each.\<close>

definition field_high :: "i32 \<Rightarrow> nat" where "field_high field = unat (ucast field :: u8)"
definition field_low :: "i32 \<Rightarrow> nat" where "field_low field = unat (ucast (signed_drop_bit 8 field) :: u8)"

definition read_pci_field :: "i32 \<Rightarrow> i32 \<Rightarrow> 'z pci_scheme \<Rightarrow> u32 \<times> 'z pci_scheme" where
  "read_pci_field device field s =
     (let s1 = outl ADDRESS_PORT (get_addr device field) s in
      (INT_BITS (inl VALUE_PORT s1) (field_low field) (field_high field), s1))"

definition write_pci_field :: "i32 \<Rightarrow> i32 \<Rightarrow> u32 \<Rightarrow> 'z pci_scheme \<Rightarrow> 'z pci_scheme" where
  "write_pci_field device field v s =
     (let high_bit = field_high field; low_bit = field_low field;
          s1 = outl ADDRESS_PORT (get_addr device field) s;
          v1 = (if 0 < low_bit \<or> high_bit < 31 then
                  let prev = inl VALUE_PORT s1;
                      n1 = (if 0 < low_bit then 0 OR INT_BITS prev 0 (low_bit - 1) else 0);
                      n2 = n1 OR push_bit low_bit v in
                  if high_bit < 31 then n2 OR push_bit (high_bit + 1) (INT_BITS prev (high_bit + 1) 31) else n2
                else v) in
      outl VALUE_PORT v1 s1)"

definition get_pci_type :: "i32 \<Rightarrow> 'z pci_scheme \<Rightarrow> i32 \<times> 'z pci_scheme" where
  "get_pci_type device s =
     (let (cls, s1) = read_pci_field device PCI_FIELD_CLASS s;
          (sub, s2) = read_pci_field device PCI_FIELD_SUBCLASS s1 in
      (push_bit 8 cls OR sub, s2))"

section \<open>Scanning\<close>

text \<open>
  \<open>scan\<close> is the scan of a bus that a bridge calls for; fuel bounds the bridges passed on the
  way to a bus, \<open>None\<close> is running out of it. The procedure may change the state.
\<close>

definition scan_func ::
  "(i32 \<Rightarrow> 'z pci_scheme \<Rightarrow> 'z pci_scheme option) \<Rightarrow> (i32 \<Rightarrow> 'z pci_scheme \<Rightarrow> 'z pci_scheme) \<Rightarrow> i32 \<Rightarrow>
   i32 \<Rightarrow> i32 \<Rightarrow> i32 \<Rightarrow> 'z pci_scheme \<Rightarrow> 'z pci_scheme option" where
  "scan_func scan proc type bus slot func s =
     (let dev = get_pci_device bus slot func;
          (call, s1) = (if type = - 1 then (True, s) else let (t, s1) = get_pci_type dev s in (type = t, s1));
          s2 = (if call then proc dev s1 else s1);
          (t, s3) = get_pci_type dev s2 in
      if t = PCI_TYPE_PCI_TO_PCI_BRIDGE then
        let (b, s4) = read_pci_field dev PCI_FIELD_SECONDARY_BUS s3 in scan b s4
      else Some s3)"

text \<open>A loop over a list of numbers.\<close>

fun for_each :: "('i \<Rightarrow> 's \<Rightarrow> 's option) \<Rightarrow> 'i list \<Rightarrow> 's \<Rightarrow> 's option" where
  "for_each f [] s = Some s"
| "for_each f (i # is) s = Option.bind (f i s) (for_each f is)"

definition scan_slot ::
  "(i32 \<Rightarrow> 'z pci_scheme \<Rightarrow> 'z pci_scheme option) \<Rightarrow> (i32 \<Rightarrow> 'z pci_scheme \<Rightarrow> 'z pci_scheme) \<Rightarrow> i32 \<Rightarrow>
   i32 \<Rightarrow> i32 \<Rightarrow> 'z pci_scheme \<Rightarrow> 'z pci_scheme option" where
  "scan_slot scan proc type bus slot s =
     (let dev = get_pci_device bus slot 0;
          (vendor, s1) = read_pci_field dev PCI_FIELD_VENDOR_ID s in
      if vendor = 0xFFFF then Some s1
      else
        Option.bind (scan_func scan proc type bus slot 0 s1) (\<lambda>s2.
          let (multi, s3) = read_pci_field dev PCI_FIELD_MULTIPLE_FUNCTIONS s2 in
          if multi = 0 then Some s3
          else for_each (\<lambda>func s.
              let (vendor, s1) = read_pci_field (get_pci_device bus slot func) PCI_FIELD_VENDOR_ID s in
              if vendor \<noteq> 0xFFFF then scan_func scan proc type bus slot func s1 else Some s1)
            [1, 2, 3, 4, 5, 6, 7] s3))"

fun scan_bus ::
  "nat \<Rightarrow> (i32 \<Rightarrow> 'z pci_scheme \<Rightarrow> 'z pci_scheme) \<Rightarrow> i32 \<Rightarrow> i32 \<Rightarrow> 'z pci_scheme \<Rightarrow> 'z pci_scheme option" where
  "scan_bus 0 proc type bus s = None"
| "scan_bus (Suc n) proc type bus s =
     for_each (\<lambda>slot. scan_slot (scan_bus n proc type) proc type bus (word_of_nat slot)) [0..<32] s"

text \<open>The loop of \<open>scan_pci\<close> stops at the first function of the host controller that is missing.\<close>

fun scan_hosts ::
  "nat \<Rightarrow> (i32 \<Rightarrow> 'z pci_scheme \<Rightarrow> 'z pci_scheme) \<Rightarrow> i32 \<Rightarrow> i32 list \<Rightarrow> 'z pci_scheme \<Rightarrow> 'z pci_scheme option" where
  "scan_hosts n proc type [] s = Some s"
| "scan_hosts n proc type (func # fs) s =
     (let (vendor, s1) = read_pci_field (get_pci_device 0 0 func) PCI_FIELD_VENDOR_ID s in
      if vendor \<noteq> 0xFFFF then Option.bind (scan_bus n proc type func s1) (scan_hosts n proc type fs) else Some s1)"

definition scan_pci ::
  "nat \<Rightarrow> (i32 \<Rightarrow> 'z pci_scheme \<Rightarrow> 'z pci_scheme) \<Rightarrow> i32 \<Rightarrow> 'z pci_scheme \<Rightarrow> 'z pci_scheme option" where
  "scan_pci n proc type s =
     Option.bind (scan_bus n proc type 0 s) (\<lambda>s1.
       let (multi, s2) = read_pci_field 0 PCI_FIELD_MULTIPLE_FUNCTIONS s1 in
       if multi = 0 then Some s2 else scan_hosts n proc type [1, 2, 3, 4, 5, 6, 7] s2)"

text \<open>\<open>init_pci\<close> only logs what the scan finds; the log is off unless the kernel is a debug build.\<close>

definition init_pci :: "nat \<Rightarrow> 'z pci_scheme \<Rightarrow> 'z pci_scheme option" where
  "init_pci n s = scan_pci n (\<lambda>device s. s) (- 1) s"

end
