(* ===== verification/Interrupt.thy ===== *)
theory Interrupt
  imports Pci
begin

text \<open>
  The descriptor tables and the interrupt handlers (\<open>x86_64/interrupt.c\<close>, the structures of
  \<open>x86_64/cpu.h\<close>): gates, segment and task descriptors, the stacks handlers run on.
\<close>

section \<open>Vectors\<close>

abbreviation INT_VECTORS :: nat where "INT_VECTORS \<equiv> 35"
abbreviation INT_VECTOR_APIC_SPURIOUS :: nat where "INT_VECTOR_APIC_SPURIOUS \<equiv> 32"
abbreviation INT_VECTOR_APIC_TIMER :: nat where "INT_VECTOR_APIC_TIMER \<equiv> 33"
abbreviation INT_VECTOR_SCHEDULER_TASK :: nat where "INT_VECTOR_SCHEDULER_TASK \<equiv> 34"

definition is_int_reserved :: "nat \<Rightarrow> bool" where
  "is_int_reserved vector \<longleftrightarrow> vector = 15 \<or> (20 \<le> vector \<and> vector \<le> 31)"

definition is_int_error :: "nat \<Rightarrow> bool" where
  "is_int_error vector \<longleftrightarrow> vector = 8 \<or> (10 \<le> vector \<and> vector \<le> 14) \<or> vector = 17"

section \<open>Tables, \<open>cpu.h\<close>\<close>

record task_segment =
  ts_reserved0 :: u32
  ts_rsps :: "u64 list"
  ts_reserved1 :: u64
  ts_ists :: "u64 list"
  ts_reserved2 :: u64
  ts_reserved3 :: u16
  ts_iomap :: u16

record gdt_desc =
  gd_limit0 :: u16
  gd_base0 :: u16
  gd_base1 :: u8
  gd_type :: "4 word"
  gd_nonsys :: bool
  gd_dpl :: "2 word"
  gd_present :: bool
  gd_limit1 :: "4 word"
  gd_avl :: bool
  gd_bits64 :: bool
  gd_bits32 :: bool
  gd_gran :: bool
  gd_base2 :: u8

record gdt_desc2 =
  g2_base :: gdt_desc
  g2_base3 :: u32
  g2_reserved0 :: u8
  g2_zero :: "5 word"
  g2_reserved :: "19 word"

record idt_desc =
  id_handler0 :: u16
  id_cs :: u16
  id_ist :: "3 word"
  id_reserved0 :: "5 word"
  id_type :: "4 word"
  id_zero :: bool
  id_dpl :: "2 word"
  id_present :: bool
  id_handler1 :: u16
  id_handler2 :: u32
  id_reserved1 :: u32

record cpu_table_info =
  ti_limit :: u16
  ti_base :: u64

abbreviation GDT_DESC_SIZE :: nat where "GDT_DESC_SIZE \<equiv> 8"
abbreviation GDT_DESC2_SIZE :: nat where "GDT_DESC2_SIZE \<equiv> 16"
abbreviation IDT_DESC_SIZE :: nat where "IDT_DESC_SIZE \<equiv> 16"
abbreviation GDT_SEGMENT_CODE :: "4 word" where "GDT_SEGMENT_CODE \<equiv> 0xA"
abbreviation GDT_SEGMENT_DATA :: "4 word" where "GDT_SEGMENT_DATA \<equiv> 0x2"
abbreviation GDT_SEGMENT_TSS :: "4 word" where "GDT_SEGMENT_TSS \<equiv> 0x9"
abbreviation IDT_GATE_INT :: "4 word" where "IDT_GATE_INT \<equiv> 0xE"
abbreviation CODE_SEGMENT :: u16 where "CODE_SEGMENT \<equiv> 8"
abbreviation CONFIG_ISR_STACK_SIZE :: nat where "CONFIG_ISR_STACK_SIZE \<equiv> 0x1000"
abbreviation SIZEOF_TASK_SEGMENT :: nat where "SIZEOF_TASK_SEGMENT \<equiv> 104"

definition zero_task_segment :: task_segment where
  "zero_task_segment = \<lparr>ts_reserved0 = 0, ts_rsps = replicate 3 0, ts_reserved1 = 0, ts_ists = replicate 7 0,
     ts_reserved2 = 0, ts_reserved3 = 0, ts_iomap = 0\<rparr>"

definition zero_gdt_desc :: gdt_desc where
  "zero_gdt_desc = \<lparr>gd_limit0 = 0, gd_base0 = 0, gd_base1 = 0, gd_type = 0, gd_nonsys = False, gd_dpl = 0,
     gd_present = False, gd_limit1 = 0, gd_avl = False, gd_bits64 = False, gd_bits32 = False, gd_gran = False,
     gd_base2 = 0\<rparr>"

definition zero_gdt_desc2 :: gdt_desc2 where
  "zero_gdt_desc2 = \<lparr>g2_base = zero_gdt_desc, g2_base3 = 0, g2_reserved0 = 0, g2_zero = 0, g2_reserved = 0\<rparr>"

definition zero_idt_desc :: idt_desc where
  "zero_idt_desc = \<lparr>id_handler0 = 0, id_cs = 0, id_ist = 0, id_reserved0 = 0, id_type = 0, id_zero = False,
     id_dpl = 0, id_present = False, id_handler1 = 0, id_handler2 = 0, id_reserved1 = 0\<rparr>"

section \<open>State\<close>

text \<open>
  The page map, the variables of \<open>interrupt.c\<close>, the part of \<open>__gdt\<close> that holds the task
  segments' descriptors, the task segments by address, and each CPU's table registers.
\<close>

record interrupts = pci +
  in_descs :: descs
  in_isr_stacks :: ptr
  in_task_segments :: ptr
  in_tss :: "ptr \<Rightarrow> task_segment"
  in_gdt2 :: "nat \<Rightarrow> gdt_desc2"
  in_idt :: "nat \<Rightarrow> idt_desc"
  in_gdtr :: "nat \<Rightarrow> cpu_table_info"
  in_idtr :: "nat \<Rightarrow> cpu_table_info"
  in_tr :: "nat \<Rightarrow> u16"

section \<open>Handlers\<close>

text \<open>The gates exist for the 35 vectors; any other is outside the array.\<close>

definition on_gate :: "nat \<Rightarrow> (idt_desc \<Rightarrow> idt_desc) \<Rightarrow> 'z interrupts_scheme \<Rightarrow> 'z interrupts_scheme" where
  "on_gate vector f s = s\<lparr>in_idt := (in_idt s)(vector := f (in_idt s vector))\<rparr>"

definition get_isr :: "nat \<Rightarrow> 'z interrupts_scheme \<Rightarrow> ptr" where
  "get_isr vector s =
     (let desc = in_idt s vector in
      ucast (id_handler0 desc) + push_bit 16 (ucast (id_handler1 desc)) + push_bit 32 (ucast (id_handler2 desc)))"

definition set_isr :: "nat \<Rightarrow> ptr \<Rightarrow> 'z interrupts_scheme \<Rightarrow> 'z interrupts_scheme" where
  "set_isr vector isr s =
     on_gate vector (\<lambda>desc. desc\<lparr>id_present := isr \<noteq> 0, id_handler0 := ucast isr,
       id_handler1 := ucast (drop_bit 16 isr), id_handler2 := ucast (drop_bit 32 isr)\<rparr>) s"

text \<open>The vectors with a default handler, in the order they are installed.\<close>

definition default_vectors :: "nat list" where
  "default_vectors = [0, 2, 3, 4, 5, 6, 7, 8, 10, 11, 12, 13, 14, 16, 17, 18, 19]"

text \<open>\<open>isr v\<close> is the entry address the wrapper of the vector's default handler returns.\<close>

definition create_idt :: "(nat \<Rightarrow> ptr) \<Rightarrow> 'z interrupts_scheme \<Rightarrow> 'z interrupts_scheme" where
  "create_idt isr s =
     (let s1 = fold (\<lambda>i s. if \<not> is_int_reserved i then
            on_gate i (\<lambda>_. zero_idt_desc\<lparr>id_cs := CODE_SEGMENT, id_ist := 1, id_type := IDT_GATE_INT,
              id_present := False\<rparr>) s else s) [0..<INT_VECTORS] s in
      fold (\<lambda>v. set_isr v (isr v)) default_vectors s1)"

section \<open>Task segments\<close>

definition create_task_segment :: "nat \<Rightarrow> 'z interrupts_scheme \<Rightarrow> 'z interrupts_scheme" where
  "create_task_segment i s =
     (let tss_addr = in_task_segments s + word_of_nat (i * SIZEOF_TASK_SEGMENT);
          s1 = s\<lparr>in_tss := (in_tss s)(tss_addr := (in_tss s tss_addr)
                 \<lparr>ts_ists := (ts_ists (in_tss s tss_addr))
                    [0 := in_isr_stacks s + word_of_nat ((i + 1) * CONFIG_ISR_STACK_SIZE)]\<rparr>)\<rparr> in
      s1\<lparr>in_gdt2 := (in_gdt2 s1)(i := zero_gdt_desc2
        \<lparr>g2_base := zero_gdt_desc\<lparr>gd_type := GDT_SEGMENT_TSS, gd_nonsys := False, gd_present := True,
             gd_base0 := ucast tss_addr, gd_base1 := ucast (drop_bit 16 tss_addr),
             gd_limit0 := word_of_nat (SIZEOF_TASK_SEGMENT - 1), gd_base2 := ucast (drop_bit 24 tss_addr)\<rparr>,
         g2_base3 := ucast (drop_bit 32 tss_addr)\<rparr>)\<rparr>)"

definition create_gdt :: "machine \<Rightarrow> nat \<Rightarrow> 'z interrupts_scheme \<Rightarrow> 'z interrupts_scheme outcome" where
  "create_gdt E c s =
     (let cpus = m_cpus E;
          (p, s1) = kmalloc c (word_of_nat (cpus * CONFIG_ISR_STACK_SIZE)) s;
          s2 = s1\<lparr>in_isr_stacks := p\<rparr>;
          (q, s3) = kmalloc c (word_of_nat (cpus * SIZEOF_TASK_SEGMENT)) s2;
          s4 = s3\<lparr>in_task_segments := q\<rparr> in
      if in_isr_stacks s4 = NULL \<or> in_task_segments s4 = NULL then Halted
      else
        let s5 = fold (\<lambda>i s. s\<lparr>in_tss := (in_tss s)(in_task_segments s + word_of_nat (i * SIZEOF_TASK_SEGMENT)
                   := zero_task_segment)\<rparr>) [0..<cpus] s4 in
        Ret (fold create_task_segment [0..<cpus] s5))"

text \<open>\<open>gdt\<close> and \<open>idt\<close> are the addresses of the two tables.\<close>

definition load_gdt_idt_tr :: "machine \<Rightarrow> u64 \<Rightarrow> u64 \<Rightarrow> nat \<Rightarrow> 'z interrupts_scheme \<Rightarrow> 'z interrupts_scheme" where
  "load_gdt_idt_tr E gdt idt c s =
     (let gdti = \<lparr>ti_limit = word_of_nat (3 * GDT_DESC_SIZE + m_cpus E * GDT_DESC2_SIZE - 1), ti_base = gdt\<rparr>;
          idti = \<lparr>ti_limit = word_of_nat (IDT_DESC_SIZE * INT_VECTORS - 1), ti_base = idt\<rparr>;
          sel = word_of_nat (GDT_DESC_SIZE * 3 + GDT_DESC2_SIZE * c) in
      s\<lparr>in_gdtr := (in_gdtr s)(c := gdti), in_idtr := (in_idtr s)(c := idti), in_tr := (in_tr s)(c := sel)\<rparr>)"

definition init_interrupts ::
  "machine \<Rightarrow> u64 \<Rightarrow> u64 \<Rightarrow> (nat \<Rightarrow> ptr) \<Rightarrow> nat \<Rightarrow> 'z interrupts_scheme \<Rightarrow> 'z interrupts_scheme outcome" where
  "init_interrupts E gdt idt isr c s =
     obind (if c = m_bsp_cpu E then obind (create_gdt E c s) (\<lambda>s1. Ret (create_idt isr s1)) else Ret s)
       (\<lambda>s1. Ret (load_gdt_idt_tr E gdt idt c s1))"

section \<open>Gates\<close>

lemma bit_ucast_u64: "bit (ucast (w :: 'a::len word) :: u64) n \<longleftrightarrow> n < 64 \<and> bit w n"
  by (auto simp: bit_simps)

lemma split_address:
  fixes h :: u64
  shows "ucast (ucast h :: u16) + push_bit 16 (ucast (ucast (drop_bit 16 h) :: u16)) +
    push_bit 32 (ucast (ucast (drop_bit 32 h) :: u32)) = h"
proof -
  let ?a = "ucast (ucast h :: u16) :: u64" and ?b = "push_bit 16 (ucast (ucast (drop_bit 16 h) :: u16)) :: u64"
    and ?c = "push_bit 32 (ucast (ucast (drop_bit 32 h) :: u32)) :: u64"
  have "?a AND ?b = 0" by (rule bit_word_eqI) (auto simp: bit_simps)
  then have ab: "?a + ?b = ?a OR ?b" by (rule disjunctive_add_eq_or)
  have "(?a OR ?b) AND ?c = 0" by (rule bit_word_eqI) (auto simp: bit_simps)
  then have "?a + ?b + ?c = ?a OR ?b OR ?c" unfolding ab by (simp add: disjunctive_add_eq_or or.assoc)
  also have "\<dots> = h"
  proof (rule bit_word_eqI)
    fix n assume "n < LENGTH(64)"
    then consider "n < 16" | "16 \<le> n" "n < 32" | "32 \<le> n" "n < 64" by fastforce
    then show "bit (?a OR ?b OR ?c) n \<longleftrightarrow> bit h n" by cases (auto simp: bit_simps)
  qed
  finally show ?thesis .
qed

lemma get_set_isr: "get_isr w (set_isr v h s) = (if w = v then h else get_isr w s)"
  using split_address [of h] by (simp add: get_isr_def set_isr_def on_gate_def)

definition gate_ok :: "idt_desc \<Rightarrow> bool" where
  "gate_ok d \<longleftrightarrow> id_cs d = CODE_SEGMENT \<and> id_ist d = 1 \<and> id_type d = IDT_GATE_INT \<and> id_dpl d = 0 \<and> \<not> id_zero d"

lemma set_isr_gate:
  "gate_ok (in_idt (set_isr v h s) w) \<longleftrightarrow> gate_ok (in_idt s w)"
  "id_present (in_idt (set_isr v h s) w) \<longleftrightarrow> (if w = v then h \<noteq> 0 else id_present (in_idt s w))"
  "in_idt (set_isr v h s) w = (if w = v then in_idt (set_isr v h s) v else in_idt s w)"
  by (auto simp: set_isr_def on_gate_def gate_ok_def)

lemma set_isrs:
  assumes "distinct vs"
  shows "get_isr w (fold (\<lambda>v. set_isr v (isr v)) vs s) = (if w \<in> set vs then isr w else get_isr w s)"
    "id_present (in_idt (fold (\<lambda>v. set_isr v (isr v)) vs s) w) = (if w \<in> set vs then isr w \<noteq> 0 else id_present (in_idt s w))"
    "gate_ok (in_idt (fold (\<lambda>v. set_isr v (isr v)) vs s) w) = gate_ok (in_idt s w)"
  using assms by (induction vs arbitrary: s) (auto simp: get_set_isr set_isr_gate(1,2))

lemma init_gates:
  "in_idt (fold (\<lambda>i s. if \<not> is_int_reserved i then on_gate i (\<lambda>_. g) s else s) vs s) w =
    (if w \<in> set vs \<and> \<not> is_int_reserved w then g else in_idt s w)"
  by (induction vs arbitrary: s) (auto simp: on_gate_def)

lemma default_vectors: "distinct default_vectors" "v \<in> set default_vectors \<Longrightarrow> v < INT_VECTORS \<and> \<not> is_int_reserved v"
  by (auto simp: default_vectors_def is_int_reserved_def)

lemma create_idt_gates:
  assumes "v < INT_VECTORS" "\<not> is_int_reserved v"
  shows "gate_ok (in_idt (create_idt isr s) v)"
    "get_isr v (create_idt isr s) = (if v \<in> set default_vectors then isr v else NULL)"
    "id_present (in_idt (create_idt isr s) v) \<longleftrightarrow> v \<in> set default_vectors \<and> isr v \<noteq> NULL"
proof -
  let ?g = "zero_idt_desc\<lparr>id_cs := CODE_SEGMENT, id_ist := 1, id_type := IDT_GATE_INT, id_present := False\<rparr>"
  have g: "v \<in> set [0..<INT_VECTORS] \<and> \<not> is_int_reserved v" using assms by simp
  note d = set_isrs [OF default_vectors(1)] and i = init_gates [of ?g]
  show "gate_ok (in_idt (create_idt isr s) v)"
    unfolding create_idt_def Let_def d i using g by (simp add: gate_ok_def zero_idt_desc_def)
  show "get_isr v (create_idt isr s) = (if v \<in> set default_vectors then isr v else NULL)"
    unfolding create_idt_def Let_def d(1) using g by (simp add: get_isr_def i zero_idt_desc_def)
  show "id_present (in_idt (create_idt isr s) v) \<longleftrightarrow> v \<in> set default_vectors \<and> isr v \<noteq> NULL"
    unfolding create_idt_def Let_def d i using g by (simp add: zero_idt_desc_def)
qed

lemma create_idt_reserved: "is_int_reserved v \<Longrightarrow> in_idt (create_idt isr s) v = in_idt s v"
proof -
  assume v: "is_int_reserved v"
  have "in_idt (fold (\<lambda>v. set_isr v (isr v)) vs s') v = in_idt s' v" if "v \<notin> set vs" for vs and s' :: "'a interrupts_scheme"
    using that by (induction vs arbitrary: s') (simp_all add: set_isr_def on_gate_def)
  moreover have "v \<notin> set default_vectors" using v default_vectors(2) by blast
  ultimately show ?thesis using v by (simp add: create_idt_def Let_def init_gates)
qed

section \<open>Task descriptors\<close>

definition tss_base :: "gdt_desc2 \<Rightarrow> u64" where
  "tss_base d = ucast (gd_base0 (g2_base d)) OR push_bit 16 (ucast (gd_base1 (g2_base d))) OR
     push_bit 24 (ucast (gd_base2 (g2_base d))) OR push_bit 32 (ucast (g2_base3 d))"

definition tss_desc_ok :: "gdt_desc2 \<Rightarrow> bool" where
  "tss_desc_ok d \<longleftrightarrow> gd_present (g2_base d) \<and> \<not> gd_nonsys (g2_base d) \<and> gd_type (g2_base d) = GDT_SEGMENT_TSS \<and>
     unat (gd_limit0 (g2_base d)) = SIZEOF_TASK_SEGMENT - 1 \<and> gd_limit1 (g2_base d) = 0 \<and> \<not> gd_gran (g2_base d) \<and> g2_zero d = 0"

lemma join_address:
  fixes a :: u64
  shows "ucast (ucast a :: u16) OR push_bit 16 (ucast (ucast (drop_bit 16 a) :: u8)) OR
    push_bit 24 (ucast (ucast (drop_bit 24 a) :: u8)) OR push_bit 32 (ucast (ucast (drop_bit 32 a) :: u32)) = a"
    (is "?a = a")
proof (rule bit_word_eqI)
  fix n assume "n < LENGTH(64)"
  then consider "n < 16" | "16 \<le> n" "n < 24" | "24 \<le> n" "n < 32" | "32 \<le> n" "n < 64" by fastforce
  then show "bit ?a n \<longleftrightarrow> bit a n" by cases (auto simp: bit_simps)
qed

definition tss_at :: "'z interrupts_scheme \<Rightarrow> nat \<Rightarrow> ptr" where
  "tss_at s i = in_task_segments s + word_of_nat (i * SIZEOF_TASK_SEGMENT)"

lemma tss_at_inj: "i < 2 ^ 50 \<Longrightarrow> j < 2 ^ 50 \<Longrightarrow> tss_at s i = tss_at s j \<longleftrightarrow> i = j"
  unfolding tss_at_def by (subst addr_inj) auto

lemma create_task_segment_eq:
  shows "in_task_segments (create_task_segment i s) = in_task_segments s"
    "in_isr_stacks (create_task_segment i s) = in_isr_stacks s"
    "in_idt (create_task_segment i s) = in_idt s"
    "in_tss (create_task_segment i s) a = (if a = tss_at s i then (in_tss s a)\<lparr>ts_ists := (ts_ists (in_tss s a))
       [0 := in_isr_stacks s + word_of_nat ((i + 1) * CONFIG_ISR_STACK_SIZE)]\<rparr> else in_tss s a)"
    "tss_base (in_gdt2 (create_task_segment i s) i) = tss_at s i"
    "tss_desc_ok (in_gdt2 (create_task_segment i s) i)"
    "j \<noteq> i \<Longrightarrow> in_gdt2 (create_task_segment i s) j = in_gdt2 s j"
  by (simp_all add: create_task_segment_def Let_def tss_at_def tss_base_def tss_desc_ok_def zero_gdt_desc_def
      zero_gdt_desc2_def join_address)

definition fresh_tss :: "u64 \<Rightarrow> task_segment" where
  "fresh_tss stack_top = zero_task_segment\<lparr>ts_ists := [stack_top, 0, 0, 0, 0, 0, 0]\<rparr>"

lemma ists: "(replicate 7 (0 :: u64))[0 := x] = [x, 0, 0, 0, 0, 0, 0]"
  by (simp add: numeral_eq_Suc)

definition tss_ready :: "'z interrupts_scheme \<Rightarrow> nat \<Rightarrow> bool" where
  "tss_ready s i \<longleftrightarrow> tss_base (in_gdt2 s i) = tss_at s i \<and> tss_desc_ok (in_gdt2 s i) \<and>
     in_tss s (tss_at s i) = fresh_tss (in_isr_stacks s + word_of_nat ((i + 1) * CONFIG_ISR_STACK_SIZE))"

lemma create_task_segments:
  assumes "n < 2 ^ 50" "\<And>i. i < n \<Longrightarrow> in_tss s (tss_at s i) = zero_task_segment"
    and "s' = fold create_task_segment [0..<n] s"
  shows "in_task_segments s' = in_task_segments s \<and> in_isr_stacks s' = in_isr_stacks s \<and> in_idt s' = in_idt s \<and>
    (\<forall>i<n. tss_ready s' i) \<and> (\<forall>a. (\<forall>i<n. a \<noteq> tss_at s i) \<longrightarrow> in_tss s' a = in_tss s a)"
  using assms
proof (induction n arbitrary: s')
  case (Suc n)
  let ?s1 = "fold create_task_segment [0..<n] s"
  have n: "n < 2 ^ 50" "\<And>i. i < n \<Longrightarrow> in_tss s (tss_at s i) = zero_task_segment" using Suc.prems(1,2) by (simp_all add: less_SucI)
  have ih: "in_task_segments ?s1 = in_task_segments s" "in_isr_stacks ?s1 = in_isr_stacks s" "in_idt ?s1 = in_idt s"
    "\<forall>i<n. tss_ready ?s1 i" "\<forall>a. (\<forall>i<n. a \<noteq> tss_at s i) \<longrightarrow> in_tss ?s1 a = in_tss s a"
    using Suc.IH [OF n refl] by auto
  have s': "s' = create_task_segment n ?s1" using Suc.prems(3) by simp
  have at: "tss_at ?s1 = tss_at s" "tss_at s' = tss_at s" by (auto simp: s' tss_at_def ih create_task_segment_eq)
  have diff: "tss_at s i \<noteq> tss_at s n" if "i < n" for i using that Suc.prems(1) by (subst tss_at_inj) auto
  have zero: "in_tss ?s1 (tss_at s n) = zero_task_segment"
    using ih(5) diff Suc.prems(2) [of n] by (metis lessI)
  have "tss_ready s' n"
    using zero by (simp add: tss_ready_def s' create_task_segment_eq ih at [unfolded s'] at(1) fresh_tss_def
        zero_task_segment_def ists)
  moreover have "tss_ready s' i" if "i < n" for i
    using ih(4) that diff [OF that] by (simp add: tss_ready_def s' create_task_segment_eq ih at [unfolded s'] at(1))
  ultimately have "\<forall>i<Suc n. tss_ready s' i" by (simp add: less_Suc_eq)
  moreover have "in_tss s' a = in_tss s a" if "\<forall>i<Suc n. a \<noteq> tss_at s i" for a
    using that ih(5) by (simp add: s' create_task_segment_eq at(1) [unfolded s'])
  ultimately show ?case by (simp add: s' create_task_segment_eq ih)
qed simp

text \<open>The whole of the tables, once a boot CPU has set them up.\<close>

lemma create_gdt_ready:
  assumes "lock_free c Lock_mem s" "m_cpus E \<le> CONFIG_MAX_CPUS" "km_next_free s \<noteq> NULL" "0 < m_cpus E"
    and "unat (km_next_free s) + m_cpus E * (CONFIG_ISR_STACK_SIZE + SIZEOF_TASK_SEGMENT) < 2 ^ 64"
  obtains s' where "create_gdt E c s = Ret s'" "\<forall>i<m_cpus E. tss_ready s' i" "in_idt s' = in_idt s"
    "in_isr_stacks s' = km_next_free s"
    "unat (in_task_segments s') = unat (km_next_free s) + m_cpus E * CONFIG_ISR_STACK_SIZE"
proof -
  let ?n = "m_cpus E"
  let ?p = "km_next_free s" and ?q = "km_next_free s + word_of_nat (?n * CONFIG_ISR_STACK_SIZE)"
  define s2 where "s2 = s\<lparr>km_next_free := ?q, in_isr_stacks := ?p\<rparr>"
  define s4 where "s4 = s2\<lparr>km_next_free := ?q + word_of_nat (?n * SIZEOF_TASK_SEGMENT), in_task_segments := ?q\<rparr>"
  define s5 where "s5 = fold (\<lambda>i s. s\<lparr>in_tss := (in_tss s)(in_task_segments s + word_of_nat (i * SIZEOF_TASK_SEGMENT)
                   := zero_task_segment)\<rparr>) [0..<?n] s4"
  have q: "unat ?q = unat ?p + ?n * CONFIG_ISR_STACK_SIZE" by (rule unat_addr) (use assms(5) in simp)
  then have "?q \<noteq> NULL" using assms(4) by (metis add_is_0 mult_is_0 not_gr_zero unat_0 zero_neq_numeral)
  have k2: "kmalloc c (word_of_nat (?n * CONFIG_ISR_STACK_SIZE)) s = (?p, s\<lparr>km_next_free := ?q\<rparr>)"
    by (rule kmalloc_eq [OF assms(1)])
  have "lock_free c Lock_mem s2" using assms(1) by (simp add: lock_free_def s2_def)
  from kmalloc_eq [OF this]
  have k4: "kmalloc c (word_of_nat (?n * SIZEOF_TASK_SEGMENT)) s2 =
      (?q, s2\<lparr>km_next_free := ?q + word_of_nat (?n * SIZEOF_TASK_SEGMENT)\<rparr>)"
    by (simp add: s2_def)
  have run: "create_gdt E c s = Ret (fold create_task_segment [0..<?n] s5)"
    using \<open>?q \<noteq> NULL\<close> assms(3) k4 unfolding create_gdt_def Let_def k2 prod.case s2_def [symmetric] s5_def s4_def
    by (simp add: s2_def)
  have z: "in_task_segments z' = in_task_segments z \<and> in_isr_stacks z' = in_isr_stacks z \<and> in_idt z' = in_idt z \<and>
      (\<forall>i<n. in_tss z' (tss_at z i) = zero_task_segment)"
    if "z' = fold (\<lambda>i s. s\<lparr>in_tss := (in_tss s)(in_task_segments s + word_of_nat (i * SIZEOF_TASK_SEGMENT)
                   := zero_task_segment)\<rparr>) [0..<n] z" for n and z z' :: "'a interrupts_scheme"
    using that by (induction n arbitrary: z') (auto simp: tss_at_def less_Suc_eq)
  note z5 = z [OF s5_def]
  have "tss_at s5 = tss_at s4" using z5 by (auto simp: tss_at_def)
  then have "in_tss s5 (tss_at s5 i) = zero_task_segment" if "i < ?n" for i using z5 that by simp
  from create_task_segments [OF _ this refl] assms(2)
  have "in_task_segments (fold create_task_segment [0..<?n] s5) = in_task_segments s5 \<and>
      in_isr_stacks (fold create_task_segment [0..<?n] s5) = in_isr_stacks s5 \<and>
      in_idt (fold create_task_segment [0..<?n] s5) = in_idt s5 \<and>
      (\<forall>i<?n. tss_ready (fold create_task_segment [0..<?n] s5) i)" by simp
  with z5 show thesis by (intro that [OF run]) (simp_all add: s4_def s2_def, use q in simp)
qed

lemma load_gdt_idt_tr_eq:
  assumes "c < m_cpus E" "m_cpus E \<le> CONFIG_MAX_CPUS"
    and s'_def: "s' = load_gdt_idt_tr E gdt idt c s"
  shows "unat (in_tr s' c) = GDT_DESC_SIZE * 3 + GDT_DESC2_SIZE * c"
    "unat (in_tr s' c) + GDT_DESC2_SIZE - 1 \<le> unat (ti_limit (in_gdtr s' c))"
    "unat (ti_limit (in_gdtr s' c)) < (3 + 2 * CONFIG_MAX_CPUS) * GDT_DESC_SIZE"
    "ti_base (in_gdtr s' c) = gdt" "ti_base (in_idtr s' c) = idt"
    "unat (ti_limit (in_idtr s' c)) + 1 = IDT_DESC_SIZE * INT_VECTORS"
proof -
  have l: "in_tr s' c = word_of_nat (24 + 16 * c)" "ti_limit (in_gdtr s' c) = word_of_nat (23 + m_cpus E * 16)"
    "ti_limit (in_idtr s' c) = word_of_nat 559" "ti_base (in_gdtr s' c) = gdt" "ti_base (in_idtr s' c) = idt"
    by (simp_all add: s'_def load_gdt_idt_tr_def Let_def)
  have "unat (word_of_nat (24 + 16 * c) :: u16) = 24 + 16 * c" by (rule of_nat_inverse [OF refl]) (use assms(1,2) in simp)
  moreover have "unat (word_of_nat (23 + m_cpus E * 16) :: u16) = 23 + m_cpus E * 16"
    by (rule of_nat_inverse [OF refl]) (use assms(2) in simp)
  moreover have "unat (word_of_nat 559 :: u16) = 559" by (rule of_nat_inverse [OF refl]) simp
  ultimately show "unat (in_tr s' c) = GDT_DESC_SIZE * 3 + GDT_DESC2_SIZE * c"
    "unat (in_tr s' c) + GDT_DESC2_SIZE - 1 \<le> unat (ti_limit (in_gdtr s' c))"
    "unat (ti_limit (in_gdtr s' c)) < (3 + 2 * CONFIG_MAX_CPUS) * GDT_DESC_SIZE"
    "unat (ti_limit (in_idtr s' c)) + 1 = IDT_DESC_SIZE * INT_VECTORS"
    unfolding l using assms(1,2) by simp_all
qed (simp_all add: s'_def load_gdt_idt_tr_def Let_def)

lemma frame_tables:
  "in_idt (load_gdt_idt_tr E gdt idt c s) = in_idt s"
  "tss_ready (load_gdt_idt_tr E gdt idt c s) i = tss_ready s i"
  "in_isr_stacks (load_gdt_idt_tr E gdt idt c s) = in_isr_stacks s"
  "in_task_segments (load_gdt_idt_tr E gdt idt c s) = in_task_segments s"
  by (simp_all add: load_gdt_idt_tr_def Let_def tss_ready_def tss_at_def)

lemma create_idt_frame:
  "tss_ready (create_idt isr s) i = tss_ready s i"
  "in_isr_stacks (create_idt isr s) = in_isr_stacks s"
  "in_task_segments (create_idt isr s) = in_task_segments s"
proof -
  define same :: "'a interrupts_scheme \<Rightarrow> 'a interrupts_scheme \<Rightarrow> bool" where
    "same x y \<longleftrightarrow> in_gdt2 x = in_gdt2 y \<and> in_tss x = in_tss y \<and> in_isr_stacks x = in_isr_stacks y \<and>
       in_task_segments x = in_task_segments y" for x y
  have 1: "same (fold (\<lambda>v. set_isr v (isr v)) vs x) x" for vs and x :: "'a interrupts_scheme"
    by (induction vs arbitrary: x) (auto simp: same_def set_isr_def on_gate_def)
  have 2: "same (fold (\<lambda>i s. if \<not> is_int_reserved i then on_gate i (\<lambda>_. g) s else s) vs x) x" for vs g and x :: "'a interrupts_scheme"
    by (induction vs arbitrary: x) (auto simp: same_def on_gate_def)
  have "same (create_idt isr s) s" using 1 2 unfolding create_idt_def Let_def same_def by metis
  then show "tss_ready (create_idt isr s) i = tss_ready s i" "in_isr_stacks (create_idt isr s) = in_isr_stacks s"
    "in_task_segments (create_idt isr s) = in_task_segments s"
    by (simp_all add: same_def tss_ready_def tss_at_def)
qed

section \<open>Properties\<close>

text \<open>Installing a handler: the gate then holds the whole 64-bit address and is present
  exactly when the address is not null; the gate's type is kept, the other gates do not change.\<close>

lemma isr_roundtrip:
  "get_isr w (set_isr v h s) = (if w = v then h else get_isr w s) \<and>
   id_present (in_idt (set_isr v h s) w) = (if w = v then h \<noteq> NULL else id_present (in_idt s w)) \<and>
   gate_ok (in_idt (set_isr v h s) w) = gate_ok (in_idt s w)"
  by (simp add: get_set_isr set_isr_gate(1,2))


definition xtables :: interrupts where
  "xtables = pci.extend (pci.truncate (drivers.extend xregistry \<lparr>pc_addr = 0, pc_regs = \<lambda>_. 0\<rparr>))
     \<lparr>in_descs = \<lambda>_. zero_desc, in_isr_stacks = NULL, in_task_segments = NULL, in_tss = \<lambda>_. zero_task_segment,
      in_gdt2 = \<lambda>_. zero_gdt_desc2, in_idt = \<lambda>_. zero_idt_desc, in_gdtr = \<lambda>_. \<lparr>ti_limit = 0, ti_base = 0\<rparr>,
      in_idtr = \<lambda>_. \<lparr>ti_limit = 0, ti_base = 0\<rparr>, in_tr = \<lambda>_. 0\<rparr>"


end
