(* ===== verification/Apic.thy ===== *)
theory Apic
  imports Interrupt
begin

text \<open>
  The local APIC (\<open>x86_64/apic.c\<close>, \<open>x86_64/apic.h\<close>): its timer, interrupts sent to other
  CPUs and the start of an application CPU.
\<close>

section \<open>Registers\<close>

abbreviation LAPIC_ADDR :: u64 where "LAPIC_ADDR \<equiv> 0xFEE00000"
abbreviation LAPIC_EOI_REG :: i32 where "LAPIC_EOI_REG \<equiv> 0xB0"
abbreviation LAPIC_SPURIOUS_REG :: i32 where "LAPIC_SPURIOUS_REG \<equiv> 0xF0"
abbreviation LAPIC_ICR_LOW_REG :: i32 where "LAPIC_ICR_LOW_REG \<equiv> 0x300"
abbreviation LAPIC_ICR_HIGH_REG :: i32 where "LAPIC_ICR_HIGH_REG \<equiv> 0x310"
abbreviation LAPIC_TIMER_REG :: i32 where "LAPIC_TIMER_REG \<equiv> 0x320"
abbreviation LAPIC_TIMER_INITIAL_REG :: i32 where "LAPIC_TIMER_INITIAL_REG \<equiv> 0x380"
abbreviation LAPIC_TIMER_DIVIDE_REG :: i32 where "LAPIC_TIMER_DIVIDE_REG \<equiv> 0x3E0"
abbreviation LAPIC_ENABLE :: u64 where "LAPIC_ENABLE \<equiv> 0x800"
abbreviation LAPIC_LOCAL_ENABLE :: u32 where "LAPIC_LOCAL_ENABLE \<equiv> 0x100"
abbreviation LAPIC_TIMER_PERIODIC :: u32 where "LAPIC_TIMER_PERIODIC \<equiv> 0x20000"
abbreviation LAPIC_ICR_DELIVERY_FIXED :: u32 where "LAPIC_ICR_DELIVERY_FIXED \<equiv> 0"
abbreviation LAPIC_ICR_DELIVERY_INIT :: u32 where "LAPIC_ICR_DELIVERY_INIT \<equiv> 0x500"
abbreviation LAPIC_ICR_DELIVERY_STARTUP :: u32 where "LAPIC_ICR_DELIVERY_STARTUP \<equiv> 0x600"
abbreviation LAPIC_ICR_LEVEL_ASSERT :: u32 where "LAPIC_ICR_LEVEL_ASSERT \<equiv> 0x4000"
abbreviation AP_CPU_INIT_TIMEOUT :: i32 where "AP_CPU_INIT_TIMEOUT \<equiv> 20000"
abbreviation AP_CPU_RETRY_TIMEOUT :: i32 where "AP_CPU_RETRY_TIMEOUT \<equiv> 20000"
abbreviation AP_CPU_STARTUP_TIMEOUT :: i32 where "AP_CPU_STARTUP_TIMEOUT \<equiv> 200000"

text \<open>
  Every CPU sees its own APIC at the same address; what the CPUs wrote to it is kept in
  order, with the bytes sent to the ports of the interval timer and the base register.
\<close>

record apic = interrupts +
  ap_ticks :: u32
  ap_writes :: "nat \<Rightarrow> (i32 \<times> u32) list"
  ap_ports :: "(u16 \<times> u8) list"
  ap_base :: "nat \<Rightarrow> u64"

definition write_lapic :: "nat \<Rightarrow> i32 \<Rightarrow> u32 \<Rightarrow> 'z apic_scheme \<Rightarrow> 'z apic_scheme" where
  "write_lapic c reg v s = s\<lparr>ap_writes := (ap_writes s)(c := ap_writes s c @ [(reg, v)])\<rparr>"

definition outb :: "u16 \<Rightarrow> u8 \<Rightarrow> 'z apic_scheme \<Rightarrow> 'z apic_scheme" where
  "outb port v s = s\<lparr>ap_ports := ap_ports s @ [(port, v)]\<rparr>"

definition set_apic_eoi :: "nat \<Rightarrow> 'z apic_scheme \<Rightarrow> 'z apic_scheme" where
  "set_apic_eoi c s = write_lapic c LAPIC_EOI_REG 0 s"

section \<open>The timer\<close>

definition stop_apic_timer :: "nat \<Rightarrow> 'z apic_scheme \<Rightarrow> 'z apic_scheme" where
  "stop_apic_timer c s = write_lapic c LAPIC_TIMER_INITIAL_REG 0 s"

text \<open>
  The divider: the shifted count and the divide register's code. \<open>bsrq\<close> leaves its result
  undefined for a count of zero; \<open>undef\<close> is what is in the register then.
\<close>

definition timer_divide :: "int \<Rightarrow> u64 \<Rightarrow> (u64 \<times> u32) option" where
  "timer_divide undef initial =
     (let extra_bits = (case bsrq initial of Some n \<Rightarrow> int n | None \<Rightarrow> undef) - 31 in
      if extra_bits = 1 then Some (drop_bit 1 initial, 0x0)
      else if extra_bits = 2 then Some (drop_bit 2 initial, 0x1)
      else if extra_bits = 3 then Some (drop_bit 3 initial, 0x2)
      else if extra_bits = 4 then Some (drop_bit 4 initial, 0x3)
      else if extra_bits = 5 then Some (drop_bit 5 initial, 0x8)
      else if extra_bits = 6 then Some (drop_bit 6 initial, 0x9)
      else if extra_bits = 7 then Some (drop_bit 7 initial, 0xA)
      else if 7 < extra_bits then None
      else Some (if initial = 0 then 1 else initial, 0xB))"

definition start_apic_timer :: "int \<Rightarrow> nat \<Rightarrow> i32 \<Rightarrow> bool \<Rightarrow> 'z apic_scheme \<Rightarrow> 'z apic_scheme outcome" where
  "start_apic_timer undef c interval periodic s =
     (let s1 = stop_apic_timer c s;
          initial = scast interval * ucast (ap_ticks s1) div 10000 in
      case timer_divide undef initial of
        None \<Rightarrow> Halted
      | Some (count, divider) \<Rightarrow>
          let s2 = write_lapic c LAPIC_TIMER_REG
                ((if periodic then LAPIC_TIMER_PERIODIC else 0) OR word_of_nat INT_VECTOR_APIC_TIMER) s1;
              s3 = write_lapic c LAPIC_TIMER_DIVIDE_REG divider s2 in
          Ret (write_lapic c LAPIC_TIMER_INITIAL_REG (ucast count) s3))"

section \<open>Other CPUs\<close>

text \<open>\<open>apic_id\<close> gives the identifiers of the CPU descriptors.\<close>

definition issue_cpu_interrupt :: "(nat \<Rightarrow> u8) \<Rightarrow> nat \<Rightarrow> nat \<Rightarrow> i32 \<Rightarrow> 'z apic_scheme \<Rightarrow> 'z apic_scheme" where
  "issue_cpu_interrupt apic_id c cpu vector s =
     write_lapic c LAPIC_ICR_LOW_REG
       (ucast (ucast vector :: u8) OR LAPIC_ICR_DELIVERY_FIXED OR LAPIC_ICR_LEVEL_ASSERT)
       (write_lapic c LAPIC_ICR_HIGH_REG (push_bit 24 (ucast (apic_id cpu))) s)"

text \<open>
  Waiting for the timer's interrupt: \<open>started k\<close> is what \<open>*started_cpus\<close> holds when it is
  read for the \<open>k\<close>th time. The loop ends when the number grew or the time is used up.
\<close>

fun wait_started ::
  "int \<Rightarrow> (nat \<Rightarrow> i32) \<Rightarrow> nat \<Rightarrow> i32 \<Rightarrow> i32 list \<Rightarrow> nat \<Rightarrow> 'z apic_scheme \<Rightarrow> (bool \<times> 'z apic_scheme) outcome" where
  "wait_started undef started c cpus [] k s = Ret (False, s)"
| "wait_started undef started c cpus (timeout # ts) k s =
     obind (start_apic_timer undef c AP_CPU_RETRY_TIMEOUT False s) (\<lambda>s1.
       if cpus <s started k then Ret (True, s1) else wait_started undef started c cpus ts (Suc k) s1)"

definition timeouts :: "i32 list" where
  "timeouts = map (\<lambda>i. word_of_nat i * AP_CPU_RETRY_TIMEOUT) [0..<unat (AP_CPU_STARTUP_TIMEOUT div AP_CPU_RETRY_TIMEOUT)]"

fun try_startup ::
  "int \<Rightarrow> (nat \<Rightarrow> i32) \<Rightarrow> nat \<Rightarrow> u8 \<Rightarrow> i32 \<Rightarrow> i32 \<Rightarrow> nat \<Rightarrow> nat \<Rightarrow> 'z apic_scheme \<Rightarrow> (bool \<times> 'z apic_scheme) outcome" where
  "try_startup undef started c apic_id startup_addr cpus 0 k s = Ret (False, s)"
| "try_startup undef started c apic_id startup_addr cpus (Suc tries) k s =
     (let s1 = write_lapic c LAPIC_ICR_HIGH_REG (push_bit 24 (ucast apic_id)) s;
          s2 = write_lapic c LAPIC_ICR_LOW_REG (ucast (ucast (signed_drop_bit 12 startup_addr) :: u8) OR
                 LAPIC_ICR_DELIVERY_STARTUP OR LAPIC_ICR_LEVEL_ASSERT) s1 in
      obind (wait_started undef started c cpus timeouts k s2) (\<lambda>(ok, s3).
        if ok then Ret (True, s3)
        else try_startup undef started c apic_id startup_addr cpus tries (k + length timeouts) s3))"

definition start_ap_cpu ::
  "int \<Rightarrow> (nat \<Rightarrow> u8) \<Rightarrow> (nat \<Rightarrow> i32) \<Rightarrow> nat \<Rightarrow> nat \<Rightarrow> i32 \<Rightarrow> 'z apic_scheme \<Rightarrow> (bool \<times> 'z apic_scheme) outcome" where
  "start_ap_cpu undef apic_id started c cpu startup_addr s =
     (let id = apic_id cpu;
          s1 = write_lapic c LAPIC_ICR_HIGH_REG (push_bit 24 (ucast id)) s;
          s2 = write_lapic c LAPIC_ICR_LOW_REG (LAPIC_ICR_DELIVERY_INIT OR LAPIC_ICR_LEVEL_ASSERT) s1 in
      obind (start_apic_timer undef c AP_CPU_INIT_TIMEOUT False s2) (\<lambda>s3.
        try_startup undef started c id startup_addr (started 0) 2 1 s3))"

section \<open>Initialization\<close>

text \<open>
  The interval timer's port \<open>0x61\<close> answers \<open>first\<close>, then the list \<open>polls\<close> while the code
  waits for its bit 5, then \<open>again\<close>; \<open>current\<close> is the count the APIC's timer has left.
\<close>

definition adjust_lapic_timer :: "u8 \<Rightarrow> u8 list \<Rightarrow> u8 \<Rightarrow> u32 \<Rightarrow> nat \<Rightarrow> 'z apic_scheme \<Rightarrow> 'z apic_scheme outcome" where
  "adjust_lapic_timer first polls again current c s =
     (let s1 = outb 0x61 ((first AND 0x0C) OR 1) s;
          s2 = outb 0x43 0xB0 s1;
          s3 = write_lapic c LAPIC_TIMER_INITIAL_REG (- 1) s2;
          s4 = outb 0x42 0x9C s3;
          s5 = outb 0x42 0x2E s4 in
      if list_all (\<lambda>b. b AND 0x20 = 0) polls then Hang
      else
        let s6 = s5\<lparr>ap_ticks := - 1 - current\<rparr>;
            s7 = write_lapic c LAPIC_TIMER_INITIAL_REG 0 s6 in
        Ret (outb 0x61 (again AND 0x0C) s7))"

abbreviation PAGE_MAPPING_PWT :: i32 where "PAGE_MAPPING_PWT \<equiv> 8"
abbreviation PAGE_MAPPING_PCD :: i32 where "PAGE_MAPPING_PCD \<equiv> 16"

text \<open>\<open>empty_isr\<close> is the address of the wrapper of the handler that only ends the interrupt.\<close>

definition init_apic ::
  "machine \<Rightarrow> u64 \<Rightarrow> ptr \<Rightarrow> u8 \<Rightarrow> u8 list \<Rightarrow> u8 \<Rightarrow> u32 \<Rightarrow> nat \<Rightarrow> 'z apic_scheme \<Rightarrow> 'z apic_scheme outcome" where
  "init_apic E page_map empty_isr first polls again current c s =
     (let s1 = (if c = m_bsp_cpu E then
            set_isr INT_VECTOR_APIC_TIMER empty_isr (set_isr INT_VECTOR_APIC_SPURIOUS empty_isr
              (s\<lparr>in_descs := map_page page_map LAPIC_ADDR LAPIC_ADDR
                 (PAGE_MAPPING_WRITE OR PAGE_MAPPING_PWT OR PAGE_MAPPING_PCD) 0 (in_descs s)\<rparr>))
            else s);
          s2 = s1\<lparr>ap_base := (ap_base s1)(c := LAPIC_ADDR OR LAPIC_ENABLE)\<rparr>;
          s3 = write_lapic c LAPIC_SPURIOUS_REG (LAPIC_LOCAL_ENABLE OR word_of_nat INT_VECTOR_APIC_SPURIOUS) s2;
          s4 = write_lapic c LAPIC_TIMER_REG (word_of_nat INT_VECTOR_APIC_TIMER) s3;
          s5 = write_lapic c LAPIC_TIMER_DIVIDE_REG 0xB s4 in
      if c = m_bsp_cpu E then adjust_lapic_timer first polls again current c s5 else Ret s5)"

section \<open>What the timer is set to\<close>

text \<open>The divisor of each code of the divide register.\<close>

definition lapic_divisor :: "u32 \<Rightarrow> nat" where
  "lapic_divisor code =
     (if code = 0xB then 1 else if code = 0x0 then 2 else if code = 0x1 then 4 else if code = 0x2 then 8
      else if code = 0x3 then 16 else if code = 0x8 then 32 else if code = 0x9 then 64 else 128)"

definition fits_timer :: "nat \<Rightarrow> u64 \<Rightarrow> u32 \<Rightarrow> bool" where
  "fits_timer t count divider \<longleftrightarrow> unat count < 2 ^ 32 \<and> 0 < unat count \<and>
     unat count * lapic_divisor divider \<le> t \<and> t < (unat count + 1) * lapic_divisor divider \<and>
     (lapic_divisor divider = 1 \<or> 2 ^ 31 \<le> unat count)"

lemma shifted_fits:
  assumes "2 ^ (31 + k) \<le> unat v" "unat v < 2 ^ (32 + k)" "lapic_divisor divider = 2 ^ k"
  shows "fits_timer (unat v) (drop_bit k v) divider"
proof -
  let ?q = "unat v div 2 ^ k"
  have "?q * 2 ^ k \<le> unat v" by simp
  moreover have "unat v < (?q + 1) * 2 ^ k"
  proof -
    have "unat v mod 2 ^ k < 2 ^ k" by simp
    then show ?thesis using div_mult_mod_eq [of "unat v" "2 ^ k"] unfolding distrib_right by linarith
  qed
  moreover have "2 ^ 31 \<le> ?q" using div_le_mono [OF assms(1), of "2 ^ k"] by (simp add: power_add)
  moreover have "?q < 2 ^ 32" using assms(2) by (simp add: power_add less_mult_imp_div_less mult.commute)
  ultimately show ?thesis unfolding fits_timer_def unat_drop assms(3) by simp
qed

lemma timer_divide_fits:
  assumes "v \<noteq> 0"
  shows "if 2 ^ 39 \<le> unat v then timer_divide undef v = None
    else \<exists>count divider. timer_divide undef v = Some (count, divider) \<and> fits_timer (unat v) count divider"
proof -
  obtain n where n: "bsrq v = Some n" using assms bsrq_None [of v] by (cases "bsrq v") auto
  note b = bsrq_bounds [OF n]
  consider "n < 32" | k where "n = 31 + k" "k \<in> {1, 2, 3, 4, 5, 6, 7}" | "39 \<le> n"
  proof -
    have "n < 32 \<or> n \<in> {32, 33, 34, 35, 36, 37, 38} \<or> 39 \<le> n" by auto
    then show thesis using that(1,3) that(2) [of "n - 31"] by auto
  qed
  then show ?thesis
  proof cases
    case 1
    have "2 ^ Suc n \<le> (2 :: nat) ^ 32" using 1 by (intro power_increasing) auto
    then have lt: "unat v < 2 ^ 32" using b by linarith
    have d: "timer_divide undef v = Some (v, 0xB)"
      using 1 assms by (simp add: timer_divide_def n)
    have "0 < unat v" using assms by (simp add: unat_gt_0)
    then have "fits_timer (unat v) v 0xB" using lt by (simp add: fits_timer_def lapic_divisor_def)
    then show ?thesis using lt d by simp
  next
    case (2 k)
    have "2 ^ Suc n \<le> (2 :: nat) ^ 39" using 2 by (intro power_increasing) auto
    then have lt: "unat v < 2 ^ 39" using b by linarith
    obtain divider where d: "timer_divide undef v = Some (drop_bit k v, divider)" "lapic_divisor divider = 2 ^ k"
      using 2 by (auto simp: timer_divide_def n lapic_divisor_def)
    have "fits_timer (unat v) (drop_bit k v) divider"
      by (rule shifted_fits [OF _ _ d(2)]) (use b 2(1) in simp_all)
    then show ?thesis using lt d by simp
  next
    case 3
    have "(2 :: nat) ^ 39 \<le> 2 ^ n" using 3 by (intro power_increasing) auto
    then have "2 ^ 39 \<le> unat v" using b by linarith
    then show ?thesis using 3 by (simp add: timer_divide_def n)
  qed
qed

lemma scaled_interval:
  fixes interval :: i32
  assumes "0 \<le> sint interval"
  shows "unat (scast interval * ucast (ticks :: u32) div 10000 :: u64) = nat (sint interval) * unat ticks div 10000"
proof -
  have l: "nat (sint interval) < 2 ^ 31"
    using sint_lt [of interval] assms by (simp add: nat_less_iff)
  have i: "unat (scast interval :: u64) = nat (sint interval)" using unat_scast_nonneg [OF assms] .
  have t: "unat (ucast ticks :: u64) = unat ticks" by (rule unat_ucast32)
  have "unat ticks < 2 ^ 32" by (rule unat_lt32)
  then have "nat (sint interval) * unat ticks < 2 ^ 31 * 2 ^ 32" using l by (intro mult_strict_mono) auto
  then have "unat (scast interval * ucast ticks :: u64) = nat (sint interval) * unat ticks"
    unfolding unat_word_ariths i t by simp
  then show ?thesis by (simp add: unat_div)
qed

text \<open>A count of zero is where the bit scan's result is undefined.\<close>

lemma timer_divide_0:
  "if 38 < undef then timer_divide undef 0 = None
   else \<exists>count divider. timer_divide undef 0 = Some (count, divider) \<and>
     (if undef \<le> 31 then count = 1 \<and> lapic_divisor divider = 1 else count = 0)"
proof -
  have "undef \<le> 31 \<or> 38 < undef \<or> undef \<in> {32, 33, 34, 35, 36, 37, 38}" by auto
  then show ?thesis using bsrq_None [of 0] by (auto simp: timer_divide_def lapic_divisor_def [of "0xB"])
qed

section \<open>What is written to the APIC\<close>

definition wrote :: "nat \<Rightarrow> (i32 \<times> u32) list \<Rightarrow> 'z apic_scheme \<Rightarrow> 'z apic_scheme \<Rightarrow> bool" where
  "wrote c ws s s' \<longleftrightarrow> s' = s\<lparr>ap_writes := (ap_writes s)(c := ap_writes s c @ ws)\<rparr>"

lemma wrote_refl: "wrote c [] s s"
  by (simp add: wrote_def)

lemma wrote_trans: "wrote c xs s s1 \<Longrightarrow> wrote c ys s1 s2 \<Longrightarrow> wrote c (xs @ ys) s s2"
  by (simp add: wrote_def)

lemma wrote_write: "wrote c xs s s1 \<Longrightarrow> wrote c (xs @ [(reg, v)]) s (write_lapic c reg v s1)"
  by (simp add: wrote_def write_lapic_def)

lemma wrote_ticks: "wrote c xs s s1 \<Longrightarrow> ap_ticks s1 = ap_ticks s"
  by (simp add: wrote_def)

definition timer_writes :: "bool \<Rightarrow> u64 \<Rightarrow> u32 \<Rightarrow> (i32 \<times> u32) list" where
  "timer_writes periodic count divider =
     [(LAPIC_TIMER_INITIAL_REG, 0), (LAPIC_TIMER_REG, if periodic then 0x20021 else 0x21),
      (LAPIC_TIMER_DIVIDE_REG, divider), (LAPIC_TIMER_INITIAL_REG, ucast count)]"

lemma start_apic_timer_eq:
  "start_apic_timer undef c interval periodic s =
     (case timer_divide undef (scast interval * ucast (ap_ticks s) div 10000) of
        None \<Rightarrow> Halted
      | Some (count, divider) \<Rightarrow>
          Ret (s\<lparr>ap_writes := (ap_writes s)(c := ap_writes s c @ timer_writes periodic count divider)\<rparr>))"
  by (simp add: start_apic_timer_def stop_apic_timer_def write_lapic_def Let_def timer_writes_def split: option.split)

lemma retry_timer:
  assumes "ap_ticks s \<noteq> 0"
  obtains s' count divider where "start_apic_timer undef c AP_CPU_RETRY_TIMEOUT False s = Ret s'"
    "wrote c (timer_writes False count divider) s s'" "count \<noteq> 0"
proof -
  let ?v = "scast AP_CPU_RETRY_TIMEOUT * ucast (ap_ticks s) div 10000 :: u64"
  have "unat ?v = nat (sint AP_CPU_RETRY_TIMEOUT) * unat (ap_ticks s) div 10000" by (rule scaled_interval) simp
  then have v: "unat ?v = 2 * unat (ap_ticks s)" by simp
  have "unat (ap_ticks s) < 2 ^ 32" by (rule unat_lt32)
  then have small: "\<not> 2 ^ 39 \<le> unat ?v" unfolding v by simp
  have "?v \<noteq> 0" using v assms by (metis mult_eq_0_iff unat_0 unat_eq_0 zero_neq_numeral)
  from timer_divide_fits [OF this, of undef] small
  obtain count divider where d: "timer_divide undef ?v = Some (count, divider)" "fits_timer (unat ?v) count divider" by auto
  have "count \<noteq> 0" using d(2) by (auto simp: fits_timer_def)
  then show thesis using d(1) by (intro that) (auto simp: start_apic_timer_eq wrote_def)
qed

definition icr_writes :: "(i32 \<times> u32) list \<Rightarrow> (i32 \<times> u32) list" where
  "icr_writes = filter (\<lambda>(reg, v). reg = LAPIC_ICR_HIGH_REG \<or> reg = LAPIC_ICR_LOW_REG)"

lemma icr_timer: "icr_writes (timer_writes periodic count divider) = []"
  by (simp add: icr_writes_def timer_writes_def)

lemma icr_append: "icr_writes (xs @ ys) = icr_writes xs @ icr_writes ys"
  by (simp add: icr_writes_def)

lemma wait_started_polls:
  assumes "ap_ticks s \<noteq> 0"
  shows "\<exists>s' ws. wait_started undef started c cpus ts k s = Ret (\<exists>i<length ts. cpus <s started (k + i), s') \<and>
    wrote c ws s s' \<and> icr_writes ws = []"
  using assms
proof (induction ts arbitrary: k s)
  case (Cons t ts)
  obtain s1 count divider where s1: "start_apic_timer undef c AP_CPU_RETRY_TIMEOUT False s = Ret s1"
    "wrote c (timer_writes False count divider) s s1" by (rule retry_timer [OF Cons.prems])
  show ?case
  proof (cases "cpus <s started k")
    case True
    then have "\<exists>i<length (t # ts). cpus <s started (k + i)" by (intro exI [of _ 0]) simp
    then show ?thesis using True s1 icr_timer [of False count divider] by auto
  next
    case False
    have "ap_ticks s1 \<noteq> 0" using wrote_ticks [OF s1(2)] Cons.prems by simp
    from Cons.IH [OF this, of "Suc k"] obtain s' ws where
      ih: "wait_started undef started c cpus ts (Suc k) s1 = Ret (\<exists>i<length ts. cpus <s started (Suc k + i), s')"
      "wrote c ws s1 s'" "icr_writes ws = []" by blast
    have shift: "(\<exists>i<length (t # ts). cpus <s started (k + i)) \<longleftrightarrow> (\<exists>i<length ts. cpus <s started (Suc k + i))"
      using False by (simp add: Ex_less_Suc2)
    show ?thesis
      unfolding shift using wrote_trans [OF s1(2) ih(2)] ih(1,3) s1(1) False by (auto simp: icr_append icr_timer)
  qed
qed (use wrote_refl in \<open>fastforce simp: icr_writes_def\<close>)

lemma length_timeouts: "length timeouts = 10"
  by (simp add: timeouts_def)

definition ipi :: "u8 \<Rightarrow> u32 \<Rightarrow> (i32 \<times> u32) list" where
  "ipi apic_id command = [(LAPIC_ICR_HIGH_REG, push_bit 24 (ucast apic_id)), (LAPIC_ICR_LOW_REG, command)]"

lemma icr_ipi: "icr_writes (ipi a w) = ipi a w"
  by (simp add: icr_writes_def ipi_def)

lemma wrote_ipi: "wrote c (ipi a w) s (write_lapic c LAPIC_ICR_LOW_REG w (write_lapic c LAPIC_ICR_HIGH_REG (push_bit 24 (ucast a)) s))"
  by (simp add: wrote_def ipi_def write_lapic_def)

abbreviation startup_command :: "i32 \<Rightarrow> u32" where
  "startup_command addr \<equiv> ucast (ucast (signed_drop_bit 12 addr) :: u8) OR LAPIC_ICR_DELIVERY_STARTUP OR LAPIC_ICR_LEVEL_ASSERT"

lemma try_startup_once:
  assumes "ap_ticks s \<noteq> 0"
  obtains s1 ws where "wrote c ws s s1" "icr_writes ws = ipi a (startup_command addr)"
    "try_startup undef started c a addr cpus (Suc n) k s =
       (if \<exists>i<10. cpus <s started (k + i) then Ret (True, s1)
        else try_startup undef started c a addr cpus n (k + 10) s1)"
proof -
  let ?s2 = "write_lapic c LAPIC_ICR_LOW_REG (startup_command addr) (write_lapic c LAPIC_ICR_HIGH_REG (push_bit 24 (ucast a)) s)"
  have w: "wrote c (ipi a (startup_command addr)) s ?s2" by (rule wrote_ipi)
  then have "ap_ticks ?s2 \<noteq> 0" using assms wrote_ticks by metis
  from wait_started_polls [OF this, of undef started c cpus timeouts k] obtain s1 ws where
    s1: "wait_started undef started c cpus timeouts k ?s2 = Ret (\<exists>i<10. cpus <s started (k + i), s1)"
    "wrote c ws ?s2 s1" "icr_writes ws = []" unfolding length_timeouts by blast
  show thesis
  proof (rule that [OF wrote_trans [OF w s1(2)]])
    show "try_startup undef started c a addr cpus (Suc n) k s =
       (if \<exists>i<10. cpus <s started (k + i) then Ret (True, s1)
        else try_startup undef started c a addr cpus n (k + 10) s1)"
      unfolding try_startup.simps Let_def s1(1) length_timeouts by simp
  qed (simp add: icr_append icr_ipi s1(3))
qed

section \<open>Initialization\<close>

text \<open>
  On the boot CPU the timer's ticks are what passed while the interval timer ran; on any CPU the
  spurious vector is enabled before the timer's vector is set.
\<close>

lemma init_apic_boot:
  assumes "c = m_bsp_cpu E" "\<exists>b\<in>set polls. b AND 0x20 \<noteq> 0"
  shows "init_apic E page_map empty_isr first polls again current c s = Ret
    (s\<lparr>in_descs := map_page page_map LAPIC_ADDR LAPIC_ADDR 0x1A 0 (in_descs s),
       in_idt := in_idt (set_isr INT_VECTOR_APIC_TIMER empty_isr (set_isr INT_VECTOR_APIC_SPURIOUS empty_isr s)),
       ap_base := (ap_base s)(c := LAPIC_ADDR OR LAPIC_ENABLE), ap_ticks := - 1 - current,
       ap_writes := (ap_writes s)(c := ap_writes s c @ [(LAPIC_SPURIOUS_REG, 0x120), (LAPIC_TIMER_REG, 0x21),
         (LAPIC_TIMER_DIVIDE_REG, 0xB), (LAPIC_TIMER_INITIAL_REG, - 1), (LAPIC_TIMER_INITIAL_REG, 0)]),
       ap_ports := ap_ports s @ [(0x61, first AND 0x0C OR 1), (0x43, 0xB0), (0x42, 0x9C), (0x42, 0x2E), (0x61, again AND 0x0C)]\<rparr>)"
proof -
  have "\<not> list_all (\<lambda>b. b AND 0x20 = 0) polls" using assms(2) by (auto simp: list_all_iff)
  then show ?thesis
    unfolding init_apic_def adjust_lapic_timer_def Let_def assms(1)
    by (simp add: write_lapic_def outb_def set_isr_def on_gate_def)
qed

lemma init_apic_other:
  assumes "c \<noteq> m_bsp_cpu E"
  shows "init_apic E page_map empty_isr first polls again current c s = Ret
    (s\<lparr>ap_base := (ap_base s)(c := LAPIC_ADDR OR LAPIC_ENABLE),
       ap_writes := (ap_writes s)(c := ap_writes s c @ [(LAPIC_SPURIOUS_REG, 0x120), (LAPIC_TIMER_REG, 0x21),
         (LAPIC_TIMER_DIVIDE_REG, 0xB)])\<rparr>)"
  using assms by (simp add: init_apic_def Let_def write_lapic_def)

definition xapic :: apic where
  "xapic = interrupts.extend (interrupts.truncate xtables) \<lparr>ap_ticks = 1000000, ap_writes = \<lambda>_. [], ap_ports = [], ap_base = \<lambda>_. 0\<rparr>"

lemma xapic_ticks: "ap_ticks xapic = 1000000"
  by (simp add: xapic_def interrupts.defs)

section \<open>Properties\<close>

text \<open>C23: For an interval that is not negative, the timer is set to the number of ticks the
  interval stands for: the count fits 32 bits, the smallest divider that allows it is chosen, so
  count times divider falls short of the ticks by less than one divider. From \<open>2 ^ 39\<close> ticks on
  the kernel stops. An interval of less than one tick is undefined: the right count of 1 is set
  only when the bit scan of 0 happens to leave at most 31, otherwise the timer never fires or
  the kernel stops.\<close>

theorem start_apic_timer_count:
  assumes "0 \<le> sint interval" "t = nat (sint interval) * unat (ap_ticks s) div 10000"
  shows "if 2 ^ 39 \<le> t \<or> t = 0 \<and> 38 < undef then start_apic_timer undef c interval periodic s = Halted
    else \<exists>s' count divider. start_apic_timer undef c interval periodic s = Ret s' \<and>
      wrote c (timer_writes periodic count divider) s s' \<and>
      (if t \<noteq> 0 then fits_timer t count divider else (unat count, lapic_divisor divider) = (1, 1) \<or> count = 0 \<and> 31 < undef)"
proof -
  let ?v = "scast interval * ucast (ap_ticks s) div 10000 :: u64"
  have v: "unat ?v = t" using scaled_interval [OF assms(1)] assms(2) by metis
  show ?thesis
  proof (cases "?v = 0")
    case True
    then have t: "t = 0" using v by simp
    show ?thesis
    proof (cases "38 < undef")
      case False
      then obtain count divider where d: "timer_divide undef 0 = Some (count, divider)"
        "if undef \<le> 31 then count = 1 \<and> lapic_divisor divider = 1 else count = 0"
        using timer_divide_0 [of undef] by auto
      have "(unat count, lapic_divisor divider) = (1, 1) \<or> count = 0 \<and> 31 < undef"
        using d(2) by (cases "undef \<le> 31") simp_all
      then show ?thesis
        using False unfolding start_apic_timer_eq True d(1) t wrote_def by auto
    qed (use timer_divide_0 [of undef] in \<open>simp add: start_apic_timer_eq True [simplified] t\<close>)
  next
    case False
    then have "t \<noteq> 0" using v unat_eq_0 by metis
    show ?thesis
    proof (cases "2 ^ 39 \<le> t")
      case True
      then have "timer_divide undef ?v = None" using timer_divide_fits [OF False, of undef] unfolding v by simp
      then show ?thesis using True by (simp add: start_apic_timer_eq)
    next
      case small: False
      then obtain count divider where "timer_divide undef ?v = Some (count, divider)" "fits_timer t count divider"
        using timer_divide_fits [OF False, of undef] unfolding v by auto
      then show ?thesis using small \<open>t \<noteq> 0\<close> by (auto simp: start_apic_timer_eq wrote_def)
    qed
  qed
qed

theorem start_apic_timer_count_witness:
  "\<exists>s' count divider. start_apic_timer 0 0 1000 True xapic = Ret s' \<and>
    wrote 0 (timer_writes True count divider) xapic s' \<and> fits_timer 100000 count divider"
  using start_apic_timer_count [of 1000 100000 xapic 0 0 True] by (simp add: xapic_ticks)



end
