(* ===== verification/Pci_Scan.thy ===== *)
theory Pci_Scan
  imports Pci
begin

text \<open>
  Fields of PCI registers are independent of each other, and a scan visits every function of
  every bus the bridges lead to, in order, and ends.
\<close>

section \<open>Fields\<close>

definition field_ok :: "i32 \<Rightarrow> bool" where
  "field_ok f \<longleftrightarrow> field_low f \<le> field_high f \<and> field_high f < 32"

definition field_of :: "(u32 \<Rightarrow> u32) \<Rightarrow> i32 \<Rightarrow> i32 \<Rightarrow> u32" where
  "field_of regs dev f = INT_BITS (regs (get_addr dev f)) (field_low f) (field_high f)"

lemma read_field: "read_pci_field dev f s = (field_of (pc_regs s) dev f, s\<lparr>pc_addr := get_addr dev f\<rparr>)"
  by (simp add: read_pci_field_def outl_def inl_def field_of_def)

lemma field_bits:
  "field_low PCI_FIELD_SECONDARY_BUS = 8" "field_high PCI_FIELD_SECONDARY_BUS = 15"
  "field_low PCI_FIELD_CLASS = 24" "field_high PCI_FIELD_CLASS = 31"
  "field_low PCI_FIELD_VENDOR_ID = 0" "field_high PCI_FIELD_VENDOR_ID = 15"
  by code_simp+

lemma bit_short: "(v :: u32) < 2 ^ n \<Longrightarrow> n < 32 \<Longrightarrow> bit v i \<Longrightarrow> i < n"
  by (rule bit_less_exp [of v n i]) auto

text \<open>The register after a write: the value in the field, the old bits elsewhere.\<close>

lemma bit_write:
  assumes "field_ok f" "field_high f < 31 \<or> 0 < field_low f \<Longrightarrow> v < 2 ^ (field_high f - field_low f + 1)"
  shows "bit (pc_regs (write_pci_field dev f v s) (get_addr dev f)) i \<longleftrightarrow>
    (if field_low f \<le> i \<and> i \<le> field_high f then bit v (i - field_low f) else bit (pc_regs s (get_addr dev f)) i)"
proof -
  let ?l = "field_low f" and ?h = "field_high f" and ?p = "pc_regs s (get_addr dev f)"
  have lh: "?l \<le> ?h" "?h < 32" using assms(1) by (auto simp: field_ok_def)
  have top: "bit w j \<Longrightarrow> j < 32" for w :: u32 and j using bit_imp_le_length [of w j] by simp
  show ?thesis
  proof (cases "0 < ?l \<or> ?h < 31")
    case True
    then have v: "j < ?h - ?l + 1" if "bit v j" for j
      using that bit_short [of v "?h - ?l + 1" j] assms(2) lh by auto
    have lo: "bit (INT_BITS ?p 0 (?l - 1)) j \<longleftrightarrow> j < ?l \<and> bit ?p j" if "0 < ?l" for j
      using that lh by (subst bit_INT_BITS) auto
    have hi: "bit (INT_BITS ?p (?h + 1) 31) j \<longleftrightarrow> bit ?p (j + (?h + 1))" if "?h < 31" for j
      using that top [of ?p "j + (?h + 1)"] by (subst bit_INT_BITS) auto
    have w: "pc_regs (write_pci_field dev f v s) (get_addr dev f) =
      (if 0 < ?l then INT_BITS ?p 0 (?l - 1) else 0) OR push_bit ?l v OR
      (if ?h < 31 then push_bit (?h + 1) (INT_BITS ?p (?h + 1) 31) else 0)"
      using True by (simp add: write_pci_field_def outl_def inl_def Let_def or.assoc)
    have "bit (push_bit ?l v) i \<longleftrightarrow> ?l \<le> i \<and> i \<le> ?h \<and> bit v (i - ?l)"
      using v [of "i - ?l"] lh by (auto simp: bit_push_bit_iff)
    moreover have "bit (if 0 < ?l then INT_BITS ?p 0 (?l - 1) else 0) i \<longleftrightarrow> i < ?l \<and> bit ?p i" using lo by simp
    moreover have "bit (if ?h < 31 then push_bit (?h + 1) (INT_BITS ?p (?h + 1) 31) else 0) i \<longleftrightarrow> ?h < i \<and> bit ?p i"
    proof (cases "?h < 31")
      case True
      show ?thesis using True top [of ?p i] by (simp only: True if_True bit_push_bit_iff hi [OF True]) auto
    next
      case False
      then show ?thesis using top [of ?p i] lh by auto
    qed
    ultimately show ?thesis unfolding w bit_or_iff by auto
  next
    case False
    then have "?l = 0" "?h = 31" using lh by auto
    then have "pc_regs (write_pci_field dev f v s) (get_addr dev f) = v"
      by (simp add: write_pci_field_def outl_def inl_def Let_def)
    then show ?thesis using top [of v i] top [of ?p i] \<open>?l = 0\<close> \<open>?h = 31\<close> by auto
  qed
qed

lemma write_other: "a \<noteq> get_addr dev f \<Longrightarrow> pc_regs (write_pci_field dev f v s) a = pc_regs s a"
  by (simp add: write_pci_field_def outl_def Let_def)

section \<open>The functions of the buses\<close>

definition present :: "(u32 \<Rightarrow> u32) \<Rightarrow> i32 \<Rightarrow> bool" where
  "present regs dev \<longleftrightarrow> field_of regs dev PCI_FIELD_VENDOR_ID \<noteq> 0xFFFF"

definition type_of :: "(u32 \<Rightarrow> u32) \<Rightarrow> i32 \<Rightarrow> i32" where
  "type_of regs dev = push_bit 8 (field_of regs dev PCI_FIELD_CLASS) OR field_of regs dev PCI_FIELD_SUBCLASS"

definition slot_devices :: "(u32 \<Rightarrow> u32) \<Rightarrow> i32 \<Rightarrow> i32 \<Rightarrow> i32 list" where
  "slot_devices regs bus slot =
     (let dev = get_pci_device bus slot 0 in
      if \<not> present regs dev then []
      else dev # (if field_of regs dev PCI_FIELD_MULTIPLE_FUNCTIONS = 0 then []
                  else filter (present regs) (map (get_pci_device bus slot) [1, 2, 3, 4, 5, 6, 7])))"

definition bus_devices :: "(u32 \<Rightarrow> u32) \<Rightarrow> i32 \<Rightarrow> i32 list" where
  "bus_devices regs bus = concat (map (\<lambda>slot. slot_devices regs bus (word_of_nat slot)) [0..<32])"

definition is_bridge :: "(u32 \<Rightarrow> u32) \<Rightarrow> i32 \<Rightarrow> bool" where
  "is_bridge regs dev \<longleftrightarrow> type_of regs dev = PCI_TYPE_PCI_TO_PCI_BRIDGE"

definition secondary :: "(u32 \<Rightarrow> u32) \<Rightarrow> i32 \<Rightarrow> i32" where
  "secondary regs dev = field_of regs dev PCI_FIELD_SECONDARY_BUS"

text \<open>A bridge is followed by what is behind it.\<close>

fun tree :: "(u32 \<Rightarrow> u32) \<Rightarrow> nat \<Rightarrow> i32 \<Rightarrow> i32 list" where
  "tree regs 0 bus = []"
| "tree regs (Suc n) bus =
     concat (map (\<lambda>dev. dev # (if is_bridge regs dev then tree regs n (secondary regs dev) else [])) (bus_devices regs bus))"

definition host_buses :: "(u32 \<Rightarrow> u32) \<Rightarrow> i32 list" where
  "host_buses regs = 0 # (if field_of regs 0 PCI_FIELD_MULTIPLE_FUNCTIONS = 0 then []
     else takeWhile (\<lambda>func. present regs (get_pci_device 0 0 func)) [1, 2, 3, 4, 5, 6, 7])"

definition all_devices :: "(u32 \<Rightarrow> u32) \<Rightarrow> nat \<Rightarrow> i32 list" where
  "all_devices regs n = concat (map (tree regs n) (host_buses regs))"

definition of_type :: "(u32 \<Rightarrow> u32) \<Rightarrow> i32 \<Rightarrow> i32 \<Rightarrow> bool" where
  "of_type regs type dev \<longleftrightarrow> type = - 1 \<or> type = type_of regs dev"

text \<open>As firmware numbers the buses: a bridge leads to a bus of a higher number.\<close>

definition bridges_upward :: "(u32 \<Rightarrow> u32) \<Rightarrow> bool" where
  "bridges_upward regs \<longleftrightarrow> (\<forall>bus dev. bus < 256 \<longrightarrow> dev \<in> set (bus_devices regs bus) \<longrightarrow> is_bridge regs dev \<longrightarrow> bus < secondary regs dev)"

section \<open>What a scan does to an observer\<close>

text \<open>
  The procedure leaves the registers alone, and what an observer sees of it (anything but the
  selected register) is a step of the observer's own.
\<close>

locale scan_observer =
  fixes regs :: "u32 \<Rightarrow> u32"
    and proc :: "i32 \<Rightarrow> 'z pci_scheme \<Rightarrow> 'z pci_scheme"
    and obs :: "'z pci_scheme \<Rightarrow> 'o"
    and step :: "i32 \<Rightarrow> 'o \<Rightarrow> 'o"
  assumes proc_regs: "pc_regs s = regs \<Longrightarrow> pc_regs (proc d s) = regs"
    and proc_obs: "pc_regs s = regs \<Longrightarrow> obs (proc d s) = step d (obs s)"
    and addr_obs: "obs (s\<lparr>pc_addr := a\<rparr>) = obs s"
begin

definition visits :: "('z pci_scheme \<Rightarrow> 'z pci_scheme option) \<Rightarrow> i32 list \<Rightarrow> bool" where
  "visits f ds \<longleftrightarrow> (\<forall>s. pc_regs s = regs \<longrightarrow>
     (\<exists>s'. f s = Some s' \<and> pc_regs s' = regs \<and> obs s' = fold step ds (obs s)))"

lemma visitsD: "visits f ds \<Longrightarrow> pc_regs s = regs \<Longrightarrow> \<exists>s'. f s = Some s' \<and> pc_regs s' = regs \<and> obs s' = fold step ds (obs s)"
  by (simp add: visits_def)

lemma visits_Some: "visits Some []" "visits (\<lambda>s. Some (s\<lparr>pc_addr := a\<rparr>)) []"
  by (simp_all add: visits_def addr_obs)

lemma visits_bind: "visits f xs \<Longrightarrow> visits g ys \<Longrightarrow> visits (\<lambda>s. Option.bind (f s) g) (xs @ ys)"
  unfolding visits_def by fastforce

lemma visits_select: "visits f xs \<Longrightarrow> visits (\<lambda>s. f (s\<lparr>pc_addr := a\<rparr>)) xs"
  using visitsD [of f xs "s\<lparr>pc_addr := a\<rparr>" for s] by (simp add: visits_def addr_obs)

lemma visits_call: "visits f xs \<Longrightarrow> visits (\<lambda>s. f (proc d s)) (d # xs)"
  unfolding visits_def [of "\<lambda>s. f (proc d s)"]
  using visitsD [of f xs] by (metis fold_simps(2) proc_obs proc_regs)

lemma visits_for_each: "(\<And>i. i \<in> set is \<Longrightarrow> visits (f i) (g i)) \<Longrightarrow> visits (for_each f is) (concat (map g is))"
proof (induction "is")
  case (Cons i "is")
  then show ?case using visits_bind [of "f i" "g i" "for_each f is"] by (simp cong: option.case_cong)
qed (auto simp: visits_def)

lemma visits_cong: "(\<And>s. pc_regs s = regs \<Longrightarrow> f s = g s) \<Longrightarrow> visits g xs \<Longrightarrow> visits f xs"
  by (simp add: visits_def)

lemma get_type: "get_pci_type dev s = (type_of (pc_regs s) dev, s\<lparr>pc_addr := get_addr dev PCI_FIELD_SUBCLASS\<rparr>)"
  by (simp add: get_pci_type_def read_field type_of_def)

lemma visits_func:
  assumes "is_bridge regs (get_pci_device bus slot func) \<Longrightarrow>
      visits (scan (secondary regs (get_pci_device bus slot func))) xs"
  defines "dev \<equiv> get_pci_device bus slot func"
  shows "visits (scan_func scan proc type bus slot func)
    (filter (of_type regs type) [dev] @ (if is_bridge regs dev then xs else []))"
proof -
  define rest where "rest = (\<lambda>s. let (t, s3) = get_pci_type dev s in
      if t = PCI_TYPE_PCI_TO_PCI_BRIDGE then let (b, s4) = read_pci_field dev PCI_FIELD_SECONDARY_BUS s3 in scan b s4 else Some s3)"
  have rest: "visits rest (if is_bridge regs dev then xs else [])"
  proof (cases "is_bridge regs dev")
    case True
    have "visits (\<lambda>s. scan (secondary regs dev) (s\<lparr>pc_addr := get_addr dev PCI_FIELD_SECONDARY_BUS\<rparr>)) xs"
      by (rule visits_select) (use assms True in simp)
    from visits_cong [OF _ this, of rest] True show ?thesis
      by (simp add: rest_def get_type read_field is_bridge_def secondary_def)
  next
    case False
    show ?thesis
      using visits_cong [OF _ visits_Some(2), of rest "get_addr dev PCI_FIELD_SUBCLASS"] False
      by (simp add: rest_def get_type is_bridge_def)
  qed
  have all: "scan_func scan proc type bus slot func s =
      (if type = - 1 then rest (proc dev s)
       else if of_type regs type dev then rest (proc dev (s\<lparr>pc_addr := get_addr dev PCI_FIELD_SUBCLASS\<rparr>))
       else rest (s\<lparr>pc_addr := get_addr dev PCI_FIELD_SUBCLASS\<rparr>))" if "pc_regs s = regs" for s
    using that by (simp add: scan_func_def rest_def Let_def dev_def get_type of_type_def split: prod.splits)
  show ?thesis
  proof (rule visits_cong [OF all])
    show "visits (\<lambda>s. if type = - 1 then rest (proc dev s)
       else if of_type regs type dev then rest (proc dev (s\<lparr>pc_addr := get_addr dev PCI_FIELD_SUBCLASS\<rparr>))
       else rest (s\<lparr>pc_addr := get_addr dev PCI_FIELD_SUBCLASS\<rparr>))
      (filter (of_type regs type) [dev] @ (if is_bridge regs dev then xs else []))"
      using visits_call [OF rest, of dev] visits_select [OF visits_call [OF rest, of dev]] visits_select [OF rest]
      by (cases "type = - 1"; cases "of_type regs type dev") (simp_all add: of_type_def)
  qed
qed

lemma visits_slot:
  assumes "\<And>dev. dev \<in> set (slot_devices regs bus slot) \<Longrightarrow> is_bridge regs dev \<Longrightarrow>
      visits (scan (secondary regs dev)) (sub dev)"
  shows "visits (scan_slot scan proc type bus slot)
    (concat (map (\<lambda>dev. filter (of_type regs type) [dev] @ (if is_bridge regs dev then sub dev else [])) (slot_devices regs bus slot)))"
proof -
  let ?dev = "get_pci_device bus slot"
  let ?out = "\<lambda>dev. filter (of_type regs type) [dev] @ (if is_bridge regs dev then sub dev else [])"
  define other where "other = (\<lambda>func s. let (vendor, s1) = read_pci_field (?dev func) PCI_FIELD_VENDOR_ID s in
      if vendor \<noteq> 0xFFFF then scan_func scan proc type bus slot func s1 else Some s1)"
  define rest where "rest = (\<lambda>s2. let (multi, s3) = read_pci_field (?dev 0) PCI_FIELD_MULTIPLE_FUNCTIONS s2 in
      if multi = 0 then Some s3 else for_each other [1, 2, 3, 4, 5, 6, 7] s3)"
  have run: "scan_slot scan proc type bus slot s =
      (if present regs (?dev 0) then Option.bind (scan_func scan proc type bus slot 0
        (s\<lparr>pc_addr := get_addr (?dev 0) PCI_FIELD_VENDOR_ID\<rparr>)) rest
       else Some (s\<lparr>pc_addr := get_addr (?dev 0) PCI_FIELD_VENDOR_ID\<rparr>))" if "pc_regs s = regs" for s
    unfolding scan_slot_def rest_def other_def Let_def using that by (simp add: read_field present_def)
  show ?thesis
  proof (cases "present regs (?dev 0)")
    case False
    have "visits (scan_slot scan proc type bus slot) []"
      by (rule visits_cong [OF _ visits_Some(2)]) (use run False in simp)
    then show ?thesis using False by (simp add: slot_devices_def Let_def)
  next
    case True
    let ?multi = "field_of regs (?dev 0) PCI_FIELD_MULTIPLE_FUNCTIONS \<noteq> 0"
    let ?fs = "[1, 2, 3, 4, 5, 6, 7] :: i32 list"
    have devs: "slot_devices regs bus slot = ?dev 0 # (if ?multi then filter (present regs) (map ?dev ?fs) else [])"
      using True by (simp add: slot_devices_def Let_def)
    have other: "visits (other func) (if present regs (?dev func) then ?out (?dev func) else [])"
      if "func \<in> set ?fs" "?multi" for func
    proof (cases "present regs (?dev func)")
      case p: True
      have "?dev func \<in> set (slot_devices regs bus slot)" using that p by (auto simp: devs)
      then have "visits (scan_func scan proc type bus slot func) (?out (?dev func))"
        by (intro visits_func assms)
      from visits_cong [OF _ visits_select [OF this], of "other func" "get_addr (?dev func) PCI_FIELD_VENDOR_ID"] p
      show ?thesis by (simp add: other_def read_field present_def)
    next
      case False
      with visits_cong [OF _ visits_Some(2), of "other func" "get_addr (?dev func) PCI_FIELD_VENDOR_ID"]
      show ?thesis by (simp add: other_def read_field present_def)
    qed
    have "visits rest (if ?multi then concat (map ?out (filter (present regs) (map ?dev ?fs))) else [])"
    proof (cases ?multi)
      case m: True
      have "visits (for_each other ?fs) (concat (map (\<lambda>func. if present regs (?dev func) then ?out (?dev func) else []) ?fs))"
        by (rule visits_for_each) (rule other [OF _ m])
      moreover have "concat (map (\<lambda>func. if present regs (?dev func) then ?out (?dev func) else []) fs) =
          concat (map ?out (filter (present regs) (map ?dev fs)))" for fs
        by (induction fs) auto
      ultimately have "visits (for_each other ?fs) (concat (map ?out (filter (present regs) (map ?dev ?fs))))" by metis
      from visits_cong [OF _ visits_select [OF this], of rest "get_addr (?dev 0) PCI_FIELD_MULTIPLE_FUNCTIONS"] m
      show ?thesis by (simp add: rest_def read_field)
    next
      case False
      with visits_cong [OF _ visits_Some(2), of rest "get_addr (?dev 0) PCI_FIELD_MULTIPLE_FUNCTIONS"]
      show ?thesis by (simp add: rest_def read_field)
    qed
    moreover have "visits (scan_func scan proc type bus slot 0) (?out (?dev 0))"
      by (intro visits_func assms) (simp_all add: devs)
    ultimately have v: "visits (\<lambda>s. Option.bind (scan_func scan proc type bus slot 0
        (s\<lparr>pc_addr := get_addr (?dev 0) PCI_FIELD_VENDOR_ID\<rparr>)) rest)
      (?out (?dev 0) @ (if ?multi then concat (map ?out (filter (present regs) (map ?dev ?fs))) else []))"
      by (intro visits_bind visits_select)
    have "concat (map ?out (slot_devices regs bus slot)) =
        ?out (?dev 0) @ (if ?multi then concat (map ?out (filter (present regs) (map ?dev ?fs))) else [])"
      unfolding devs by (simp only: list.map concat.simps if_distrib [of "map ?out"] if_distrib [of concat])
    moreover have "visits (scan_slot scan proc type bus slot)
      (?out (?dev 0) @ (if ?multi then concat (map ?out (filter (present regs) (map ?dev ?fs))) else []))"
      by (rule visits_cong [OF _ v]) (use run True in simp)
    ultimately show ?thesis by metis
  qed
qed

lemma visits_bus:
  assumes "bridges_upward regs" "256 - unat bus \<le> n" "unat bus < 256"
  shows "visits (scan_bus n proc type bus) (filter (of_type regs type) (tree regs n bus))"
  using assms(2,3)
proof (induction n arbitrary: bus)
  case (Suc n)
  let ?sub = "\<lambda>dev. filter (of_type regs type) (tree regs n (secondary regs dev))"
  let ?out = "\<lambda>dev. filter (of_type regs type) [dev] @ (if is_bridge regs dev then ?sub dev else [])"
  have slot: "visits (scan_slot (scan_bus n proc type) proc type bus (word_of_nat slot))
      (concat (map ?out (slot_devices regs bus (word_of_nat slot))))" if "slot \<in> set [0..<32]" for slot
  proof (rule visits_slot)
    fix dev assume dev: "dev \<in> set (slot_devices regs bus (word_of_nat slot))" "is_bridge regs dev"
    then have "dev \<in> set (bus_devices regs bus)" using that unfolding bus_devices_def by fastforce
    moreover have "bus < 256" using Suc.prems by (simp add: word_less_nat_alt)
    ultimately have "bus < secondary regs dev" using assms(1) dev(2) unfolding bridges_upward_def by blast
    moreover have "unat (secondary regs dev) < 256"
    proof -
      have "secondary regs dev = take_bit 8 (drop_bit 8 (regs (get_addr dev PCI_FIELD_SECONDARY_BUS)))"
        by (simp add: secondary_def field_of_def field_bits INT_BITS_mask take_bit_eq_mask)
      then show ?thesis by (simp only: unsigned_take_bit_eq take_bit_eq_mod [where 'a = nat]) simp
    qed
    ultimately show "visits (scan_bus n proc type (secondary regs dev)) (?sub dev)"
      using Suc by (intro Suc.IH) (simp_all add: word_less_nat_alt)
  qed
  have "visits (scan_bus (Suc n) proc type bus)
      (concat (map (\<lambda>slot. concat (map ?out (slot_devices regs bus (word_of_nat slot)))) [0..<32]))"
    unfolding scan_bus.simps by (rule visits_for_each) (rule slot)
  moreover have "concat (map (\<lambda>slot. concat (map ?out (slot_devices regs bus (word_of_nat slot)))) ks) =
      filter (of_type regs type) (concat (map (\<lambda>dev. dev # (if is_bridge regs dev then tree regs n (secondary regs dev) else []))
        (concat (map (\<lambda>slot. slot_devices regs bus (word_of_nat slot)) ks))))" for ks
  proof (induction ks)
    case (Cons k ks)
    have "concat (map ?out ds) = filter (of_type regs type)
        (concat (map (\<lambda>dev. dev # (if is_bridge regs dev then tree regs n (secondary regs dev) else [])) ds))" for ds
      by (induction ds) auto
    with Cons.IH show ?case by simp
  qed simp
  ultimately show ?case unfolding tree.simps bus_devices_def by metis
qed simp

lemma visits_hosts:
  assumes "bridges_upward regs" "256 \<le> n" "\<And>func. func \<in> set fs \<Longrightarrow> unat func < 256"
  shows "visits (scan_hosts n proc type fs)
    (filter (of_type regs type) (concat (map (tree regs n) (takeWhile (\<lambda>func. present regs (get_pci_device 0 0 func)) fs))))"
  using assms(3)
proof (induction fs)
  case Nil
  then show ?case by (simp add: visits_def)
next
  case (Cons func fs)
  let ?a = "get_addr (get_pci_device 0 0 func) PCI_FIELD_VENDOR_ID"
  have run: "scan_hosts n proc type (func # fs) s = (if present regs (get_pci_device 0 0 func)
      then Option.bind (scan_bus n proc type func (s\<lparr>pc_addr := ?a\<rparr>)) (scan_hosts n proc type fs)
      else Some (s\<lparr>pc_addr := ?a\<rparr>))" if "pc_regs s = regs" for s
    using that by (simp add: read_field present_def)
  show ?case
  proof (cases "present regs (get_pci_device 0 0 func)")
    case True
    have "visits (\<lambda>s. scan_bus n proc type func (s\<lparr>pc_addr := ?a\<rparr>)) (filter (of_type regs type) (tree regs n func))"
      by (rule visits_select [OF visits_bus]) (use assms(1,2) Cons.prems in auto)
    from visits_bind [OF this Cons.IH] Cons.prems
    have v: "visits (\<lambda>s. Option.bind (scan_bus n proc type func (s\<lparr>pc_addr := ?a\<rparr>)) (scan_hosts n proc type fs))
        (filter (of_type regs type) (tree regs n func) @
         filter (of_type regs type) (concat (map (tree regs n) (takeWhile (\<lambda>func. present regs (get_pci_device 0 0 func)) fs))))"
      by simp
    have "visits (scan_hosts n proc type (func # fs)) (filter (of_type regs type) (tree regs n func) @
         filter (of_type regs type) (concat (map (tree regs n) (takeWhile (\<lambda>func. present regs (get_pci_device 0 0 func)) fs))))"
      by (rule visits_cong [OF _ v]) (use run True in \<open>simp del: scan_hosts.simps\<close>)
    then show ?thesis using True by (simp del: scan_hosts.simps)
  next
    case False
    have "visits (scan_hosts n proc type (func # fs)) []"
      by (rule visits_cong [OF _ visits_Some(2)]) (use run False in \<open>simp del: scan_hosts.simps\<close>)
    then show ?thesis using False by (simp del: scan_hosts.simps)
  qed
qed

lemma visits_scan:
  assumes "bridges_upward regs" "256 \<le> n"
  shows "visits (scan_pci n proc type) (filter (of_type regs type) (all_devices regs n))"
proof -
  let ?multi = "field_of regs 0 PCI_FIELD_MULTIPLE_FUNCTIONS \<noteq> 0"
  define fs :: "i32 list" where "fs = [1, 2, 3, 4, 5, 6, 7]"
  let ?a = "get_addr 0 PCI_FIELD_MULTIPLE_FUNCTIONS"
  let ?hosts = "takeWhile (\<lambda>func. present regs (get_pci_device 0 0 func)) fs"
  define rest where "rest = (\<lambda>s1. let (multi, s2) = read_pci_field 0 PCI_FIELD_MULTIPLE_FUNCTIONS s1 in
       if multi = 0 then Some s2 else scan_hosts n proc type fs s2)"
  have run: "rest s = (if ?multi then scan_hosts n proc type fs (s\<lparr>pc_addr := ?a\<rparr>) else Some (s\<lparr>pc_addr := ?a\<rparr>))"
    if "pc_regs s = regs" for s
    unfolding rest_def read_field that by simp
  have rest: "visits rest (if ?multi then filter (of_type regs type) (concat (map (tree regs n) ?hosts)) else [])"
  proof (cases ?multi)
    case True
    have "visits (\<lambda>s. scan_hosts n proc type fs (s\<lparr>pc_addr := ?a\<rparr>)) (filter (of_type regs type) (concat (map (tree regs n) ?hosts)))"
      by (rule visits_select [OF visits_hosts [OF assms]]) (auto simp: fs_def)
    then have "visits rest (filter (of_type regs type) (concat (map (tree regs n) ?hosts)))"
      by (rule visits_cong [rotated]) (simp only: run True if_True not_False_eq_True)
    then show ?thesis by (simp only: True if_True not_False_eq_True)
  next
    case False
    have "visits rest []" by (rule visits_cong [OF _ visits_Some(2)]) (simp only: run False if_False)
    then show ?thesis by (simp only: False if_False)
  qed
  have "visits (scan_bus n proc type 0) (filter (of_type regs type) (tree regs n 0))"
    by (rule visits_bus) (use assms in simp_all)
  from visits_bind [OF this rest]
  have "visits (scan_pci n proc type) (filter (of_type regs type) (tree regs n 0) @
      (if ?multi then filter (of_type regs type) (concat (map (tree regs n) ?hosts)) else []))"
    unfolding scan_pci_def rest_def fs_def .
  moreover have "filter (of_type regs type) (all_devices regs n) = filter (of_type regs type) (tree regs n 0) @
      (if ?multi then filter (of_type regs type) (concat (map (tree regs n) ?hosts)) else [])"
    unfolding all_devices_def host_buses_def fs_def [symmetric] by simp
  ultimately show ?thesis by metis
qed

end

text \<open>The scan of \<open>init_pci\<close> does nothing that can be observed.\<close>

interpretation quiet_scan: scan_observer regs "\<lambda>d s. s" "\<lambda>s. s\<lparr>pc_addr := 0\<rparr>" "\<lambda>d s. s" for regs
  by unfold_locales simp_all

lemma init_pci_returns:
  assumes "bridges_upward (pc_regs s)" "256 \<le> n"
  shows "\<exists>s'. init_pci n s = Some s' \<and> s'\<lparr>pc_addr := 0\<rparr> = s\<lparr>pc_addr := 0\<rparr>"
proof -
  have "fold (\<lambda>d s. s) xs z = z" for xs :: "i32 list" and z :: "'b" by (induction xs) auto
  then show ?thesis
    using quiet_scan.visitsD [OF quiet_scan.visits_scan [OF assms, of "- 1"] refl] by (auto simp: init_pci_def)
qed

section \<open>An example\<close>

text \<open>
  Two functions, 0:0.0 a bridge to bus 1 and 1:0.0 a SATA controller; reading an absent
  function gives all ones.
\<close>

definition xbuses :: "u32 \<Rightarrow> u32" where
  "xbuses a = (if a AND 0xFC = 0x18 then 0x0100
     else if a = 0x80000000 then 0x12348086 else if a = 0x80000008 then 0x06040000 else if a = 0x8000000C then 0
     else if a = 0x80010000 then 0x29228086 else if a = 0x80010008 then 0x01060000 else if a = 0x8001000C then 0
     else 0xFFFFFFFF)"

definition xpci :: "i32 list pci_scheme" where
  "xpci = drivers.extend (drivers.truncate xregistry) \<lparr>pc_addr = 0, pc_regs = xbuses, \<dots> = []\<rparr>"

lemma high_reg: "8 \<le> k \<Longrightarrow> push_bit k (w :: u32) AND 0xFC = 0"
  by (rule bit_word_eqI) (use bit_short [of "0xFC" 8] in \<open>force simp: bit_simps\<close>)

lemma get_addr_reg: "get_addr dev PCI_FIELD_SECONDARY_BUS AND 0xFC = 0x18" "get_addr dev PCI_FIELD_CLASS AND 0xFC = 8"
  by (simp_all add: get_addr_def Let_def bit.conj_disj_distrib2 high_reg)

lemma xbuses_secondary: "secondary xbuses dev = 1"
  by (simp add: secondary_def field_of_def xbuses_def get_addr_reg) code_simp

lemma xbuses_bridge:
  assumes "is_bridge xbuses dev"
  shows "get_addr dev PCI_FIELD_CLASS = 0x80000008"
proof -
  let ?a = "get_addr dev PCI_FIELD_CLASS"
  have same: "get_addr dev PCI_FIELD_SUBCLASS = ?a" by (simp add: get_addr_def)
  have reg: "?a \<noteq> 0x80000000" "?a \<noteq> 0x8000000C" "?a \<noteq> 0x80010000" "?a \<noteq> 0x8001000C"
    using get_addr_reg(2) [of dev] by auto
  have sub: "field_low PCI_FIELD_SUBCLASS = 16" "field_high PCI_FIELD_SUBCLASS = 23" by code_simp+
  have type: "type_of xbuses dev = push_bit 8 (INT_BITS (xbuses ?a) 24 31) OR INT_BITS (xbuses ?a) 16 23"
    by (simp only: type_of_def field_of_def same field_bits sub)
  have no: "push_bit 8 (INT_BITS (0x01060000 :: u32) 24 31) OR INT_BITS 0x01060000 16 23 \<noteq> 0x604"
    "push_bit 8 (INT_BITS (0xFFFFFFFF :: u32) 24 31) OR INT_BITS 0xFFFFFFFF 16 23 \<noteq> 0x604"
    by code_simp+
  have "xbuses ?a \<noteq> 0x01060000" "xbuses ?a \<noteq> 0xFFFFFFFF" using assms no type unfolding is_bridge_def by metis+
  then show ?thesis using get_addr_reg(2) [of dev] reg by (auto simp: xbuses_def split: if_splits)
qed

lemma get_pci_bus_device:
  assumes "bus < 256" "slot < 256" "func < 256"
  shows "get_pci_bus (get_pci_device bus slot func) = bus"
proof -
  let ?d = "get_pci_device bus slot func"
  have "unat ?d = unat bus * 65536 + unat slot * 256 + unat func"
  proof -
    have "?d = word_of_nat (unat bus * 65536 + unat slot * 256 + unat func)"
      by (simp add: get_pci_device_def push_bit_eq_mult)
    moreover have "unat bus * 65536 + unat slot * 256 + unat func < 2 ^ LENGTH(32)" using assms by (simp add: word_less_nat_alt)
    ultimately show ?thesis by (metis of_nat_inverse)
  qed
  then have "unat ?d div 65536 = unat bus" using assms by (simp add: word_less_nat_alt)
  then have d: "drop_bit 16 ?d = bus"
    by (intro word_unat_eq_iff [THEN iffD2]) (simp only: drop_bit_eq_div unat_div_distrib, simp)
  have "bit (get_pci_bus e) i \<longleftrightarrow> i < 8 \<and> bit (drop_bit 16 e) i" for e :: i32 and i
    by (auto simp: get_pci_bus_def bit_simps)
  then have "bit (get_pci_bus ?d) i \<longleftrightarrow> i < 8 \<and> bit bus i" for i by (simp only: d)
  moreover have "i < 8" if "bit bus i" for i using bit_short [of bus 8 i] that assms by simp
  ultimately show ?thesis by (intro bit_word_eqI) auto
qed

lemma slot_devices_func: "set (slot_devices regs bus slot) \<subseteq> get_pci_device bus slot ` {func. func < 256}"
proof -
  let ?fs = "[1, 2, 3, 4, 5, 6, 7] :: i32 list"
  have "set (slot_devices regs bus slot) \<subseteq> get_pci_device bus slot ` set (0 # ?fs)"
    unfolding slot_devices_def Let_def set_map [symmetric] list.map by auto
  moreover have "set (0 # ?fs) \<subseteq> {func. func < 256}" by simp
  ultimately show ?thesis by (meson image_mono order_trans)
qed

lemma xbuses_upward: "bridges_upward xbuses"
  unfolding bridges_upward_def
proof (intro allI impI)
  fix bus dev :: i32
  assume bus: "bus < 256" and dev: "dev \<in> set (bus_devices xbuses bus)" and bridge: "is_bridge xbuses dev"
  obtain slot func :: i32 where d: "dev = get_pci_device bus slot func" "slot < 256" "func < 256"
  proof -
    obtain k where k: "k < 32" "dev \<in> set (slot_devices xbuses bus (word_of_nat k))" using dev by (auto simp: bus_devices_def)
    have slot: "word_of_nat k < (256 :: i32)" using k(1) by (simp add: word_less_nat_alt unat_of_nat)
    obtain func where func: "func < 256" "dev = get_pci_device bus (word_of_nat k) func"
      using k(2) slot_devices_func [of xbuses bus "word_of_nat k"] by blast
    show thesis by (rule that [OF func(2) slot func(1)])
  qed
  have "bit (get_addr dev PCI_FIELD_CLASS) (16 + i)" if "bit (get_pci_bus dev) i" for i
    using that bit_short [of "get_pci_bus dev" 8 i] by (auto simp: get_addr_def bit_simps get_pci_bus_def)
  moreover have "i < 8" if "bit (get_pci_bus dev) i" for i using that by (auto simp: get_pci_bus_def bit_simps)
  moreover have "\<not> (bit (0x80000008 :: u32) (16 + i) \<and> i < 8)" for i
  proof -
    have "bit w (16 + i) \<and> i < 8 \<longleftrightarrow> bit (take_bit 8 (drop_bit 16 w)) i" for w :: u32
      by (auto simp: bit_simps)
    from this [of "0x80000008"] show ?thesis by simp
  qed
  ultimately have "\<not> bit (get_pci_bus dev) i" for i unfolding xbuses_bridge [OF bridge] by blast
  then have "get_pci_bus dev = 0" by (intro bit_word_eqI) simp
  then have "bus = 0" using get_pci_bus_device [OF bus d(2,3)] d(1) by simp
  then show "bus < secondary xbuses dev" by (simp add: xbuses_secondary)
qed

lemma xbuses_tree: "all_devices xbuses 256 = [0, 0x10000]"
proof -
  have "bus_devices xbuses 0 = [0]" "bus_devices xbuses 1 = [0x10000]" by code_simp+
  moreover have "is_bridge xbuses 0" "\<not> is_bridge xbuses 0x10000" by code_simp+
  ultimately have tree: "tree xbuses n 0 = [0, 0x10000]" if "n = Suc (Suc m)" for n m using that by (simp add: xbuses_secondary)
  have "tree xbuses 256 0 = [0, 0x10000]" by (rule tree [of 256 254]) simp
  moreover have "host_buses xbuses = [0]" by code_simp
  ultimately show ?thesis by (simp add: all_devices_def)
qed

section \<open>Properties\<close>



text \<open>C21: When every bridge leads to a bus of a higher number, as firmware numbers them, a scan
  ends, 256 levels of bridges being enough, and calls the procedure exactly for the functions
  of the type asked for, in the order of the tree of buses: the slots of a bus in order, the
  functions of a slot in order, a bridge before everything behind it. The procedure must leave
  the configuration registers alone; \<open>obs\<close> is any part of the state it acts on, the selected
  address apart.\<close>

theorem scan_pci_visits_tree:
  assumes "bridges_upward regs" "256 \<le> n" "pc_regs s = regs"
    and "\<And>s d. pc_regs s = regs \<Longrightarrow> pc_regs (proc d s) = regs \<and> obs (proc d s) = step d (obs s)"
    and "\<And>s a. obs (s\<lparr>pc_addr := a\<rparr>) = obs s"
  shows "\<exists>s'. scan_pci n proc type s = Some s' \<and> pc_regs s' = regs \<and>
    obs s' = fold step (filter (of_type regs type) (all_devices regs n)) (obs s)"
proof -
  have o: "scan_observer regs proc obs step" by unfold_locales (use assms(4,5) in auto)
  show ?thesis by (rule scan_observer.visitsD [OF o scan_observer.visits_scan [OF o assms(1,2)] assms(3)])
qed

theorem scan_pci_visits_tree_witness:
  "(\<exists>s'. scan_pci 256 (\<lambda>d. pci.more_update (\<lambda>l. l @ [d])) (- 1) xpci = Some s' \<and> pci.more s' = [0, 0x10000]) \<and>
   (\<exists>s'. scan_pci 256 (\<lambda>d. pci.more_update (\<lambda>l. l @ [d])) PCI_TYPE_SERIAL_ATA xpci = Some s' \<and> pci.more s' = [0x10000])"
proof -
  have r: "pc_regs xpci = xbuses" "pci.more xpci = []" by (simp_all add: xpci_def drivers.defs)
  have f: "filter (of_type xbuses (- 1)) [0, 0x10000] = [0, 0x10000]"
    "filter (of_type xbuses PCI_TYPE_SERIAL_ATA) [0, 0x10000] = [0x10000]"
    by code_simp+
  have scan: "\<exists>s'. scan_pci 256 (\<lambda>d. pci.more_update (\<lambda>l. l @ [d])) type xpci = Some s' \<and> pc_regs s' = xbuses \<and>
      pci.more s' = fold (\<lambda>d l. l @ [d]) (filter (of_type xbuses type) (all_devices xbuses 256)) (pci.more xpci)" for type
    by (rule scan_pci_visits_tree [where proc = "\<lambda>d. pci.more_update (\<lambda>l. l @ [d])" and obs = pci.more and
        step = "\<lambda>d l. l @ [d]", OF xbuses_upward order_refl r(1)]) (case_tac s; simp)+
  from scan [of "- 1"] scan [of PCI_TYPE_SERIAL_ATA] show ?thesis
    unfolding xbuses_tree f r(2) fold_simps append_Nil append_Cons by blast
qed

end
