(* ===== verification/Ahci.thy ===== *)
theory Ahci
  imports Apic Pci_Scan
begin

text \<open>
  The AHCI driver (\<open>x86_64/ahci.c\<close>): the table of SATA drives, filled and kept up to date by
  scanning the ports of the host adapters the PCI scan finds.
\<close>

section \<open>State\<close>

abbreviation DRIVE_MAGIC :: u64 where "DRIVE_MAGIC \<equiv> 0x5105820974944592"
abbreviation MAX_DRIVES :: nat where "MAX_DRIVES \<equiv> 8"
abbreviation MAX_PORTS :: nat where "MAX_PORTS \<equiv> 32"
abbreviation SIZEOF_DRIVE :: nat where "SIZEOF_DRIVE \<equiv> 64"
abbreviation DRIVER_TYPE_STORAGE :: i32 where "DRIVER_TYPE_STORAGE \<equiv> 1"

text \<open>The fields \<open>hba_pci_address\<close> and \<open>hba_port\<close> are signed bit-fields of 24 and 5 bits.\<close>

record drive =
  dk_magic :: u64
  dk_next :: ptr
  dk_hba :: ptr
  dk_stamp :: i32
  dk_hba_pci_address :: "24 word"
  dk_hba_port :: "5 word"
  dk_scanned :: bool
  dk_in_use :: bool
  dk_used :: bool

record ahci = apic +
  ah_scan_error :: err_code
  ah_scan_add_drives :: bool
  ah_drives :: "ptr \<Rightarrow> drive"
  ah_stamp :: i32

text \<open>
  The addresses of the driver's variables, of the mutex of the driver registry, of the two
  handlers and of the page map, and what the adapters' registers hold.
\<close>

record ahci_env =
  av_drives :: ptr
  av_lock :: ptr
  av_driver :: ptr
  av_registry_lock :: ptr
  av_scan_devices :: ptr
  av_get_next_device :: ptr
  av_page_map :: u64
  av_mmio :: "ptr \<Rightarrow> u32"

definition drive_at :: "ahci_env \<Rightarrow> nat \<Rightarrow> ptr" where
  "drive_at D i = av_drives D + word_of_nat (i * SIZEOF_DRIVE)"

definition drive_lock :: "ahci_env \<Rightarrow> nat \<Rightarrow> ptr" where
  "drive_lock D i = drive_at D i + 16"

definition get_drive :: "ahci_env \<Rightarrow> nat \<Rightarrow> 'z ahci_scheme \<Rightarrow> drive" where
  "get_drive D i s = ah_drives s (drive_at D i)"

definition on_drive :: "ahci_env \<Rightarrow> nat \<Rightarrow> (drive \<Rightarrow> drive) \<Rightarrow> 'z ahci_scheme \<Rightarrow> 'z ahci_scheme" where
  "on_drive D i f s = s\<lparr>ah_drives := (ah_drives s)(drive_at D i := f (ah_drives s (drive_at D i)))\<rparr>"

text \<open>The loops that stop at the first drive of a kind.\<close>

definition find_drive :: "(nat \<Rightarrow> bool) \<Rightarrow> nat option" where
  "find_drive P = find P [0..<MAX_DRIVES]"

section \<open>Scanning\<close>

definition add_drive :: "ahci_env \<Rightarrow> i32 \<Rightarrow> ptr \<Rightarrow> i32 \<Rightarrow> 'z ahci_scheme \<Rightarrow> 'z ahci_scheme" where
  "add_drive D device hba hba_port s =
     (if ah_scan_error s \<noteq> ERR_NONE then s
      else case find_drive (\<lambda>i. \<not> dk_in_use (get_drive D i s)) of
        Some i \<Rightarrow>
          let (st, g) = assign_stamp_id_stamp (ah_stamp s);
              s1 = on_drive D i (\<lambda>d. d\<lparr>dk_magic := DRIVE_MAGIC, dk_stamp := st, dk_hba_pci_address := ucast device,
                     dk_hba := hba, dk_hba_port := ucast hba_port, dk_in_use := True\<rparr>) (s\<lparr>ah_stamp := g\<rparr>) in
          if \<not> dk_used (get_drive D i s1) then
            let (err, s2) = create_mutex (drive_lock D i) s1;
                s3 = s2\<lparr>ah_scan_error := err\<rparr> in
            if err = ERR_NONE then on_drive D i (\<lambda>d. d\<lparr>dk_used := True\<rparr>) s3 else s3
          else s1
      | None \<Rightarrow> s\<lparr>ah_scan_error := ERR_NO_MORE\<rparr>)"

definition scan_next_drive :: "ahci_env \<Rightarrow> i32 \<Rightarrow> ptr \<Rightarrow> i32 \<Rightarrow> 'z ahci_scheme \<Rightarrow> 'z ahci_scheme" where
  "scan_next_drive D device hba port s =
     (if ah_scan_error s \<noteq> ERR_NONE then s
      else case find_drive (\<lambda>i. dk_in_use (get_drive D i s) \<and> scast (dk_hba_pci_address (get_drive D i s)) = device \<and>
                          scast (dk_hba_port (get_drive D i s)) = port) of
        Some i \<Rightarrow> on_drive D i (\<lambda>d. d\<lparr>dk_scanned := True\<rparr>) s
      | None \<Rightarrow> if ah_scan_add_drives s then add_drive D device hba port s else s)"

text \<open>Registers of an adapter and of its ports.\<close>

definition hba_pi :: "ahci_env \<Rightarrow> ptr \<Rightarrow> u32" where
  "hba_pi D hba = av_mmio D (hba + 0x0C)"

definition port_sig :: "ahci_env \<Rightarrow> ptr \<Rightarrow> nat \<Rightarrow> u32" where
  "port_sig D hba port = av_mmio D (hba + 0x100 + word_of_nat (port * 0x80) + 0x24)"

definition port_ssts :: "ahci_env \<Rightarrow> ptr \<Rightarrow> nat \<Rightarrow> u32" where
  "port_ssts D hba port = av_mmio D (hba + 0x100 + word_of_nat (port * 0x80) + 0x28)"

abbreviation DET_PRESENT :: u32 where "DET_PRESENT \<equiv> 3"
abbreviation IPM_ACTIVE :: u32 where "IPM_ACTIVE \<equiv> 1"
abbreviation SIG_ATAPI :: u32 where "SIG_ATAPI \<equiv> 0xEB140101"
abbreviation SIG_SEMB :: u32 where "SIG_SEMB \<equiv> 0xC33C0101"
abbreviation SIG_PM :: u32 where "SIG_PM \<equiv> 0x96690101"

definition drive_present :: "ahci_env \<Rightarrow> ptr \<Rightarrow> nat \<Rightarrow> bool" where
  "drive_present D hba port \<longleftrightarrow>
     (let det = INT_BITS (port_ssts D hba port) 0 3; ipm = INT_BITS (port_ssts D hba port) 8 11; sig = port_sig D hba port in
      det = DET_PRESENT \<and> ipm = IPM_ACTIVE \<and> sig \<noteq> SIG_ATAPI \<and> sig \<noteq> SIG_SEMB \<and> sig \<noteq> SIG_PM)"

definition scan_next_hba :: "ahci_env \<Rightarrow> i32 \<Rightarrow> 'z ahci_scheme \<Rightarrow> 'z ahci_scheme" where
  "scan_next_hba D device s =
     (if ah_scan_error s \<noteq> ERR_NONE then s
      else
        let (v, s1) = read_pci_field device PCI_FIELD_BAR5 s;
            bar5 = ucast (v AND NOT 0xF) :: u64;
            s2 = s1\<lparr>in_descs := map_page (av_page_map D) bar5 bar5
                   (PAGE_MAPPING_WRITE OR PAGE_MAPPING_PWT OR PAGE_MAPPING_PCD) 0 (in_descs s1)\<rparr>;
            pi = hba_pi D bar5 in
        fold (\<lambda>port s. if bit pi port \<and> drive_present D bar5 port
                then scan_next_drive D device bar5 (word_of_nat port) s else s) [0..<MAX_PORTS] s2)"

text \<open>
  As in the driver registry, \<open>env\<close> is what others did while the caller waited for a mutex. It
  is the first drive whose magic number is cleared, whichever drive is removed.
\<close>

definition remove_drive ::
  "machine \<Rightarrow> ('z ahci_scheme \<Rightarrow> 'z ahci_scheme) \<Rightarrow> ahci_env \<Rightarrow> nat \<Rightarrow> nat \<Rightarrow> 'z ahci_scheme \<Rightarrow> 'z ahci_scheme outcome" where
  "remove_drive E env D c i s =
     obind (under_mutex E env c (drive_lock D i) (\<lambda>s1.
         (ERR_NONE, (), on_drive D i (\<lambda>d. d\<lparr>dk_in_use := False\<rparr>) (on_drive D 0 (\<lambda>d. d\<lparr>dk_magic := 0\<rparr>)
           (s1\<lparr>ah_scan_error := ERR_NONE\<rparr>)))) () s)
       (\<lambda>(err, _, s2). Ret (s2\<lparr>ah_scan_error := err\<rparr>))"

fun remove_missing ::
  "machine \<Rightarrow> ('z ahci_scheme \<Rightarrow> 'z ahci_scheme) \<Rightarrow> ahci_env \<Rightarrow> nat \<Rightarrow> nat list \<Rightarrow> 'z ahci_scheme \<Rightarrow> 'z ahci_scheme outcome" where
  "remove_missing E env D c [] s = Ret s"
| "remove_missing E env D c (i # is) s =
     obind (if dk_in_use (get_drive D i s) \<and> \<not> dk_scanned (get_drive D i s) then remove_drive E env D c i s else Ret s)
       (remove_missing E env D c is)"

definition forget_scanned :: "ahci_env \<Rightarrow> 'z ahci_scheme \<Rightarrow> 'z ahci_scheme" where
  "forget_scanned D s =
     fold (\<lambda>i s. if dk_in_use (get_drive D i s) then on_drive D i (\<lambda>d. d\<lparr>dk_scanned := False\<rparr>) s else s) [0..<MAX_DRIVES] s"

text \<open>Lines 140 to 154; \<open>n\<close> is the fuel of the PCI scans.\<close>

definition scan_drives ::
  "machine \<Rightarrow> ('z ahci_scheme \<Rightarrow> 'z ahci_scheme) \<Rightarrow> ahci_env \<Rightarrow> nat \<Rightarrow> nat \<Rightarrow> 'z ahci_scheme \<Rightarrow> 'z ahci_scheme outcome" where
  "scan_drives E env D n c s =
     (let s1 = (forget_scanned D s)\<lparr>ah_scan_add_drives := False\<rparr> in
      case scan_pci n (scan_next_hba D) PCI_TYPE_SERIAL_ATA s1 of
        None \<Rightarrow> Hang
      | Some s2 \<Rightarrow>
          if ah_scan_error s2 \<noteq> ERR_NONE then Ret s2
          else
            obind (remove_missing E env D c [0..<MAX_DRIVES] s2) (\<lambda>s3.
              case scan_pci n (scan_next_hba D) PCI_TYPE_SERIAL_ATA (s3\<lparr>ah_scan_add_drives := True\<rparr>) of
                None \<Rightarrow> Hang
              | Some s4 \<Rightarrow> Ret s4))"

definition scan_devices ::
  "machine \<Rightarrow> ('z ahci_scheme \<Rightarrow> 'z ahci_scheme) \<Rightarrow> ahci_env \<Rightarrow> nat \<Rightarrow> nat \<Rightarrow> 'z ahci_scheme \<Rightarrow>
   (err_code \<times> 'z ahci_scheme) outcome" where
  "scan_devices E env D n c s =
     obind (acquire_mutex E c (av_lock D) s) (\<lambda>(err, s1).
       if err \<noteq> ERR_NONE then Ret (err, s1\<lparr>ah_scan_error := err\<rparr>)
       else
         let s2 = (if hw_busy s (Lock_mlock (av_lock D)) = 0 then s1 else env s1)\<lparr>ah_scan_error := ERR_NONE\<rparr> in
         obind (scan_drives E env D n c s2) (\<lambda>s3.
           obind (release_mutex E c (av_lock D) s3) (\<lambda>s4. Ret (ah_scan_error s4, s4))))"

section \<open>Enumerating, setting up\<close>

text \<open>
  Line 168 to 182: the error, the identifier. After an identifier that is refused the loop goes
  on from the first drive, and its error is kept unless there is no drive at all.
\<close>

definition next_device :: "ahci_env \<Rightarrow> stamp_id \<Rightarrow> 'z ahci_scheme \<Rightarrow> err_code \<times> stamp_id" where
  "next_device D i s =
     (let (err, start) = (if i \<noteq> 0 then
            (case WITH_STAMP_ID (\<lambda>a. dk_magic (ah_drives s a)) (\<lambda>a. dk_stamp (ah_drives s a)) DRIVE_MAGIC i of
               Inl e \<Rightarrow> (e, 0)
             | Inr drv \<Rightarrow> (ERR_NONE, unat (drv - av_drives D) div SIZEOF_DRIVE + 1))
          else (ERR_NONE, 0)) in
      case find (\<lambda>k. dk_in_use (get_drive D k s)) [start..<MAX_DRIVES] of
        Some k \<Rightarrow> (err, get_stamp_id (drive_at D k) (dk_stamp (get_drive D k s)))
      | None \<Rightarrow> (ERR_NO_MORE, i))"

definition get_next_device ::
  "machine \<Rightarrow> ('z ahci_scheme \<Rightarrow> 'z ahci_scheme) \<Rightarrow> ahci_env \<Rightarrow> nat \<Rightarrow> stamp_id option \<Rightarrow> 'z ahci_scheme \<Rightarrow>
   (err_code \<times> stamp_id option \<times> 'z ahci_scheme) outcome" where
  "get_next_device E env D c id_ptr s =
     (case id_ptr of
        None \<Rightarrow> Ret (ERR_BAD_INPUT, None, s)
      | Some i \<Rightarrow> under_mutex E env c (av_lock D) (\<lambda>s1. let (err, j) = next_device D i s1 in (err, Some j, s1)) (Some i) s)"

definition zero_drive :: drive where
  "zero_drive = \<lparr>dk_magic = 0, dk_next = NULL, dk_hba = NULL, dk_stamp = 0, dk_hba_pci_address = 0, dk_hba_port = 0,
     dk_scanned = False, dk_in_use = False, dk_used = False\<rparr>"

definition init_ahci ::
  "machine \<Rightarrow> ('z ahci_scheme \<Rightarrow> 'z ahci_scheme) \<Rightarrow> ahci_env \<Rightarrow> nat \<Rightarrow> nat \<Rightarrow> 'z ahci_scheme \<Rightarrow> 'z ahci_scheme outcome" where
  "init_ahci E env D n c s =
     (let s1 = fold (\<lambda>i. on_drive D i (\<lambda>_. zero_drive)) [0..<MAX_DRIVES] s;
          s2 = s1\<lparr>dr_heap := (dr_heap s1)(av_driver D := \<lparr>dv_magic = 0, dv_prev = NULL, dv_next = NULL, dv_stamp = 0,
                 dv_type = DRIVER_TYPE_STORAGE, dv_scan_devices = av_scan_devices D, dv_get_next_device = av_get_next_device D,
                 dv_start_device = NULL, dv_stop_device = NULL\<rparr>)\<rparr>;
          (err, s3) = create_mutex (av_lock D) s2 in
      if err \<noteq> ERR_NONE then Ret s3
      else
        obind (scan_devices E env D n c s3) (\<lambda>(err, s4).
          if err \<noteq> ERR_NONE then Ret s4
          else obind (add_driver E env c (av_registry_lock D) (av_driver D) s4) (\<lambda>(err, _, s5). Ret s5)))"

definition dispose_ahci :: "ahci_env \<Rightarrow> 'z ahci_scheme \<Rightarrow> 'z ahci_scheme" where
  "dispose_ahci D s =
     fold (\<lambda>i s. if dk_used (get_drive D i s) then destroy_mutex (drive_lock D i) s else s) [0..<MAX_DRIVES]
       (destroy_mutex (av_lock D) s)"

text \<open>\<open>x86_64/driver.c\<close>: the drivers built in.\<close>

definition init_builtin_drivers ::
  "machine \<Rightarrow> ('z ahci_scheme \<Rightarrow> 'z ahci_scheme) \<Rightarrow> ahci_env \<Rightarrow> nat \<Rightarrow> nat \<Rightarrow> 'z ahci_scheme \<Rightarrow> 'z ahci_scheme outcome" where
  "init_builtin_drivers E env D n c s = init_ahci E env D n c s"

end
