(* ===== verification/Ahci_Scan.thy ===== *)
theory Ahci_Scan
  imports Ahci
begin

text \<open>
  What a scan does to the table of drives: the drives found again keep their place, those not
  found give theirs up, new ones take the first places free.
\<close>

section \<open>The drives of the adapters\<close>

text \<open>What a scan touches besides the table: the selected PCI register and the page map.\<close>

definition scan_view :: "'z ahci_scheme \<Rightarrow> 'z ahci_scheme" where
  "scan_view s = s\<lparr>pc_addr := 0, in_descs := \<lambda>_. zero_desc\<rparr>"

lemma scan_view_simps [simp]:
  "get_drive D i (scan_view s) = get_drive D i s" "ah_scan_error (scan_view s) = ah_scan_error s" "ah_stamp (scan_view s) = ah_stamp s"
  "ah_scan_add_drives (scan_view s) = ah_scan_add_drives s" "hw_busy (scan_view s) = hw_busy s" "hw_outer (scan_view s) = hw_outer s"
  "hw_if (scan_view s) = hw_if s" "sy_mutex (scan_view s) = sy_mutex s" "pc_regs (scan_view s) = pc_regs s" "scan_view (scan_view s) = scan_view s"
  "scan_view (s\<lparr>pc_addr := a\<rparr>) = scan_view s" "scan_view (s\<lparr>in_descs := m\<rparr>) = scan_view s"
  by (simp_all add: scan_view_def get_drive_def)

lemma scan_view_on_drive: "scan_view (on_drive D i f s) = on_drive D i f (scan_view s)"
  by (simp add: scan_view_def on_drive_def)

definition new_drive :: "i32 \<Rightarrow> ptr \<Rightarrow> i32 \<Rightarrow> i32 \<Rightarrow> drive \<Rightarrow> drive" where
  "new_drive st hba device port d = d\<lparr>dk_magic := DRIVE_MAGIC, dk_stamp := st, dk_hba_pci_address := ucast device,
     dk_hba := hba, dk_hba_port := ucast port, dk_in_use := True, dk_used := True\<rparr>"

lemma new_drive_used: "dk_used d \<Longrightarrow> d\<lparr>dk_magic := DRIVE_MAGIC, dk_stamp := st, dk_hba_pci_address := ucast device,
     dk_hba := hba, dk_hba_port := ucast port, dk_in_use := True\<rparr> = new_drive st hba device port d"
  by (cases d) (simp add: new_drive_def)

lemma on_drive_twice: "on_drive D i f (on_drive D i g s) = on_drive D i (\<lambda>d. f (g d)) s"
  by (simp add: on_drive_def)

lemma get_on_drive: "get_drive D i (on_drive D i f s) = f (get_drive D i s)"
  by (simp add: on_drive_def get_drive_def)

text \<open>Adding a drive in the first place free: the place, the mutex when it is the place's first drive.\<close>

definition new_mutex :: "ptr \<Rightarrow> 'z sync_scheme \<Rightarrow> 'z sync_scheme" where
  "new_mutex a s = snd (create_mutex a s)"

lemma create_mutex_eq: "create_mutex a s = (ERR_NONE, new_mutex a s)"
  by (simp add: new_mutex_def create_mutex_def create_mem_pool_def)

lemma new_mutex_on_drive: "on_drive D i f (new_mutex a s) = new_mutex a (on_drive D i f s)"
  by (simp add: new_mutex_def create_mutex_def create_mem_pool_def on_mutex_def create_spinlock_def on_drive_def)

lemma new_mutex_simps [simp]:
  "get_drive D i (new_mutex a s) = get_drive D i s" "ah_scan_error (new_mutex a s) = ah_scan_error s"
  "ah_stamp (new_mutex a s) = ah_stamp s" "ah_scan_add_drives (new_mutex a s) = ah_scan_add_drives s"
  "(new_mutex a s)\<lparr>ah_scan_error := e\<rparr> = new_mutex a (s\<lparr>ah_scan_error := e\<rparr>)"
  by (simp_all add: new_mutex_def create_mutex_def create_mem_pool_def on_mutex_def create_spinlock_def get_drive_def)

lemma add_drive_eq:
  assumes "ah_scan_error s = ERR_NONE"
  shows "add_drive D device hba port s =
    (case find_drive (\<lambda>i. \<not> dk_in_use (get_drive D i s)) of
       None \<Rightarrow> s\<lparr>ah_scan_error := ERR_NO_MORE\<rparr>
     | Some i \<Rightarrow> (if dk_used (get_drive D i s) then id else new_mutex (drive_lock D i))
         (on_drive D i (new_drive (ah_stamp s) hba device port) (s\<lparr>ah_stamp := snd (assign_stamp_id_stamp (ah_stamp s))\<rparr>)))"
proof (cases "find_drive (\<lambda>i. \<not> dk_in_use (get_drive D i s))")
  case (Some i)
  define s1 where "s1 = on_drive D i (\<lambda>d. d\<lparr>dk_magic := DRIVE_MAGIC, dk_stamp := ah_stamp s, dk_hba_pci_address := ucast device,
      dk_hba := hba, dk_hba_port := ucast port, dk_in_use := True\<rparr>) (s\<lparr>ah_stamp := snd (assign_stamp_id_stamp (ah_stamp s))\<rparr>)"
  have e: "ah_scan_error s1 = ERR_NONE" using assms by (simp add: s1_def on_drive_def)
  have u: "dk_used (get_drive D i s1) = dk_used (get_drive D i s)" unfolding s1_def get_on_drive by (simp add: get_drive_def)
  have add: "add_drive D device hba port s = (if \<not> dk_used (get_drive D i s1) then
      on_drive D i (\<lambda>d. d\<lparr>dk_used := True\<rparr>) ((new_mutex (drive_lock D i) s1)\<lparr>ah_scan_error := ERR_NONE\<rparr>) else s1)"
    using assms Some by (simp add: add_drive_def Let_def s1_def assign_stamp_id_stamp_def create_mutex_eq)
  have keep: "s1\<lparr>ah_scan_error := ERR_NONE\<rparr> = s1" using e by simp
  show ?thesis
  proof (cases "dk_used (get_drive D i s)")
    case True
    have "s1 = on_drive D i (new_drive (ah_stamp s) hba device port) (s\<lparr>ah_stamp := snd (assign_stamp_id_stamp (ah_stamp s))\<rparr>)"
      using True by (simp add: s1_def on_drive_def get_drive_def new_drive_used)
    then show ?thesis using add u True Some by simp
  next
    case False
    have "on_drive D i (\<lambda>d. d\<lparr>dk_used := True\<rparr>) s1 =
        on_drive D i (new_drive (ah_stamp s) hba device port) (s\<lparr>ah_stamp := snd (assign_stamp_id_stamp (ah_stamp s))\<rparr>)"
      unfolding s1_def on_drive_twice new_drive_def by simp
    then show ?thesis using add u False Some by (simp add: keep new_mutex_on_drive)
  qed
qed (simp add: add_drive_def assms)

lemma scan_view_add_drive:
  assumes "ah_scan_error s = ERR_NONE"
  shows "scan_view (add_drive D device hba port s) = add_drive D device hba port (scan_view s)"
proof -
  have m: "scan_view (new_mutex a x) = new_mutex a (scan_view x)" for a and x :: "'a ahci_scheme"
    by (simp add: scan_view_def new_mutex_def create_mutex_def create_mem_pool_def on_mutex_def create_spinlock_def)
  have st: "scan_view (x\<lparr>ah_stamp := g\<rparr>) = (scan_view x)\<lparr>ah_stamp := g\<rparr>"
    "scan_view (x\<lparr>ah_scan_error := e\<rparr>) = (scan_view x)\<lparr>ah_scan_error := e\<rparr>" for x :: "'a ahci_scheme" and g e
    by (simp_all add: scan_view_def)
  have e: "ah_scan_error (scan_view s) = ERR_NONE" using assms by simp
  show ?thesis
    unfolding add_drive_eq [OF assms] add_drive_eq [OF e] by (simp add: m st scan_view_on_drive split: option.split)
qed

lemma scan_view_next_drive: "scan_view (scan_next_drive D device hba port s) = scan_next_drive D device hba port (scan_view s)"
proof (cases "ah_scan_error s = ERR_NONE")
  case True
  then show ?thesis
    by (simp add: scan_next_drive_def scan_view_on_drive scan_view_add_drive split: option.split)
qed (simp add: scan_next_drive_def)

section \<open>A scan is a walk over the drives present\<close>

type_synonym site = "i32 \<times> ptr \<times> i32"

definition bar5 :: "(u32 \<Rightarrow> u32) \<Rightarrow> i32 \<Rightarrow> ptr" where
  "bar5 regs device = ucast (field_of regs device PCI_FIELD_BAR5 AND NOT 0xF)"

text \<open>The ports of an adapter with a drive, the drives of all adapters.\<close>

definition hba_sites :: "ahci_env \<Rightarrow> (u32 \<Rightarrow> u32) \<Rightarrow> i32 \<Rightarrow> site list" where
  "hba_sites D regs device = map (\<lambda>port. (device, bar5 regs device, word_of_nat port))
     (filter (\<lambda>port. bit (hba_pi D (bar5 regs device)) port \<and> drive_present D (bar5 regs device) port) [0..<MAX_PORTS])"

definition sites :: "ahci_env \<Rightarrow> (u32 \<Rightarrow> u32) \<Rightarrow> nat \<Rightarrow> site list" where
  "sites D regs n = concat (map (hba_sites D regs) (filter (of_type regs PCI_TYPE_SERIAL_ATA) (all_devices regs n)))"

definition visit_site :: "ahci_env \<Rightarrow> site \<Rightarrow> 'z ahci_scheme \<Rightarrow> 'z ahci_scheme" where
  "visit_site D st = (case st of (device, hba, port) \<Rightarrow> scan_next_drive D device hba port)"

lemma visit_error: "ah_scan_error s \<noteq> ERR_NONE \<Longrightarrow> fold (visit_site D) sts s = s"
  by (induction sts) (auto simp: visit_site_def scan_next_drive_def)

lemma fold_ports:
  "fold (\<lambda>port s. if P port then visit_site D (g port) s else s) ps s = fold (visit_site D) (map g (filter P ps)) s"
  by (induction ps arbitrary: s) auto

lemma scan_view_visit: "scan_view (fold (visit_site D) sts s) = fold (visit_site D) sts (scan_view s)"
  by (induction sts arbitrary: s) (auto simp: visit_site_def scan_view_next_drive)

lemma add_drive_regs: "pc_regs (add_drive D device hba port s) = pc_regs s"
proof (cases "ah_scan_error s = ERR_NONE")
  case True
  have "pc_regs (new_mutex a x) = pc_regs x" "pc_regs (on_drive D i f x) = pc_regs x" for a i f and x :: "'a ahci_scheme"
    by (simp_all add: new_mutex_def create_mutex_def create_mem_pool_def on_mutex_def create_spinlock_def on_drive_def)
  then show ?thesis unfolding add_drive_eq [OF True] by (simp split: option.split)
qed (simp add: add_drive_def)

lemma visit_regs: "pc_regs (fold (visit_site D) sts s) = pc_regs s"
proof (induction sts arbitrary: s)
  case (Cons st sts)
  have "pc_regs (visit_site D st s) = pc_regs s"
    by (cases st) (simp add: visit_site_def scan_next_drive_def add_drive_regs on_drive_def split: option.split)
  then show ?case using Cons by simp
qed simp

lemma scan_next_hba_visits:
  assumes "pc_regs s = regs"
  shows "scan_view (scan_next_hba D device s) = fold (visit_site D) (hba_sites D regs device) (scan_view s)"
    "pc_regs (scan_next_hba D device s) = regs"
proof -
  let ?s1 = "s\<lparr>pc_addr := get_addr device PCI_FIELD_BAR5\<rparr>"
  have run: "\<exists>d'. scan_next_hba D device s = fold (visit_site D) (hba_sites D regs device) (?s1\<lparr>in_descs := d'\<rparr>)"
    if "ah_scan_error s = ERR_NONE"
    using that assms unfolding scan_next_hba_def read_field Let_def hba_sites_def fold_ports [symmetric] visit_site_def bar5_def
    by (auto simp del: upt.simps)
  show "scan_view (scan_next_hba D device s) = fold (visit_site D) (hba_sites D regs device) (scan_view s)"
  proof (cases "ah_scan_error s = ERR_NONE")
    case True
    then show ?thesis using run by (auto simp: scan_view_visit)
  next
    case False
    then show ?thesis using visit_error [of "scan_view s" D] by (simp add: scan_next_hba_def)
  qed
  show "pc_regs (scan_next_hba D device s) = regs"
  proof (cases "ah_scan_error s = ERR_NONE")
    case True
    then show ?thesis using run assms by (auto simp: visit_regs)
  qed (simp add: scan_next_hba_def assms)
qed

interpretation hba_scan: scan_observer regs "scan_next_hba D" scan_view
  "\<lambda>device. fold (visit_site D) (hba_sites D regs device)" for regs D
  by unfold_locales (simp_all add: scan_next_hba_visits)

lemma scan_pci_visits:
  assumes "pc_regs s = regs" "bridges_upward regs" "256 \<le> n"
  obtains s' where "scan_pci n (scan_next_hba D) PCI_TYPE_SERIAL_ATA s = Some s'" "pc_regs s' = regs"
    "scan_view s' = fold (visit_site D) (sites D regs n) (scan_view s)"
proof -
  have "fold (\<lambda>device. fold (visit_site D) (hba_sites D regs device)) ds x = fold (visit_site D) (concat (map (hba_sites D regs) ds)) x"
    for ds and x :: "'a ahci_scheme" by (induction ds arbitrary: x) simp_all
  then show thesis
    using hba_scan.visitsD [OF hba_scan.visits_scan [OF assms(2,3)] assms(1), of D PCI_TYPE_SERIAL_ATA] that
    unfolding sites_def by metis
qed

section \<open>The table of drives\<close>

type_synonym place = "i32 \<times> i32"

text \<open>Where the drive in a place is, as the code reads it back from the bit-fields.\<close>

definition place_of :: "drive \<Rightarrow> place option" where
  "place_of d = (if dk_in_use d then Some (scast (dk_hba_pci_address d), scast (dk_hba_port d)) else None)"

definition slots :: "ahci_env \<Rightarrow> 'z ahci_scheme \<Rightarrow> place option list" where
  "slots D s = map (\<lambda>i. place_of (get_drive D i s)) [0..<MAX_DRIVES]"

definition site_place :: "site \<Rightarrow> place" where
  "site_place st = (case st of (device, hba, port) \<Rightarrow> (device, port))"

text \<open>A place the bit-fields hold: 24 and 5 bits with sign.\<close>

definition fits :: "place \<Rightarrow> bool" where
  "fits p \<longleftrightarrow> scast (ucast (fst p) :: 24 word) = fst p \<and> scast (ucast (snd p) :: 5 word) = snd p"

lemma drive_at_inj: "i < MAX_DRIVES \<Longrightarrow> j < MAX_DRIVES \<Longrightarrow> drive_at D i = drive_at D j \<longleftrightarrow> i = j"
  unfolding drive_at_def by (subst addr_inj) auto

lemma get_on_drive_other:
  assumes "i < MAX_DRIVES" "j < MAX_DRIVES"
  shows "get_drive D j (on_drive D i f s) = (if i = j then f (get_drive D j s) else get_drive D j s)"
  using drive_at_inj [OF assms, of D] by (auto simp: on_drive_def get_drive_def)

lemma length_slots [simp]: "length (slots D s) = MAX_DRIVES"
  by (simp add: slots_def)

lemma nth_slots: "i < MAX_DRIVES \<Longrightarrow> slots D s ! i = place_of (get_drive D i s)"
  unfolding slots_def by (subst nth_map) auto

lemma slots_eqI: "(\<And>i. i < MAX_DRIVES \<Longrightarrow> place_of (get_drive D i s) = xs ! i) \<Longrightarrow> length xs = MAX_DRIVES \<Longrightarrow> slots D s = xs"
  by (rule nth_equalityI) (simp_all add: nth_slots)

lemma slots_frame: "(\<And>i. get_drive D i s' = get_drive D i s) \<Longrightarrow> slots D s' = slots D s"
  by (simp add: slots_def)

lemma find_drive_Some: "find_drive P = Some i \<longleftrightarrow> i < MAX_DRIVES \<and> P i \<and> (\<forall>j<i. \<not> P j)"
  unfolding find_drive_def by (rule find_upt_Some)

lemma find_drive_None: "find_drive P = None \<longleftrightarrow> (\<forall>i<MAX_DRIVES. \<not> P i)"
  unfolding find_drive_def by (auto simp: find_None_iff)

text \<open>The place a drive is looked for in.\<close>

lemma visit_site_eq:
  assumes "ah_scan_error s = ERR_NONE"
  shows "visit_site D (device, hba, port) s =
    (case find_drive (\<lambda>i. slots D s ! i = Some (device, port)) of
       Some i \<Rightarrow> on_drive D i (\<lambda>d. d\<lparr>dk_scanned := True\<rparr>) s
     | None \<Rightarrow> if ah_scan_add_drives s then add_drive D device hba port s else s)"
proof -
  have "find_drive (\<lambda>i. dk_in_use (get_drive D i s) \<and> scast (dk_hba_pci_address (get_drive D i s)) = device \<and>
      scast (dk_hba_port (get_drive D i s)) = port) = find_drive (\<lambda>i. slots D s ! i = Some (device, port))"
    unfolding find_drive_def by (rule find_cong) (auto simp: nth_slots place_of_def)
  then show ?thesis using assms by (simp add: visit_site_def scan_next_drive_def)
qed

text \<open>Marking what is still there.\<close>

definition one_each :: "place option list \<Rightarrow> bool" where
  "one_each sl \<longleftrightarrow> (\<forall>i<length sl. \<forall>j<length sl. sl ! i \<noteq> None \<longrightarrow> sl ! i = sl ! j \<longrightarrow> i = j)"

definition marked :: "bool \<Rightarrow> drive \<Rightarrow> drive" where
  "marked b d = d\<lparr>dk_scanned := dk_scanned d \<or> b\<rparr>"

lemma marked_simps [simp]:
  "place_of (marked b d) = place_of d" "dk_in_use (marked b d) = dk_in_use d" "dk_scanned (marked b d) = (dk_scanned d \<or> b)"
  "dk_magic (marked b d) = dk_magic d" "dk_stamp (marked b d) = dk_stamp d" "marked a (marked b d) = marked (a \<or> b) d"
  "marked False d = d"
  by (simp_all add: marked_def place_of_def disj_comms)

lemma mark_drives:
  assumes "ah_scan_error s = ERR_NONE" "\<not> ah_scan_add_drives s" "one_each (slots D s)"
  defines "s' \<equiv> \<lambda>sts. fold (visit_site D) sts s"
  shows "s' sts = s\<lparr>ah_drives := ah_drives (s' sts)\<rparr> \<and>
    (\<forall>i<MAX_DRIVES. get_drive D i (s' sts) = marked (slots D s ! i \<in> Some ` site_place ` set sts) (get_drive D i s))"
proof (induction sts rule: rev_induct)
  case (snoc st sts)
  obtain device hba port where st: "st = (device, hba, port)" by (cases st)
  let ?s1 = "s' sts" and ?p = "(device, port)"
  have s1: "?s1 = s\<lparr>ah_drives := ah_drives ?s1\<rparr>"
    "i < MAX_DRIVES \<Longrightarrow> get_drive D i ?s1 = marked (slots D s ! i \<in> Some ` site_place ` set sts) (get_drive D i s)" for i
    using snoc by auto
  have e: "ah_scan_error ?s1 = ERR_NONE" "\<not> ah_scan_add_drives ?s1" by (subst s1(1), simp add: assms(1,2))+
  have sl: "slots D ?s1 = slots D s" by (rule slots_eqI) (simp_all add: s1(2) nth_slots)
  have step: "s' (sts @ [st]) = visit_site D (device, hba, port) ?s1" by (simp add: s'_def st)
  note step = step [unfolded visit_site_eq [OF e(1)] sl]
  have p: "site_place st = ?p" by (simp add: st site_place_def)
  show ?case
  proof (cases "find_drive (\<lambda>i. slots D s ! i = Some ?p)")
    case None
    then have "s' (sts @ [st]) = ?s1" using step e(2) by simp
    moreover have "slots D s ! i \<noteq> Some ?p" if "i < MAX_DRIVES" for i using None that by (simp add: find_drive_None)
    ultimately show ?thesis using snoc p by auto
  next
    case (Some k)
    then have k: "k < MAX_DRIVES" "slots D s ! k = Some ?p" by (auto simp: find_drive_Some)
    have s2: "s' (sts @ [st]) = on_drive D k (\<lambda>d. d\<lparr>dk_scanned := True\<rparr>) ?s1" using step Some by simp
    have "slots D s ! i = Some ?p \<longleftrightarrow> i = k" if "i < MAX_DRIVES" for i
      using assms(3) k that unfolding one_each_def by (metis length_slots option.distinct(1))
    then have d: "get_drive D i (s' (sts @ [st])) =
        marked (slots D s ! i \<in> Some ` site_place ` set (sts @ [st])) (get_drive D i s)" if "i < MAX_DRIVES" for i
      unfolding s2 get_on_drive_other [OF k(1) that] s1(2) [OF that] using that p
      by (cases "i = k") (auto simp: marked_def)
    have "s' (sts @ [st]) = s\<lparr>ah_drives := ah_drives (s' (sts @ [st]))\<rparr>"
      unfolding s2 on_drive_def by (subst s1(1)) simp
    with d show ?thesis by blast
  qed
qed (simp add: s'_def)

text \<open>Forgetting the marks.\<close>

lemma forget_scanned_eq:
  "forget_scanned D s = s\<lparr>ah_drives := ah_drives (forget_scanned D s)\<rparr>"
  "i < MAX_DRIVES \<Longrightarrow> get_drive D i (forget_scanned D s) =
    (if dk_in_use (get_drive D i s) then (get_drive D i s)\<lparr>dk_scanned := False\<rparr> else get_drive D i s)"
proof -
  define f :: "nat list \<Rightarrow> 'a ahci_scheme" where "f = (\<lambda>is. fold (\<lambda>i s. if dk_in_use (get_drive D i s)
      then on_drive D i (\<lambda>d. d\<lparr>dk_scanned := False\<rparr>) s else s) is s)"
  have "f is = s\<lparr>ah_drives := ah_drives (f is)\<rparr> \<and>
      (\<forall>i<MAX_DRIVES. get_drive D i (f is) = (if i \<in> set is \<and> dk_in_use (get_drive D i s)
        then (get_drive D i s)\<lparr>dk_scanned := False\<rparr> else get_drive D i s))" if "set is \<subseteq> {..<MAX_DRIVES}" for "is"
    using that
  proof (induction "is" rule: rev_induct)
    case (snoc k "is")
    then have k: "k < MAX_DRIVES" and ih: "f is = s\<lparr>ah_drives := ah_drives (f is)\<rparr>"
      "\<forall>i<MAX_DRIVES. get_drive D i (f is) = (if i \<in> set is \<and> dk_in_use (get_drive D i s)
        then (get_drive D i s)\<lparr>dk_scanned := False\<rparr> else get_drive D i s)" by auto
    have step: "f (is @ [k]) = (if dk_in_use (get_drive D k s) then on_drive D k (\<lambda>d. d\<lparr>dk_scanned := False\<rparr>) (f is) else f is)"
      using ih(2) k by (simp add: f_def)
    have "f (is @ [k]) = s\<lparr>ah_drives := ah_drives (f (is @ [k]))\<rparr>"
      unfolding step on_drive_def by (subst (1 2) ih(1)) simp
    then show ?case using ih(2) k by (auto simp: step get_on_drive_other)
  qed (simp add: f_def)
  moreover have "set [0..<MAX_DRIVES] \<subseteq> {..<MAX_DRIVES}" by auto
  moreover have "forget_scanned D s = f [0..<MAX_DRIVES]" by (simp only: forget_scanned_def f_def)
  ultimately show "forget_scanned D s = s\<lparr>ah_drives := ah_drives (forget_scanned D s)\<rparr>"
    "i < MAX_DRIVES \<Longrightarrow> get_drive D i (forget_scanned D s) =
      (if dk_in_use (get_drive D i s) then (get_drive D i s)\<lparr>dk_scanned := False\<rparr> else get_drive D i s)"
    by auto
qed

section \<open>Removing drives\<close>

definition missing :: "drive \<Rightarrow> bool" where
  "missing d \<longleftrightarrow> dk_in_use d \<and> \<not> dk_scanned d"

definition dropped :: "bool \<Rightarrow> bool \<Rightarrow> drive \<Rightarrow> drive" where
  "dropped gone first d = d\<lparr>dk_magic := (if first then 0 else dk_magic d), dk_in_use := dk_in_use d \<and> \<not> gone\<rparr>"

lemma dropped_dropped: "dropped a b (dropped a' b' d) = dropped (a \<or> a') (b \<or> b') d"
  by (cases d) (auto simp: dropped_def)

definition drive_locks_free :: "ahci_env \<Rightarrow> nat \<Rightarrow> 'z ahci_scheme \<Rightarrow> bool" where
  "drive_locks_free D c s \<longleftrightarrow> (\<forall>i<MAX_DRIVES. mutex_free c (drive_lock D i) s)"

lemma drive_locks_free_frame: "drive_locks_free D c (s\<lparr>ah_drives := h\<rparr>) = drive_locks_free D c s"
  by (simp add: drive_locks_free_def mutex_free_def lock_free_def)

lemma remove_drive_eq:
  assumes "mutex_free c (drive_lock D i) s" "ah_scan_error s = ERR_NONE"
  shows "remove_drive E env D c i s =
    Ret (on_drive D i (\<lambda>d. d\<lparr>dk_in_use := False\<rparr>) (on_drive D 0 (\<lambda>d. d\<lparr>dk_magic := 0\<rparr>) s))"
proof -
  let ?f = "\<lambda>x. on_drive D i (\<lambda>d. d\<lparr>dk_in_use := False\<rparr>) (on_drive D 0 (\<lambda>d. d\<lparr>dk_magic := 0\<rparr>) x)"
  let ?s1 = "s\<lparr>hw_busy := (hw_busy s)(Lock_mlock (drive_lock D i) := 1)\<rparr>"
  have "under_mutex E env c (drive_lock D i) (\<lambda>s1. (ERR_NONE, (), ?f (s1\<lparr>ah_scan_error := ERR_NONE\<rparr>))) () s =
      Ret (ERR_NONE, (), hw_put (hw_busy s) (hw_outer s) (hw_if s) (?f (?s1\<lparr>ah_scan_error := ERR_NONE\<rparr>)))"
    by (rule under_mutex_free [OF assms(1) refl]) (simp_all add: same_hw_def on_drive_def)
  moreover have "hw_put (hw_busy s) (hw_outer s) (hw_if s) (?f (?s1\<lparr>ah_scan_error := ERR_NONE\<rparr>)) = ?f s"
    using assms(2) by (simp add: hw_put_def on_drive_def)
  moreover have "(?f s)\<lparr>ah_scan_error := ERR_NONE\<rparr> = ?f s" using assms(2) by (simp add: on_drive_def)
  ultimately show ?thesis by (simp add: remove_drive_def)
qed

text \<open>
  The missing drives are no longer in use but keep their magic numbers; the first drive loses
  its own as soon as any drive is removed.
\<close>

lemma remove_missing_eq:
  assumes "ah_scan_error s = ERR_NONE" "drive_locks_free D c s" "set is \<subseteq> {..<MAX_DRIVES}" "distinct is"
  obtains s' where "remove_missing E env D c is s = Ret s'" "s' = s\<lparr>ah_drives := ah_drives s'\<rparr>"
    "\<And>i. i < MAX_DRIVES \<Longrightarrow> get_drive D i s' = dropped (i \<in> set is \<and> missing (get_drive D i s))
       (i = 0 \<and> (\<exists>k\<in>set is. missing (get_drive D k s))) (get_drive D i s)"
  using assms
proof (induction "is" arbitrary: s thesis)
  case Nil
  then show ?case by (simp add: dropped_def)
next
  case (Cons k "is")
  have k: "k < MAX_DRIVES" "k \<notin> set is" "set is \<subseteq> {..<MAX_DRIVES}" "distinct is" using Cons.prems by auto
  show ?case
  proof (cases "missing (get_drive D k s)")
    case False
    then have run: "remove_missing E env D c (k # is) s = remove_missing E env D c is s" by (auto simp: missing_def)
    obtain s' where "remove_missing E env D c is s = Ret s'" "s' = s\<lparr>ah_drives := ah_drives s'\<rparr>"
      "\<And>i. i < MAX_DRIVES \<Longrightarrow> get_drive D i s' = dropped (i \<in> set is \<and> missing (get_drive D i s))
       (i = 0 \<and> (\<exists>k\<in>set is. missing (get_drive D k s))) (get_drive D i s)"
      by (rule Cons.IH [OF that Cons.prems(2,3) k(3,4)])
    moreover have "i \<in> set (k # is) \<and> missing (get_drive D i s) \<longleftrightarrow> i \<in> set is \<and> missing (get_drive D i s)"
      "(\<exists>k\<in>set (k # is). missing (get_drive D k s)) \<longleftrightarrow> (\<exists>k\<in>set is. missing (get_drive D k s))" for i
      using False by auto
    ultimately show ?thesis using run by (intro Cons.prems(1) [of s']) (simp_all only:)
  next
    case True
    let ?s1 = "on_drive D k (\<lambda>d. d\<lparr>dk_in_use := False\<rparr>) (on_drive D 0 (\<lambda>d. d\<lparr>dk_magic := 0\<rparr>) s)"
    have "mutex_free c (drive_lock D k) s" using Cons.prems(3) k(1) by (simp add: drive_locks_free_def)
    then have run: "remove_missing E env D c (k # is) s = remove_missing E env D c is ?s1"
      using True remove_drive_eq [of c D k s E env] Cons.prems(2) by (auto simp: missing_def)
    have frame: "?s1 = s\<lparr>ah_drives := ah_drives ?s1\<rparr>" by (simp add: on_drive_def)
    have e: "ah_scan_error ?s1 = ERR_NONE" using Cons.prems(2) by (simp add: on_drive_def)
    have l: "drive_locks_free D c ?s1" using Cons.prems(3) frame drive_locks_free_frame by metis
    have d: "get_drive D i ?s1 = dropped (i = k) (i = 0) (get_drive D i s)" if "i < MAX_DRIVES" for i
      using that k(1) by (auto simp: get_on_drive_other dropped_def)
    have m: "missing (get_drive D i ?s1) \<longleftrightarrow> missing (get_drive D i s)" if "i \<in> set is" for i
      using d [of i] that k(2,3) by (auto simp: missing_def dropped_def)
    obtain s' where s': "remove_missing E env D c is ?s1 = Ret s'" "s' = ?s1\<lparr>ah_drives := ah_drives s'\<rparr>"
      "\<And>i. i < MAX_DRIVES \<Longrightarrow> get_drive D i s' = dropped (i \<in> set is \<and> missing (get_drive D i ?s1))
       (i = 0 \<and> (\<exists>k\<in>set is. missing (get_drive D k ?s1))) (get_drive D i ?s1)"
      by (rule Cons.IH [OF that e l k(3,4)])
    show ?thesis
    proof (rule Cons.prems(1))
      show "remove_missing E env D c (k # is) s = Ret s'" unfolding run by (rule s'(1))
      show "s' = s\<lparr>ah_drives := ah_drives s'\<rparr>" by (subst s'(2), subst frame) simp
      fix i assume i: "i < MAX_DRIVES"
      show "get_drive D i s' = dropped (i \<in> set (k # is) \<and> missing (get_drive D i s))
       (i = 0 \<and> (\<exists>k\<in>set (k # is). missing (get_drive D k s))) (get_drive D i s)"
      proof -
        have "i \<in> set is \<and> missing (get_drive D i ?s1) \<or> i = k \<longleftrightarrow> i \<in> set (k # is) \<and> missing (get_drive D i s)"
          using True m [of i] by auto
        moreover have "i = 0 \<and> (\<exists>k\<in>set is. missing (get_drive D k ?s1)) \<or> i = 0 \<longleftrightarrow>
            i = 0 \<and> (\<exists>k\<in>set (k # is). missing (get_drive D k s))"
          using True by auto
        ultimately show ?thesis unfolding s'(3) [OF i] d [OF i] dropped_dropped by (simp only:)
      qed
    qed
  qed
qed

section \<open>Adding drives\<close>

text \<open>The table as a list of places: a place not in it goes to the first one free.\<close>

definition add_place :: "place \<Rightarrow> place option list \<times> err_code \<Rightarrow> place option list \<times> err_code" where
  "add_place p x = (case x of (sl, err) \<Rightarrow>
     (if err \<noteq> ERR_NONE \<or> Some p \<in> set sl then (sl, err)
      else case find_drive (\<lambda>i. sl ! i = None) of
        Some i \<Rightarrow> (sl[i := Some p], err)
      | None \<Rightarrow> (sl, ERR_NO_MORE)))"

lemma add_place_error: "err \<noteq> ERR_NONE \<Longrightarrow> fold add_place ps (sl, err) = (sl, err)"
  by (induction ps) (auto simp: add_place_def)

lemma Some_in_slots: "Some p \<in> set (slots D s) \<longleftrightarrow> (\<exists>i<MAX_DRIVES. slots D s ! i = Some p)"
  by (simp add: in_set_conv_nth)

lemma find_free_slot: "find_drive (\<lambda>i. \<not> dk_in_use (get_drive D i s)) = find_drive (\<lambda>i. slots D s ! i = None)"
  unfolding find_drive_def by (rule find_cong) (auto simp: nth_slots place_of_def)

definition kept :: "drive \<Rightarrow> drive \<Rightarrow> bool" where
  "kept d d' \<longleftrightarrow> dk_magic d' = dk_magic d \<and> dk_stamp d' = dk_stamp d \<and> dk_hba d' = dk_hba d \<and> place_of d' = place_of d"

lemma kept_refl: "kept d d"
  by (simp add: kept_def)

lemma kept_trans: "kept d d' \<Longrightarrow> kept d' d'' \<Longrightarrow> kept d d''"
  by (simp add: kept_def)

lemma visit_site_adds:
  fixes D :: ahci_env
  assumes "ah_scan_error s = ERR_NONE" "ah_scan_add_drives s" "fits (site_place st)"
  defines "s' \<equiv> visit_site D st s"
  shows "(slots D s', ah_scan_error s') = add_place (site_place st) (slots D s, ERR_NONE)"
    "ah_scan_add_drives s'" "\<And>i. i < MAX_DRIVES \<Longrightarrow> slots D s ! i \<noteq> None \<Longrightarrow> kept (get_drive D i s) (get_drive D i s')"
proof -
  obtain device hba port where st: "st = (device, hba, port)" by (cases st)
  let ?p = "(device, port)"
  have p: "site_place st = ?p" by (simp add: st site_place_def)
  note visit = visit_site_eq [OF assms(1), of D device hba port, folded st, folded s'_def]
  show "(slots D s', ah_scan_error s') = add_place (site_place st) (slots D s, ERR_NONE)"
    "ah_scan_add_drives s'" "\<And>i. i < MAX_DRIVES \<Longrightarrow> slots D s ! i \<noteq> None \<Longrightarrow> kept (get_drive D i s) (get_drive D i s')"
  proof -
    consider k where "find_drive (\<lambda>i. slots D s ! i = Some ?p) = Some k"
      | "find_drive (\<lambda>i. slots D s ! i = Some ?p) = None" "find_drive (\<lambda>i. slots D s ! i = None) = None"
      | k where "find_drive (\<lambda>i. slots D s ! i = Some ?p) = None" "find_drive (\<lambda>i. slots D s ! i = None) = Some k"
      by (cases "find_drive (\<lambda>i. slots D s ! i = Some ?p)"; cases "find_drive (\<lambda>i. slots D s ! i = None)") auto
    then have "(slots D s', ah_scan_error s') = add_place (site_place st) (slots D s, ERR_NONE) \<and> ah_scan_add_drives s' \<and>
        (\<forall>i<MAX_DRIVES. slots D s ! i \<noteq> None \<longrightarrow> kept (get_drive D i s) (get_drive D i s'))"
    proof cases
      case (1 k)
      then have k: "k < MAX_DRIVES" "slots D s ! k = Some ?p" by (auto simp: find_drive_Some)
      have s': "s' = on_drive D k (\<lambda>d. d\<lparr>dk_scanned := True\<rparr>) s" using visit 1 by simp
      have d: "get_drive D i s' = (if i = k then marked True (get_drive D i s) else get_drive D i s)" if "i < MAX_DRIVES" for i
        unfolding s' get_on_drive_other [OF k(1) that] by (auto simp: marked_def)
      have "slots D s' = slots D s" by (rule slots_eqI) (simp_all add: d nth_slots)
      moreover have "Some ?p \<in> set (slots D s)" using k Some_in_slots by blast
      moreover have "ah_scan_error s' = ERR_NONE" "ah_scan_add_drives s'" using assms(1,2) by (simp_all add: s' on_drive_def)
      moreover have "kept x (marked True x)" for x by (simp add: kept_def marked_def place_of_def)
      ultimately show ?thesis by (auto simp: p add_place_def d kept_refl)
    next
      case 2
      have "s' = s\<lparr>ah_scan_error := ERR_NO_MORE\<rparr>"
        using visit 2 assms(2) by (simp add: add_drive_eq [OF assms(1)] find_free_slot)
      moreover have "slots D (s\<lparr>ah_scan_error := ERR_NO_MORE\<rparr>) = slots D s" by (rule slots_frame) (simp add: get_drive_def)
      moreover have "Some ?p \<notin> set (slots D s)" using 2(1) unfolding Some_in_slots find_drive_None by blast
      ultimately show ?thesis using 2(2) assms(2) by (simp add: p add_place_def get_drive_def kept_def)
    next
      case (3 k)
      then have k: "k < MAX_DRIVES" "slots D s ! k = None" by (auto simp: find_drive_Some)
      let ?s1 = "on_drive D k (new_drive (ah_stamp s) hba device port) (s\<lparr>ah_stamp := snd (assign_stamp_id_stamp (ah_stamp s))\<rparr>)"
      have s': "s' = (if dk_used (get_drive D k s) then id else new_mutex (drive_lock D k)) ?s1"
        using visit 3 assms(2) by (simp add: add_drive_eq [OF assms(1)] find_free_slot)
      have d: "get_drive D i s' = (if i = k then new_drive (ah_stamp s) hba device port (get_drive D i s) else get_drive D i s)"
        if "i < MAX_DRIVES" for i
      proof -
        have "get_drive D i s' = get_drive D i ?s1" unfolding s' by simp
        moreover have "get_drive D j (s\<lparr>ah_stamp := snd (assign_stamp_id_stamp (ah_stamp s))\<rparr>) = get_drive D j s" for j
          by (simp add: get_drive_def)
        ultimately show ?thesis by (auto simp: get_on_drive_other [OF k(1) that])
      qed
      have "place_of (new_drive (ah_stamp s) hba device port x) = Some ?p" for x
        using assms(3) by (simp add: place_of_def new_drive_def fits_def p)
      then have "slots D s' = (slots D s)[k := Some ?p]"
        using k(1) by (intro slots_eqI) (auto simp: d nth_slots nth_list_update)
      moreover have "Some ?p \<notin> set (slots D s)" using 3(1) unfolding Some_in_slots find_drive_None by blast
      moreover have "ah_scan_error s' = ERR_NONE" "ah_scan_add_drives s'" using assms(1,2) by (simp_all add: s' on_drive_def)
      moreover have "kept (get_drive D i s) (get_drive D i s')" if "i < MAX_DRIVES" "slots D s ! i \<noteq> None" for i
        using that k(2) d [OF that(1)] by (auto simp: kept_refl)
      ultimately show ?thesis using 3(2) by (simp add: p add_place_def)
    qed
    then show "(slots D s', ah_scan_error s') = add_place (site_place st) (slots D s, ERR_NONE)"
      "ah_scan_add_drives s'" "\<And>i. i < MAX_DRIVES \<Longrightarrow> slots D s ! i \<noteq> None \<Longrightarrow> kept (get_drive D i s) (get_drive D i s')"
      by blast+
  qed
qed

lemma add_place_keeps: "i < MAX_DRIVES \<Longrightarrow> sl ! i \<noteq> None \<Longrightarrow> fst (add_place p (sl, err)) ! i = sl ! i"
  by (auto simp: add_place_def find_drive_Some split: option.split) (metis nth_list_update_neq option.distinct(1))

lemma fill_drives:
  fixes D :: ahci_env
  assumes "ah_scan_error s = ERR_NONE" "ah_scan_add_drives s" "\<forall>st\<in>set sts. fits (site_place st)"
  defines "s' \<equiv> fold (visit_site D) sts s"
  shows "(slots D s', ah_scan_error s') = fold add_place (map site_place sts) (slots D s, ERR_NONE)"
    "\<And>i. i < MAX_DRIVES \<Longrightarrow> slots D s ! i \<noteq> None \<Longrightarrow> kept (get_drive D i s) (get_drive D i s')"
proof -
  have "(slots D (fold (visit_site D) sts s), ah_scan_error (fold (visit_site D) sts s)) =
      fold add_place (map site_place sts) (slots D s, ERR_NONE) \<and>
      (\<forall>i<MAX_DRIVES. slots D s ! i \<noteq> None \<longrightarrow> kept (get_drive D i s) (get_drive D i (fold (visit_site D) sts s)))"
    using assms(1-3)
  proof (induction sts arbitrary: s)
    case (Cons st sts)
    let ?s1 = "visit_site D st s"
    have f: "fits (site_place st)" "\<forall>st\<in>set sts. fits (site_place st)" using Cons.prems(3) by simp_all
    note v = visit_site_adds [OF Cons.prems(1,2) f(1), where D = D]
    show ?case
    proof (cases "ah_scan_error ?s1 = ERR_NONE")
      case True
      have "slots D ?s1 ! i \<noteq> None" if "i < MAX_DRIVES" "slots D s ! i \<noteq> None" for i
        using add_place_keeps [OF that, of "site_place st" ERR_NONE] that(2) unfolding v(1) [symmetric] by simp
      then show ?thesis
        using Cons.IH [OF True v(2) f(2)] v(3) kept_trans v(1) [symmetric] True by simp blast
    next
      case False
      have "fold (visit_site D) sts ?s1 = ?s1" by (rule visit_error [OF False])
      moreover have "fold add_place (map site_place sts) (slots D ?s1, ah_scan_error ?s1) = (slots D ?s1, ah_scan_error ?s1)"
        by (rule add_place_error [OF False])
      ultimately show ?thesis using v by simp
    qed
  qed (simp add: kept_refl)
  then show "(slots D s', ah_scan_error s') = fold add_place (map site_place sts) (slots D s, ERR_NONE)"
    "\<And>i. i < MAX_DRIVES \<Longrightarrow> slots D s ! i \<noteq> None \<Longrightarrow> kept (get_drive D i s) (get_drive D i s')"
    unfolding s'_def by blast+
qed

section \<open>A whole scan\<close>

definition found :: "ahci_env \<Rightarrow> (u32 \<Rightarrow> u32) \<Rightarrow> nat \<Rightarrow> place option \<Rightarrow> bool" where
  "found D regs n x \<longleftrightarrow> x \<in> Some ` site_place ` set (sites D regs n)"

definition still_there :: "ahci_env \<Rightarrow> (u32 \<Rightarrow> u32) \<Rightarrow> nat \<Rightarrow> place option list \<Rightarrow> place option list" where
  "still_there D regs n sl = map (\<lambda>x. if found D regs n x then x else None) sl"

lemma still_there_nth: "i < length sl \<Longrightarrow> still_there D regs n sl ! i = (if found D regs n (sl ! i) then sl ! i else None)"
  by (simp add: still_there_def)

lemma still_there_same: "still_there D regs n sl \<noteq> sl \<longleftrightarrow> (\<exists>k<length sl. sl ! k \<noteq> None \<and> \<not> found D regs n (sl ! k))"
proof -
  have "still_there D regs n sl = sl \<longleftrightarrow> (\<forall>x\<in>set sl. x = None \<or> found D regs n x)"
    by (induction sl) (auto simp: still_there_def)
  then show ?thesis by (metis in_set_conv_nth)
qed

lemma not_found_None: "\<not> found D regs n None"
  by (auto simp: found_def)

lemma one_each_still_there: "one_each sl \<Longrightarrow> one_each (still_there D regs n sl)"
  unfolding one_each_def by (auto simp: still_there_def split: if_splits)

lemma one_each_add_place:
  assumes "one_each (fst x)"
  shows "one_each (fst (add_place p x))"
proof (cases x)
  case (Pair sl err)
  consider "add_place p x = (sl, err)" | "add_place p x = (sl, ERR_NO_MORE)"
    | i where "add_place p x = (sl[i := Some p], err)" "Some p \<notin> set sl"
    by (cases "err \<noteq> ERR_NONE \<or> Some p \<in> set sl"; cases "find_drive (\<lambda>i. sl ! i = None)") (auto simp: add_place_def Pair)
  then show ?thesis
  proof cases
    case (3 i)
    have "sl ! j \<noteq> Some p" if "j < length sl" for j using 3(2) that nth_mem [of j sl] by metis
    with assms 3(1) Pair show ?thesis
      by (cases "i < length sl") (auto simp: one_each_def nth_list_update split: if_splits, metis+)
  qed (use assms Pair in simp_all)
qed

lemma one_each_add_places: "one_each (fst x) \<Longrightarrow> one_each (fst (fold add_place ps x))"
  by (induction ps arbitrary: x) (simp_all add: one_each_add_place)

lemma pass_marks:
  assumes "pc_regs s = regs" "bridges_upward regs" "256 \<le> n" "ah_scan_error s = ERR_NONE" "one_each (slots D s)"
    and "drive_locks_free D c s"
  obtains s2 where "scan_pci n (scan_next_hba D) PCI_TYPE_SERIAL_ATA ((forget_scanned D s)\<lparr>ah_scan_add_drives := False\<rparr>) = Some s2"
    "pc_regs s2 = regs" "ah_scan_error s2 = ERR_NONE" "drive_locks_free D c s2"
    "\<And>i. i < MAX_DRIVES \<Longrightarrow> kept (get_drive D i s) (get_drive D i s2) \<and>
       missing (get_drive D i s2) = (slots D s ! i \<noteq> None \<and> \<not> found D regs n (slots D s ! i))"
proof -
  let ?s1 = "(forget_scanned D s)\<lparr>ah_scan_add_drives := False\<rparr>"
  have f1: "?s1 = s\<lparr>ah_drives := ah_drives (forget_scanned D s), ah_scan_add_drives := False\<rparr>"
    by (subst forget_scanned_eq(1)) simp
  have d1: "get_drive D i ?s1 = (if dk_in_use (get_drive D i s) then (get_drive D i s)\<lparr>dk_scanned := False\<rparr> else get_drive D i s)"
    if "i < MAX_DRIVES" for i
    using forget_scanned_eq(2) [OF that, of D s] by (simp add: get_drive_def)
  have sl: "slots D (scan_view ?s1) = slots D s"
    by (rule slots_eqI) (simp_all add: d1 nth_slots place_of_def)
  have "pc_regs ?s1 = regs" by (subst f1) (simp add: assms(1))
  from scan_pci_visits [OF this assms(2,3)] obtain s2 where
    s2: "scan_pci n (scan_next_hba D) PCI_TYPE_SERIAL_ATA ?s1 = Some s2" "pc_regs s2 = regs"
    "scan_view s2 = fold (visit_site D) (sites D regs n) (scan_view ?s1)" by metis
  have "ah_scan_error (scan_view ?s1) = ERR_NONE" by (simp, subst forget_scanned_eq(1), simp add: assms(4))
  moreover have "\<not> ah_scan_add_drives (scan_view ?s1)" by simp
  moreover have "one_each (slots D (scan_view ?s1))" using assms(5) sl by simp
  ultimately have m: "scan_view s2 = (scan_view ?s1)\<lparr>ah_drives := ah_drives (scan_view s2)\<rparr>"
    "i < MAX_DRIVES \<Longrightarrow> get_drive D i s2 = marked (found D regs n (slots D s ! i)) (get_drive D i ?s1)" for i
    using mark_drives [of "scan_view ?s1" D "sites D regs n"] unfolding s2(3) [symmetric] sl found_def by (simp_all add: image_image)
  have eq: "ah_scan_error (scan_view s2) = ah_scan_error s" "hw_busy (scan_view s2) = hw_busy s"
    "hw_outer (scan_view s2) = hw_outer s" "hw_if (scan_view s2) = hw_if s" "sy_mutex (scan_view s2) = sy_mutex s"
    by (subst m(1), simp, subst forget_scanned_eq(1), simp)+
  show thesis
  proof (rule that [OF s2(1,2)])
    show "ah_scan_error s2 = ERR_NONE" using eq(1) assms(4) by simp
    show "drive_locks_free D c s2" using assms(6) eq by (simp add: drive_locks_free_def mutex_free_def lock_free_def)
    fix i assume i: "i < MAX_DRIVES"
    show "kept (get_drive D i s) (get_drive D i s2) \<and>
       missing (get_drive D i s2) = (slots D s ! i \<noteq> None \<and> \<not> found D regs n (slots D s ! i))"
      unfolding m(2) [OF i] d1 [OF i] using i
      by (auto simp: kept_def place_of_def missing_def nth_slots not_found_None marked_def)
  qed
qed

lemma place_of_dropped: "place_of (dropped gone first d) = (if gone then None else place_of d)"
  by (simp add: dropped_def place_of_def)

lemma still_there_slots:
  assumes "\<And>i. i < MAX_DRIVES \<Longrightarrow> place_of (get_drive D i s3) =
      (if slots D s ! i \<noteq> None \<and> \<not> found D regs n (slots D s ! i) then None else slots D s ! i)"
  shows "slots D s3 = still_there D regs n (slots D s)"
proof (rule slots_eqI)
  fix i assume i: "i < MAX_DRIVES"
  show "place_of (get_drive D i s3) = still_there D regs n (slots D s) ! i"
    using i not_found_None [of D regs n]
    by (cases "found D regs n (slots D s ! i)"; cases "slots D s ! i = None") (simp_all only: assms still_there_nth length_slots, simp_all)
qed (simp add: still_there_def)

section \<open>Properties\<close>

text \<open>C28: Bringing the table of drives up to date: drives found again keep their place and their
  identifier, those not found leave the table, new ones take the first places free in the order
  of the scan, and \<open>ERR_NO_MORE\<close> tells that the places ran out; no drive is in the table twice.
  This needs ports and PCI addresses that the bit-fields hold, bridges that lead to buses of
  higher numbers, and the mutexes of the drives free. When a drive leaves, it is the
  first drive that loses its magic number, so that its identifier is no longer recognised.\<close>

theorem scan_drives_tracks:
  assumes "pc_regs s = regs" "bridges_upward regs" "256 \<le> n" "ah_scan_error s = ERR_NONE"
    and "drive_locks_free D c s" "one_each (slots D s)" "\<forall>st\<in>set (sites D regs n). fits (site_place st)"
  shows "\<exists>s'. scan_drives E env D n c s = Ret s' \<and>
    (slots D s', ah_scan_error s') =
      fold add_place (map site_place (sites D regs n)) (still_there D regs n (slots D s), ERR_NONE) \<and>
    one_each (slots D s') \<and>
    (\<forall>i<MAX_DRIVES. found D regs n (slots D s ! i) \<longrightarrow>
       slots D s' ! i = slots D s ! i \<and> dk_stamp (get_drive D i s') = dk_stamp (get_drive D i s) \<and>
       dk_magic (get_drive D i s') = (if i = 0 \<and> still_there D regs n (slots D s) \<noteq> slots D s then 0 else dk_magic (get_drive D i s)))"
proof -
  let ?sl = "slots D s" and ?sites = "sites D regs n"
  obtain s2 where s2: "scan_pci n (scan_next_hba D) PCI_TYPE_SERIAL_ATA ((forget_scanned D s)\<lparr>ah_scan_add_drives := False\<rparr>) = Some s2"
    "pc_regs s2 = regs" "ah_scan_error s2 = ERR_NONE" "drive_locks_free D c s2"
    "\<And>i. i < MAX_DRIVES \<Longrightarrow> kept (get_drive D i s) (get_drive D i s2) \<and>
       missing (get_drive D i s2) = (?sl ! i \<noteq> None \<and> \<not> found D regs n (?sl ! i))"
    using pass_marks [OF assms(1-4,6,5)] by metis
  obtain s3 where s3: "remove_missing E env D c [0..<MAX_DRIVES] s2 = Ret s3" "s3 = s2\<lparr>ah_drives := ah_drives s3\<rparr>"
    "\<And>i. i < MAX_DRIVES \<Longrightarrow> get_drive D i s3 = dropped (i \<in> set [0..<MAX_DRIVES] \<and> missing (get_drive D i s2))
       (i = 0 \<and> (\<exists>k\<in>set [0..<MAX_DRIVES]. missing (get_drive D k s2))) (get_drive D i s2)"
    by (rule remove_missing_eq [OF s2(3,4) _ _ that]) auto
  have "place_of (get_drive D i s3) = (if ?sl ! i \<noteq> None \<and> \<not> found D regs n (?sl ! i) then None else ?sl ! i)"
    if "i < MAX_DRIVES" for i
    unfolding s3(3) [OF that] place_of_dropped using s2(5) [OF that] that by (simp add: kept_def nth_slots)
  then have sl3: "slots D s3 = still_there D regs n ?sl" by (rule still_there_slots)
  have any: "(\<exists>k\<in>set [0..<MAX_DRIVES]. missing (get_drive D k s2)) \<longleftrightarrow> still_there D regs n ?sl \<noteq> ?sl"
    by (simp only: still_there_same length_slots) (use s2(5) in \<open>auto simp del: not_None_eq\<close>)
  have kept3: "dk_stamp (get_drive D i s3) = dk_stamp (get_drive D i s) \<and>
      dk_magic (get_drive D i s3) = (if i = 0 \<and> still_there D regs n ?sl \<noteq> ?sl then 0 else dk_magic (get_drive D i s))"
    if "i < MAX_DRIVES" for i
    unfolding s3(3) [OF that] any using s2(5) [OF that] by (auto simp: dropped_def kept_def)
  let ?s3 = "s3\<lparr>ah_scan_add_drives := True\<rparr>"
  have "pc_regs ?s3 = regs" by (subst s3(2)) (simp add: s2(2))
  from scan_pci_visits [OF this assms(2,3), of D] obtain s4 where
    s4: "scan_pci n (scan_next_hba D) PCI_TYPE_SERIAL_ATA ?s3 = Some s4" "scan_view s4 = fold (visit_site D) ?sites (scan_view ?s3)"
    by metis
  have g3: "get_drive D i ?s3 = get_drive D i s3" for i by (simp add: get_drive_def)
  have e3: "ah_scan_error (scan_view ?s3) = ERR_NONE" by (simp, subst s3(2)) (simp add: s2(3))
  have a3: "ah_scan_add_drives (scan_view ?s3)" by simp
  have v3: "slots D (scan_view ?s3) = slots D s3" by (rule slots_frame) (simp add: g3)
  have v4: "slots D (scan_view s4) = slots D s4" by (rule slots_frame) simp
  note fill = fill_drives [OF e3 a3 assms(7), where D = D, folded s4(2), unfolded v3 v4 sl3]
  have run: "scan_drives E env D n c s = Ret s4"
    unfolding scan_drives_def Let_def s2(1) using s2(3) s3(1) s4(1) by simp
  have tbl: "(slots D s4, ah_scan_error s4) = fold add_place (map site_place ?sites) (still_there D regs n ?sl, ERR_NONE)"
    using fill(1) by simp
  have "one_each (fst (fold add_place (map site_place ?sites) (still_there D regs n ?sl, ERR_NONE)))"
    by (rule one_each_add_places) (simp add: one_each_still_there assms(6))
  then have one: "one_each (slots D s4)" using tbl by (metis fst_conv)
  have kept4: "kept (get_drive D i s3) (get_drive D i s4)" if "i < MAX_DRIVES" "found D regs n (?sl ! i)" for i
  proof -
    have "?sl ! i \<noteq> None" using that(2) not_found_None [of D regs n] by (cases "?sl ! i") auto
    then show ?thesis using fill(2) [OF that(1)] that by (simp add: still_there_nth g3 del: not_None_eq)
  qed
  have place: "slots D s4 ! i = ?sl ! i" if "i < MAX_DRIVES" "found D regs n (?sl ! i)" for i
    using kept4 [OF that] that sl3 nth_slots [OF that(1), of D s3] nth_slots [OF that(1), of D s4] by (simp add: kept_def still_there_nth)
  show ?thesis
    using run tbl one place kept3 kept4 by (intro exI [of _ s4]) (auto simp: kept_def)
qed

text \<open>
  A table with two drives, the first of them gone; the adapter of \<open>xbuses\<close> has drives at the ports
  0 and 2, and the second is in the table.
\<close>

definition xahci_env :: ahci_env where
  "xahci_env = \<lparr>av_drives = 0x200000, av_lock = 0x201000, av_driver = 0x202000, av_registry_lock = 0x203000,
     av_scan_devices = 0x130000, av_get_next_device = 0x131000, av_page_map = 0x1000,
     av_mmio = \<lambda>a. if a AND 0x7F = 0x18 then 0x123 else if a AND 0x7F = 0x14 then 0x101 else 5\<rparr>"

definition xdrive :: "i32 \<Rightarrow> i32 \<Rightarrow> i32 \<Rightarrow> drive" where
  "xdrive st device port = new_drive st 0xFFFFFFF0 device port zero_drive"

definition xahci :: ahci where
  "xahci = apic.extend (apic.truncate (xapic\<lparr>pc_regs := xbuses\<rparr>))
     \<lparr>ah_scan_error = ERR_NONE, ah_scan_add_drives = False,
      ah_drives = (\<lambda>_. zero_drive)(drive_at xahci_env 0 := xdrive 7 0x20000 0, drive_at xahci_env 1 := xdrive 8 0x10000 2),
      ah_stamp = 9\<rparr>"

lemma xahci_sites: "sites xahci_env xbuses 256 = [(0x10000, 0xFFFFFFF0, 0), (0x10000, 0xFFFFFFF0, 2)]"
proof -
  have "filter (of_type xbuses PCI_TYPE_SERIAL_ATA) [0, 0x10000] = [0x10000]" by code_simp
  moreover have "hba_sites xahci_env xbuses 0x10000 = [(0x10000, 0xFFFFFFF0, 0), (0x10000, 0xFFFFFFF0, 2)]" by code_simp
  ultimately show ?thesis unfolding sites_def xbuses_tree by simp
qed

lemma xahci_drives: "ah_drives xahci = (\<lambda>_. zero_drive)(drive_at xahci_env 0 := xdrive 7 0x20000 0, drive_at xahci_env 1 := xdrive 8 0x10000 2)"
  by (simp add: xahci_def apic.defs)

lemma xahci_slots: "slots xahci_env xahci = [Some (0x20000, 0), Some (0x10000, 2), None, None, None, None, None, None]"
  unfolding slots_def get_drive_def xahci_drives by code_simp

lemma xahci_state:
  "pc_regs xahci = xbuses" "ah_scan_error xahci = ERR_NONE" "drive_locks_free xahci_env 0 xahci"
  by (simp_all add: xahci_def apic.defs xapic_def interrupts.defs xtables_def pci.defs drivers.defs
      drive_locks_free_def mutex_free_def lock_free_def xregistry_def xkm_def)

theorem scan_drives_tracks_witness:
  "\<exists>s'. scan_drives xE id xahci_env 256 0 xahci = Ret s' \<and> ah_scan_error s' = ERR_NONE \<and>
    slots xahci_env s' = [Some (0x10000, 0), Some (0x10000, 2), None, None, None, None, None, None] \<and>
    dk_stamp (get_drive xahci_env 1 s') = 8 \<and> dk_magic (get_drive xahci_env 1 s') = DRIVE_MAGIC"
proof -
  have sl: "still_there xahci_env xbuses 256 (slots xahci_env xahci) = [None, Some (0x10000, 2), None, None, None, None, None, None]"
    "found xahci_env xbuses 256 (slots xahci_env xahci ! 1)"
    by (simp_all add: still_there_def found_def xahci_sites xahci_slots site_place_def)
  have "fold add_place (map site_place [(0x10000, 0xFFFFFFF0, 0), (0x10000, 0xFFFFFFF0, 2)])
      ([None, Some (0x10000, 2), None, None, None, None, None, None], ERR_NONE) =
      ([Some (0x10000, 0), Some (0x10000, 2), None, None, None, None, None, None], ERR_NONE)"
    by code_simp
  moreover have "one_each (slots xahci_env xahci)"
    unfolding xahci_slots one_each_def by (simp add: All_less_Suc numeral_eq_Suc)
  moreover have "\<forall>st\<in>set (sites xahci_env xbuses 256). fits (site_place st)"
    unfolding xahci_sites by code_simp
  moreover have "dk_stamp (get_drive xahci_env 1 xahci) = 8" "dk_magic (get_drive xahci_env 1 xahci) = DRIVE_MAGIC"
    unfolding get_drive_def xahci_drives by code_simp+
  ultimately show ?thesis
    using scan_drives_tracks [of xahci xbuses 256 xahci_env 0 xE id] xahci_state xbuses_upward sl
    by (auto simp: xahci_sites)
qed

end
