(* ===== verification/Spec2Isabelle.thy ===== *)
theory Spec2Isabelle
  imports Sync_Safety Printf Cpu_Info Ahci_Scan
begin

text \<open>
  A verification of the kernel: the scheduler, the locks, mutexes and sleeping threads built on
  it, memory and page maps, the console, the registry of drivers, and the drivers of the machine
  (PCI, interrupt tables, local APIC, ACPI tables, CPU information, SATA drives). File names
  below are relative to \<open>src/\<close> of the repository.

  \<^bold>\<open>Parts and theories\<close>

  \<^item> \<open>Prelude\<close>: widths of integers, the result type \<open>outcome\<close> (\<open>Ret\<close> a value; \<open>Halted\<close>, a
    \<open>PANIC\<close>; \<open>Undef\<close>, undefined behaviour; \<open>Hang\<close>, a wait that never ends), shared lemmas, the
    collection \<open>frame_simps\<close>.
  \<^item> \<open>Bits\<close>: the macros of \<open>common.h\<close> on bit fields and bit arrays, \<open>bsfq\<close>, \<open>bsrq\<close> and
    \<open>__find_mask_bsf\<close> (\<open>x86_64/cpu.h\<close>, \<open>x86_64/schedule.inc\<close>). \<open>Stamp_Id\<close>: identifiers made of an
    address and a stamp (\<open>stamp_id.h\<close>).
  \<^item> \<open>Linked\<close>: an interface (a locale) for the two link fields of a node, with the lemmas on
    doubly linked lists. It is interpreted on the two pairs of links of a thread and on those of
    a driver.
  \<^item> \<open>Spinlock\<close>: \<open>x86_64/sync.inc\<close>; the record \<open>hw\<close> holds the locks, the outer lock and the
    interrupt flag of every CPU. \<open>acquire_spinlock_int\<close> is the loop as it is written, which gives
    up after \<open>2 ^ 64\<close> attempts when \<open>tries\<close> is 0; the ghost field \<open>hw_spun\<close> counts the calls that
    do, so that a theorem can say that none does.
  \<^item> \<open>Thread\<close>, \<open>Run_Queue\<close>, \<open>Scheduler\<close>: \<open>schedule.c\<close>, \<open>schedule.h\<close>, \<open>x86_64/schedule.c\<close> and
    \<open>.inc\<close>. The record \<open>kstate\<close> extends \<open>hw\<close> by the descriptors of the threads, the words of
    memory at the ends of the stacks, the data of the CPUs, the two lists of threads, the clock,
    and the registers of each CPU as its interrupt frame.
  \<^item> \<open>Sched_Struct\<close>, \<open>Sched_Rep\<close>: the invariant \<open>rep\<close>, which relates a state to the abstract lists
    and queues it represents. \<open>Sched_Resume\<close>, \<open>Sched_Pause\<close>, \<open>Sched_Timer\<close>, \<open>Sched_Fair\<close>: what each
    operation does to them. \<open>Sched_Spin\<close>: no operation waits in vain for a lock.
    \<open>Sched_Safety\<close>: every operation keeps \<open>rep\<close>; the reachable states. \<open>Sched_Frame\<close>: what the
    scheduler leaves alone. \<open>Sched_Example\<close>: a small run, the input of the concrete instances.
    \<open>Sched_Properties\<close>: the properties.
  \<^item> \<open>Cmemory\<close>, \<open>Cstring\<close>: byte memory and the functions of \<open>common.c\<close> on it. \<open>Console\<close>,
    \<open>Printf\<close>: \<open>x86_64/vga.c\<close>, \<open>put_char\<close> and \<open>kprintf\<close>.
  \<^item> \<open>Page_Map\<close>, \<open>Boot_Map\<close>, \<open>Kmemory\<close>: \<open>x86_64/page_map.c\<close>, the page map \<open>x86_64/boot32.c\<close> builds,
    and \<open>memory.c\<close> with \<open>x86_64/memory.c\<close>. The boot code is compiled for 32 bits and holds the
    address of the map in a 32-bit pointer; the model's pointers have 64, which is the same for
    every map below 4 GB.
  \<^item> \<open>Sync\<close>, \<open>Sync_Mutex\<close>, \<open>Sync_Sleep\<close>: \<open>sync.c\<close> and \<open>sync.h\<close>, with the state \<open>sync\<close> on top of the
    allocator and the scheduler. \<open>Sync_Safety\<close>: the scheduler together with the timer procedure
    \<open>sleep_timer_proc\<close>.
  \<^item> \<open>Driver\<close>: \<open>driver.c\<close>. \<open>Pci\<close>, \<open>Pci_Scan\<close>: \<open>x86_64/pci.c\<close>; the configuration space is a map from
    the address written to port \<open>0xCF8\<close> to a register. \<open>Interrupt\<close>: \<open>x86_64/interrupt.c\<close> and the
    descriptors of \<open>x86_64/cpu.h\<close>. \<open>Apic\<close>: \<open>x86_64/apic.c\<close>; the writes to the local APIC are a log
    per CPU. \<open>Ahci\<close>, \<open>Ahci_Scan\<close>: \<open>x86_64/ahci.c\<close>. Their states extend each other in this order,
    from \<open>sync\<close> to \<open>ahci\<close>, so that a state of the last is one of all.
  \<^item> \<open>Acpi\<close>, \<open>Cpu_Info\<close>: \<open>x86_64/acpi.c\<close> and \<open>x86_64/cpu_info.c\<close>, over the byte memory of \<open>Cmemory\<close> and
    the page descriptors of \<open>Page_Map\<close>.

  \<^bold>\<open>How the code is modelled\<close>

  The stateful functions take and return a state, with the fields the source's static variables
  have; pointers to structures are 64-bit addresses into a heap of records, machine integers are
  words of their width. A CPU is a number; an operation runs on the CPU it is given. The
  scheduler's operations are atomic: the CPU that asks another one for a task runs that CPU's
  interrupt handler in the middle of its own operation, as the code makes it wait for it.
  Finer interleavings are modelled for the spinlock (\<open>spin_step\<close>, tied to the loop by the lemma
  \<open>spin_run\<close>) and, for a mutex, as the states in which one thread pauses and another continues.
  A caller that waited for a mutex goes on from a state given by a parameter \<open>env\<close>.

  What is not code of the repository is a parameter: the answers of \<open>cpuid\<close>, the registers of PCI
  devices and AHCI adapters, the number of started CPUs at each wait, the ticks the calibration
  of the timer measures, the results of \<open>bsr\<close> for 0, the number of CPUs where the table of CPUs
  is not the subject (record \<open>machine\<close>).

  \<^bold>\<open>What the properties show\<close>

  \<^item> Safety and totality of the scheduler: in every reachable state a thread runs on at most one
    CPU; every operation returns, keeps the invariant and never waits for a lock in vain.
  \<^item> Its behaviour: round robin with quanta, bounded waiting, priorities and preemption, least
    loaded CPU, saved and restored contexts, errors that change nothing, identifiers that expire.
  \<^item> Mutexes and sleeping: queues in the order of arrival and of deadlines, wake-ups, one defect.
  \<^item> Memory: page maps that translate one to one, round trips of mappings, disjoint allocations.
  \<^item> Text: \<open>kprintf\<close> against a reference formatter, \<open>put_char\<close> against an abstract terminal,
    \<open>ultoa\<close> against a parser, \<open>memmem\<close> against the definition of the first occurrence.
  \<^item> Drivers: the registry against lists; the PCI scan against the tree of buses; the tables of
    interrupts; the timer's count; the protocol that starts a CPU; the walk over ACPI tables; the
    table of CPUs; the table of drives against the list of what a scan finds.

  \<^bold>\<open>Bounds and fuel\<close>

  \<open>scan_pci\<close> has fuel for the depth of bridges behind bridges. A bus number is below 256, so 256
  levels are enough when bridges lead to buses of higher numbers, which the theorem assumes; a
  bridge that leads back makes the code recurse for ever. Loops that may not end otherwise
  (lists that could be cyclic, ACPI entries of length 0) are partial functions, and the theorems
  show that they return. Bounded waiting counts eleven ticks for a turn, the longest quantum.
  The counters of threads must stay below \<open>2 ^ 31\<close>.

  \<^bold>\<open>Not modelled\<close>

  The assembly that switches modes, loads tables and continues threads; log lines; the boot
  sequence in \<open>x86_64/boot64.c\<close> and \<open>kmain.c\<close>, which calls the initializations one after the
  other; the default fault handler, which prints the frame and halts; \<open>init_scheduler\<close>, which
  only calls interrupt and APIC functions; the translation lookaside buffer; caches and memory
  order; the tests under \<open>test/\<close>.
\<close>

end
